(* ===== verification/Prelude.thy ===== *)
theory Prelude
  imports Main "HOL-Library.Word"
begin

text \<open>
  What every component of the model shares: the ways a C operation can go wrong and the
  sequencing of fallible operations, the characters and zero-terminated strings of C, and
  the list lemmas about blocks of memory.
\<close>

section \<open>Collections of facts\<close>

named_theorems res_simps "evaluation of sequenced fallible operations"
named_theorems inv_intros "preservation of the components' invariants"

section \<open>Faults\<close>

text \<open>
  An operation with undefined behaviour ends in a fault; every other outcome of the code,
  error replies included, is a value.
\<close>

datatype fault =
    OutOfBounds      \<comment> \<open>access outside the block\<close>
  | NullDeref        \<comment> \<open>access through \<open>NULL\<close>\<close>
  | DanglingAccess   \<comment> \<open>access to, or second \<open>free\<close> of, a freed block\<close>
  | Indeterminate    \<comment> \<open>read of memory that was never written\<close>
  | TypeConfusion    \<comment> \<open>read of an object at another type\<close>
  | DivisionByZero
  | SignedOverflow
  | LockMisuse       \<comment> \<open>destruction of a lock that is held\<close>
  | BadConversion    \<comment> \<open>floating value outside the range of the integer type\<close>

type_synonym 'a res = "fault + 'a"

definition bind_res :: "'a res \<Rightarrow> ('a \<Rightarrow> 'b res) \<Rightarrow> 'b res" where
  "bind_res m f = (case m of Inl e \<Rightarrow> Inl e | Inr x \<Rightarrow> f x)"

definition map_res :: "('a \<Rightarrow> 'b) \<Rightarrow> 'a res \<Rightarrow> 'b res" where
  "map_res f m = bind_res m (\<lambda>x. Inr (f x))"

lemma bind_res_simps [simp, res_simps]:
  "bind_res (Inl e) f = Inl e"
  "bind_res (Inr x) f = f x"
  by (simp_all add: bind_res_def)

lemma map_res_simps [simp, res_simps]:
  "map_res g (Inl e) = Inl e"
  "map_res g (Inr x) = Inr (g x)"
  by (simp_all add: map_res_def)

lemma bind_res_Inr_iff [res_simps]:
  "bind_res m f = Inr y \<longleftrightarrow> (\<exists>x. m = Inr x \<and> f x = Inr y)"
  by (cases m) auto

lemma bind_res_Inl_iff:
  "bind_res m f = Inl e \<longleftrightarrow> m = Inl e \<or> (\<exists>x. m = Inr x \<and> f x = Inl e)"
  by (cases m) auto

lemma map_res_Inr_iff [res_simps]:
  "map_res g m = Inr y \<longleftrightarrow> (\<exists>x. m = Inr x \<and> g x = y)"
  by (cases m) auto

lemma bind_res_assoc: "bind_res (bind_res m f) g = bind_res m (\<lambda>x. bind_res (f x) g)"
  by (cases m) auto

lemma bind_res_cong [fundef_cong]:
  assumes "m = m'" and "\<And>x. m' = Inr x \<Longrightarrow> f x = f' x"
  shows "bind_res m f = bind_res m' f'"
  using assms by (cases m') auto

section \<open>Characters and strings of C\<close>

abbreviation NUL :: char where "NUL \<equiv> CHR 0x00"
abbreviation LF :: char where "LF \<equiv> CHR 0x0A"
abbreviation CR :: char where "CR \<equiv> CHR 0x0D"
abbreviation SP :: char where "SP \<equiv> CHR 0x20"

text \<open>\<open>char\<close> is signed on the platforms the program is built for.\<close>

definition schar :: "char \<Rightarrow> int" where
  "schar c = (let n = of_char c :: int in if n < 128 then n else n - 256)"

text \<open>The zero-terminated string at the start of a block of memory.\<close>

definition cstr :: "string \<Rightarrow> string" where
  "cstr s = takeWhile (\<lambda>c. c \<noteq> NUL) s"

definition is_cstr :: "string \<Rightarrow> bool" where
  "is_cstr s \<longleftrightarrow> NUL \<notin> set s"

type_synonym size_t = "64 word"

lemma of_char_bounds: "0 \<le> (of_char c :: int)" "(of_char c :: int) < 256"
  using of_char_mod_256 [of c, where ?'a = int] pos_mod_bound [of 256 "of_char c :: int"]
    pos_mod_sign [of 256 "of_char c :: int"] by simp_all

lemma schar_bounds: "- 128 \<le> schar c" "schar c < 128"
  using of_char_bounds [of c] by (simp_all add: schar_def Let_def)

lemma schar_inj [simp]: "schar c = schar d \<longleftrightarrow> c = d"
  using of_char_bounds [of c] of_char_bounds [of d]
  by (auto simp: schar_def Let_def split: if_splits)

lemma cstr_simps [simp]:
  "cstr [] = []"
  "cstr (c # s) = (if c = NUL then [] else c # cstr s)"
  by (simp_all add: cstr_def)

lemma cstr_append_NUL: "is_cstr s \<Longrightarrow> cstr (s @ NUL # t) = s"
  by (induction s) (auto simp: is_cstr_def)

lemma cstr_id: "is_cstr s \<Longrightarrow> cstr s = s"
  by (induction s) (auto simp: is_cstr_def)

lemma is_cstr_cstr [simp]: "is_cstr (cstr s)"
  by (induction s) (auto simp: is_cstr_def)

lemma is_cstr_simps [simp]:
  "is_cstr []"
  "is_cstr (c # s) \<longleftrightarrow> c \<noteq> NUL \<and> is_cstr s"
  "is_cstr (s @ t) \<longleftrightarrow> is_cstr s \<and> is_cstr t"
  by (auto simp: is_cstr_def)

section \<open>Machine integers\<close>

text \<open>\<open>int64_t\<close> and \<open>int\<close>: two's complement, read with \<open>sint\<close>.\<close>

type_synonym int64 = "64 word"
type_synonym int32 = "32 word"

lemma sint_word_of_int64:
  "- (2 ^ 63) \<le> x \<Longrightarrow> x < 2 ^ 63 \<Longrightarrow> sint (word_of_int x :: 64 word) = x"
  by (simp add: int_word_sint)

lemma sint_word_of_int32:
  "- (2 ^ 31) \<le> x \<Longrightarrow> x < 2 ^ 31 \<Longrightarrow> sint (word_of_int x :: 32 word) = x"
  by (simp add: int_word_sint)

lemma sint_small64:
  assumes "unat (w :: 64 word) < 2 ^ 63"
  shows "sint w = int (unat w)"
proof -
  have "int (unat w) < int (2 ^ 63)" using assms by (simp only: of_nat_less_iff)
  then have lt: "uint w < 2 ^ 63" by simp
  have "- (2 ^ 63) \<le> uint w" by (rule order_trans [of _ 0]) simp_all
  from sint_word_of_int64 [OF this lt] show ?thesis by simp
qed

lemma sint64_bounds: "- (2 ^ 63) \<le> sint (w :: 64 word)" "sint (w :: 64 word) < 2 ^ 63"
  using sint_ge [of w] sint_lt [of w] by simp_all

lemma sint32_bounds: "- (2 ^ 31) \<le> sint (w :: 32 word)" "sint (w :: 32 word) < 2 ^ 31"
  using sint_ge [of w] sint_lt [of w] by simp_all

lemma unat_dec: "0 < (w :: size_t) \<Longrightarrow> unat (w - 1) = unat w - 1"
  by (metis One_nat_def less_irrefl unat_minus_one)

lemma unat_Suc_less: "(c :: size_t) < s \<Longrightarrow> unat (c + 1) = Suc (unat c)"
  using unsigned_less [of s, where ?'a = nat] by (simp add: unat_word_ariths word_less_nat_alt)

section \<open>Blocks of memory\<close>

text \<open>
  A block is the list of its bytes. \<open>write_at\<close> copies bytes over the block from an offset;
  what would lie past the end of the block is not part of it.
\<close>

definition write_at :: "nat \<Rightarrow> 'a list \<Rightarrow> 'a list \<Rightarrow> 'a list" where
  "write_at i xs b = take (length b) (take i b @ xs @ drop (i + length xs) b)"

lemma length_write_at: "i \<le> length b \<Longrightarrow> length (write_at i xs b) = length b"
  by (simp add: write_at_def)

lemma write_at_fits:
  "i + length xs \<le> length b \<Longrightarrow> write_at i xs b = take i b @ xs @ drop (i + length xs) b"
  by (simp add: write_at_def)

lemma nth_write_at:
  assumes "i + length xs \<le> length b" and "j < length b"
  shows "write_at i xs b ! j =
    (if i \<le> j \<and> j < i + length xs then xs ! (j - i) else b ! j)"
  using assms by (auto simp: write_at_fits nth_append min_def)

section \<open>Counting\<close>

lemma length_filter_update:
  assumes "i < length xs"
  shows "length (filter P (xs[i := y])) + (if P (xs ! i) then 1 else 0) =
    length (filter P xs) + (if P y then 1 else 0)"
proof -
  have "xs = take i xs @ xs ! i # drop (Suc i) xs" using assms by (rule id_take_nth_drop)
  then have "length (filter P xs) = length (filter P (take i xs @ xs ! i # drop (Suc i) xs))" by simp
  with assms show ?thesis by (simp add: upd_conv_take_nth_drop)
qed

section \<open>Refinement of fallible operations\<close>

text \<open>
  A concrete operation refines an abstract one when they fail with the same fault, or both
  succeed with the same output and related states.
\<close>

definition refines :: "('a \<Rightarrow> 'b \<Rightarrow> bool) \<Rightarrow> ('a \<times> 'o) res \<Rightarrow> ('b \<times> 'o) res \<Rightarrow> bool" where
  "refines R c a =
     (case c of
        Inl e \<Rightarrow> a = Inl e
      | Inr (s, out) \<Rightarrow> (\<exists>m. a = Inr (m, out) \<and> R s m))"

lemma refinesI_Inr: "R s m \<Longrightarrow> refines R (Inr (s, out)) (Inr (m, out))"
  by (simp add: refines_def)

lemma refines_simps [simp]:
  "refines R (Inl e) a \<longleftrightarrow> a = Inl e"
  "refines R (Inr (s, out)) a \<longleftrightarrow> (\<exists>m. a = Inr (m, out) \<and> R s m)"
  by (simp_all add: refines_def)

lemma refines_mono: "refines R c a \<Longrightarrow> (\<And>s m. R s m \<Longrightarrow> S s m) \<Longrightarrow> refines S c a"
  by (auto simp: refines_def split: sum.splits prod.splits)

text \<open>Running a list of operations collects their outputs and stops at the first fault.\<close>

fun run_ops :: "('s \<Rightarrow> 'op \<Rightarrow> ('s \<times> 'o) res) \<Rightarrow> 's \<Rightarrow> 'op list \<Rightarrow> ('s \<times> 'o list) res" where
  "run_ops step s [] = Inr (s, [])"
| "run_ops step s (op # ops) =
     bind_res (step s op) (\<lambda>(s', out). map_res (\<lambda>(s'', outs). (s'', out # outs)) (run_ops step s' ops))"

lemma run_ops_refines:
  assumes step: "\<And>s m op. R s m \<Longrightarrow> ok op \<Longrightarrow> refines R (cstep s op) (astep m op)"
    and "R s m" and "list_all ok ops"
  shows "refines R (run_ops cstep s ops) (run_ops astep m ops)"
  using assms(2,3)
proof (induction ops arbitrary: s m)
  case (Cons op ops)
  then have st: "refines R (cstep s op) (astep m op)" by (intro step) simp_all
  show ?case
  proof (cases "cstep s op")
    case (Inl e)
    with st show ?thesis by simp
  next
    case (Inr r)
    obtain s' out where r: "r = (s', out)" by (cases r)
    with st Inr obtain m' where m': "astep m op = Inr (m', out)" "R s' m'" by auto
    with Cons have "refines R (run_ops cstep s' ops) (run_ops astep m' ops)" by simp
    then show ?thesis using Inr r m'
      by (cases "run_ops cstep s' ops") auto
  qed
qed simp

end
