(* ===== verification/Fnv.thy ===== *)
theory Fnv
  imports Prelude
begin

unbundle bit_operations_syntax

text \<open>
  The hash of fnv.c (\<open>fnv1a\<close>, a loop over the bytes of a C string in 64-bit unsigned
  arithmetic). The lemmas relate it to the published FNV-1a function and show that every
  round is a bijection of the 64-bit state.
\<close>

section \<open>Definitions\<close>

definition FNV_PRIME_64 :: "64 word" where
  "FNV_PRIME_64 = 1099511628211"

definition FNV_OFFSET_64 :: "64 word" where
  "FNV_OFFSET_64 = 14695981039346656037"

text \<open>
  In \<open>hash ^ *cptr\<close> the signed \<open>char\<close> is promoted to \<open>int\<close> and then converted to
  \<open>uint64_t\<close>: the word of its signed value.
\<close>

definition fnv_round :: "64 word \<Rightarrow> char \<Rightarrow> 64 word" where
  "fnv_round hash c = (hash XOR word_of_int (schar c)) * FNV_PRIME_64"

fun fnv_loop :: "64 word \<Rightarrow> string \<Rightarrow> 64 word" where
  "fnv_loop hash [] = hash"
| "fnv_loop hash (c # s) = (if c = NUL then hash else fnv_loop (fnv_round hash c) s)"

definition fnv1a :: "string \<Rightarrow> 64 word" where
  "fnv1a string = fnv_loop FNV_OFFSET_64 string"

section \<open>The published function\<close>

text \<open>FNV-1a of a byte sequence: the bytes are octets, between 0 and 255.\<close>

definition fnv1a_ref :: "int list \<Rightarrow> 64 word" where
  "fnv1a_ref bs = foldl (\<lambda>h b. (h XOR of_int b) * FNV_PRIME_64) FNV_OFFSET_64 bs"

definition ascii :: "char \<Rightarrow> bool" where
  "ascii c \<longleftrightarrow> (of_char c :: int) < 128"

lemma schar_ascii: "ascii c \<Longrightarrow> schar c = of_char c"
  by (simp add: schar_def ascii_def Let_def)

lemma fnv_loop_foldl: "is_cstr s \<Longrightarrow> fnv_loop h s = foldl fnv_round h s"
  by (induction s arbitrary: h) auto

lemma fnv_loop_cstr: "fnv_loop h (cstr s) = fnv_loop h s"
  by (induction s arbitrary: h) auto

lemma fnv1a_cstr: "fnv1a (cstr s) = fnv1a s"
  by (simp add: fnv1a_def fnv_loop_cstr)

lemma fnv1a_stops_at_NUL: "is_cstr s \<Longrightarrow> fnv1a (s @ NUL # t) = fnv1a s"
  by (metis cstr_append_NUL fnv1a_cstr)

lemma foldl_fnv_round_ascii:
  "list_all ascii s \<Longrightarrow>
    foldl fnv_round h s = foldl (\<lambda>h b. (h XOR of_int b) * FNV_PRIME_64) h (map of_char s)"
  by (induction s arbitrary: h) (simp_all add: fnv_round_def schar_ascii)

text \<open>
  C40. On ASCII keys the hash of the code is the published FNV-1a hash of their bytes.\<close>

theorem fnv1a_ascii:
  assumes "is_cstr s" and "list_all ascii s"
  shows "fnv1a s = fnv1a_ref (map of_char s)"
  using assms
  by (simp add: fnv1a_def fnv1a_ref_def fnv_loop_foldl foldl_fnv_round_ascii)

theorem fnv1a_ascii_witness:
  "fnv1a ''key'' = fnv1a_ref [107, 101, 121]"
proof -
  have "is_cstr ''key''" and "list_all ascii ''key''"
    by (simp_all add: ascii_def)
  from fnv1a_ascii [OF this] show ?thesis by simp
qed

lemma fnv1a_key_value: "fnv1a ''key'' = 4452171178779021548"
  by (simp add: fnv1a_def fnv_round_def FNV_OFFSET_64_def FNV_PRIME_64_def schar_def)

text \<open>
  On other bytes it is not: the sign extension of \<open>char\<close> flips the upper 56 bits of the
  state, so the key of the single byte 0x80 does not get the FNV-1a hash of that byte.
\<close>

theorem fnv1a_high_byte:
  "fnv1a [CHR 0x80] \<noteq> fnv1a_ref [0x80]"
  by (simp add: fnv1a_def fnv_round_def fnv1a_ref_def FNV_OFFSET_64_def FNV_PRIME_64_def schar_def)

section \<open>Rounds are bijections\<close>

lemma FNV_PRIME_inverse: "FNV_PRIME_64 * 14886173955864302971 = 1"
  by (simp add: FNV_PRIME_64_def)

lemma times_FNV_PRIME_cancel: "x * FNV_PRIME_64 = y * FNV_PRIME_64 \<longleftrightarrow> x = y"
proof
  assume "x * FNV_PRIME_64 = y * FNV_PRIME_64"
  then have "x * (FNV_PRIME_64 * 14886173955864302971) = y * (FNV_PRIME_64 * 14886173955864302971)"
    by (simp only: mult.assoc [symmetric])
  then show "x = y" by (simp only: FNV_PRIME_inverse mult_1_right)
qed simp

lemma xor_cancel_right: "(g :: 64 word) XOR c = h XOR c \<longleftrightarrow> g = h"
  by (auto simp: bit_eq_iff bit_xor_iff)

lemma xor_cancel_left: "(c :: 64 word) XOR g = c XOR h \<longleftrightarrow> g = h"
  by (auto simp: bit_eq_iff bit_xor_iff)

lemma fnv_round_state_inj [simp]: "fnv_round g c = fnv_round h c \<longleftrightarrow> g = h"
  by (simp add: fnv_round_def times_FNV_PRIME_cancel xor_cancel_right)

lemma word_of_schar_inj: "(word_of_int (schar c) :: 64 word) = word_of_int (schar d) \<longleftrightarrow> c = d"
proof
  assume eq: "(word_of_int (schar c) :: 64 word) = word_of_int (schar d)"
  have "sint (word_of_int (schar x) :: 64 word) = schar x" for x
    using schar_bounds [of x] by (intro sint_word_of_int64) simp_all
  with eq have "schar c = schar d" by metis
  then show "c = d" by simp
qed simp

lemma fnv_round_char_inj [simp]: "fnv_round h c = fnv_round h d \<longleftrightarrow> c = d"
  by (simp add: fnv_round_def times_FNV_PRIME_cancel xor_cancel_left word_of_schar_inj)

lemma foldl_fnv_round_inj [simp]: "foldl fnv_round g s = foldl fnv_round h s \<longleftrightarrow> g = h"
  by (induction s arbitrary: g h) simp_all

text \<open>
  Two keys of the same length that differ in exactly one byte, wherever it is, never
  have the same 64-bit hash.
\<close>

theorem fnv1a_one_byte_apart:
  assumes "is_cstr (p @ a # t)" and "is_cstr (p @ b # t)"
  shows "fnv1a (p @ a # t) = fnv1a (p @ b # t) \<longleftrightarrow> a = b"
  using assms by (simp add: fnv1a_def fnv_loop_foldl del: foldl_Cons) simp

theorem fnv1a_one_byte_apart_witness:
  "fnv1a ''user1x'' \<noteq> fnv1a ''user2x''"
  using fnv1a_one_byte_apart [of "''user''" "CHR ''1''" "''x''" "CHR ''2''"] by simp

end
