(* ===== verification/C_Numbers.thy ===== *)
theory C_Numbers
  imports Prelude
begin

text \<open>
  The integer conversions of the C library that the program calls: \<open>printf\<close> with
  \<open>%d\<close>, \<open>%ld\<close> and \<open>%02x\<close>, and \<open>atoi\<close>, \<open>atol\<close>, \<open>atoll\<close> (which are \<open>strtol\<close>
  in base 10: leading white space, a sign, digits, saturation at the ends of \<open>long\<close>).
  The lemmas show that parsing undoes printing.
\<close>

section \<open>Characters\<close>

definition isdigit :: "char \<Rightarrow> bool" where
  "isdigit c \<longleftrightarrow> (48::nat) \<le> of_char c \<and> of_char c \<le> (57::nat)"

definition isspace :: "char \<Rightarrow> bool" where
  "isspace c \<longleftrightarrow> c = SP \<or> ((9::nat) \<le> of_char c \<and> of_char c \<le> (13::nat))"

definition to_lower :: "char \<Rightarrow> char" where
  "to_lower c = (if (65::nat) \<le> of_char c \<and> of_char c \<le> (90::nat) then char_of (of_char c + (32::nat)) else c)"

definition digit_char :: "nat \<Rightarrow> char" where
  "digit_char d = char_of (48 + d)"

definition digit_val :: "char \<Rightarrow> nat" where
  "digit_val c = of_char c - 48"

section \<open>Printing\<close>

fun dec_digits :: "nat \<Rightarrow> string" where
  "dec_digits n = (if n < 10 then [digit_char n] else dec_digits (n div 10) @ [digit_char (n mod 10)])"

declare dec_digits.simps [simp del]

definition fmt_d :: "int \<Rightarrow> string" where
  "fmt_d i = (if i < 0 then CHR ''-'' # dec_digits (nat (- i)) else dec_digits (nat i))"

definition hex_char :: "nat \<Rightarrow> char" where
  "hex_char d = (if d < 10 then char_of (48 + d) else char_of (87 + d))"

fun hex_digits :: "nat \<Rightarrow> string" where
  "hex_digits n = (if n < 16 then [hex_char n] else hex_digits (n div 16) @ [hex_char (n mod 16)])"

declare hex_digits.simps [simp del]

text \<open>\<open>%02x\<close> of an \<open>unsigned int\<close>: at least two digits.\<close>

definition fmt_02x :: "32 word \<Rightarrow> string" where
  "fmt_02x w = (let s = hex_digits (unat w) in if length s < 2 then CHR ''0'' # s else s)"

section \<open>Parsing\<close>

definition digits_nat :: "string \<Rightarrow> nat" where
  "digits_nat s = foldl (\<lambda>n c. 10 * n + digit_val c) 0 s"

definition strtol_digits :: "string \<Rightarrow> int" where
  "strtol_digits s = int (digits_nat (takeWhile isdigit s))"

definition strtol_int :: "string \<Rightarrow> int" where
  "strtol_int s =
     (case dropWhile isspace s of
        [] \<Rightarrow> 0
      | c # t \<Rightarrow>
          if c = CHR ''-'' then - strtol_digits t
          else if c = CHR ''+'' then strtol_digits t
          else strtol_digits (c # t))"

definition clamp64 :: "int \<Rightarrow> int" where
  "clamp64 i = max (- (2 ^ 63)) (min (2 ^ 63 - 1) i)"

definition atoll :: "string \<Rightarrow> int64" where
  "atoll s = word_of_int (clamp64 (strtol_int s))"

definition atol :: "string \<Rightarrow> int64" where
  "atol s = word_of_int (clamp64 (strtol_int s))"

text \<open>\<open>atoi\<close> is \<open>strtol\<close> narrowed to \<open>int\<close>.\<close>

definition atoi :: "string \<Rightarrow> int32" where
  "atoi s = word_of_int (clamp64 (strtol_int s))"

section \<open>Digits\<close>

lemma of_char_digit_char: "d < 10 \<Longrightarrow> (of_char (digit_char d) :: nat) = 48 + d"
  by (simp add: digit_char_def)

lemma isdigit_digit_char [simp]: "d < 10 \<Longrightarrow> isdigit (digit_char d)"
  by (simp add: isdigit_def of_char_digit_char)

lemma digit_val_digit_char [simp]: "d < 10 \<Longrightarrow> digit_val (digit_char d) = d"
  by (simp add: digit_val_def of_char_digit_char)

lemma isdigit_consts [simp]:
  "\<not> isdigit (CHR ''-'')" "\<not> isdigit (CHR ''+'')" "\<not> isdigit (CHR ''.'')" "\<not> isdigit NUL"
  "\<not> isdigit CR" "\<not> isdigit LF" "\<not> isdigit SP"
  by (simp_all add: isdigit_def)

lemma isspace_consts [simp]:
  "isspace SP" "isspace CR" "isspace LF" "\<not> isspace NUL"
  "\<not> isspace (CHR ''-'')" "\<not> isspace (CHR ''+'')"
  by (simp_all add: isspace_def)

lemma isdigit_not_isspace [simp]: "isdigit c \<Longrightarrow> \<not> isspace c"
  by (auto simp: isdigit_def isspace_def)

lemma isdigit_ne [simp]:
  "isdigit c \<Longrightarrow> c \<noteq> CHR ''-''" "isdigit c \<Longrightarrow> c \<noteq> CHR ''+''" "isdigit c \<Longrightarrow> c \<noteq> NUL"
  "isdigit c \<Longrightarrow> c \<noteq> SP" "isdigit c \<Longrightarrow> c \<noteq> CR" "isdigit c \<Longrightarrow> c \<noteq> LF" "isdigit c \<Longrightarrow> c \<noteq> CHR ''.''"
  by auto

lemma dec_digits_isdigit: "list_all isdigit (dec_digits n)"
  by (induction n rule: dec_digits.induct) (subst dec_digits.simps, simp)

lemma dec_digits_nonempty [simp]: "dec_digits n \<noteq> []"
  by (subst dec_digits.simps) simp

lemma digits_nat_snoc [simp]: "digits_nat (s @ [c]) = 10 * digits_nat s + digit_val c"
  by (simp add: digits_nat_def)

lemma digits_nat_dec_digits [simp]: "digits_nat (dec_digits n) = n"
proof (induction n rule: dec_digits.induct)
  case (1 n)
  show ?case
  proof (cases "n < 10")
    case True
    then show ?thesis by (subst dec_digits.simps) (simp add: digits_nat_def)
  next
    case False
    with 1 show ?thesis by (subst dec_digits.simps) simp
  qed
qed

text \<open>The text after a number: it does not go on with a digit.\<close>

definition no_digit :: "string \<Rightarrow> bool" where
  "no_digit s \<longleftrightarrow> (case s of [] \<Rightarrow> True | c # _ \<Rightarrow> \<not> isdigit c)"

lemma takeWhile_no_digit: "list_all isdigit s \<Longrightarrow> no_digit t \<Longrightarrow> takeWhile isdigit (s @ t) = s"
  by (induction s) (auto simp: no_digit_def split: list.splits)

lemma strtol_digits_dec [simp]: "no_digit t \<Longrightarrow> strtol_digits (dec_digits n @ t) = int n"
  by (simp add: strtol_digits_def takeWhile_no_digit dec_digits_isdigit)

lemma dec_digits_Cons: obtains c s where "dec_digits n = c # s" "isdigit c"
  using dec_digits_isdigit [of n] by (cases "dec_digits n") auto

lemma strtol_int_fmt_d:
  assumes "no_digit t"
  shows "strtol_int (fmt_d i @ t) = i"
proof (cases "i < 0")
  case True
  with assms show ?thesis by (simp add: strtol_int_def fmt_d_def)
next
  case False
  obtain c s where cs: "dec_digits (nat i) = c # s" "isdigit c" by (rule dec_digits_Cons)
  have "strtol_digits (dec_digits (nat i) @ t) = i"
    using False strtol_digits_dec [OF assms, of "nat i"] by simp
  with False cs show ?thesis by (simp add: strtol_int_def fmt_d_def)
qed

lemma clamp64_id: "- (2 ^ 63) \<le> i \<Longrightarrow> i < 2 ^ 63 \<Longrightarrow> clamp64 i = i"
  by (simp add: clamp64_def)

lemma atoll_fmt_d: "no_digit t \<Longrightarrow> atoll (fmt_d (sint w) @ t) = w"
  using sint64_bounds [of w] by (simp add: atoll_def strtol_int_fmt_d clamp64_id)

lemma atoi_fmt_d: "no_digit t \<Longrightarrow> atoi (fmt_d (sint w) @ t) = w"
  using sint32_bounds [of w] by (simp add: atoi_def strtol_int_fmt_d clamp64_id)

lemma fmt_d_chars: "c \<in> set (fmt_d i) \<Longrightarrow> c = CHR ''-'' \<or> isdigit c"
  using dec_digits_isdigit by (auto simp: fmt_d_def list_all_iff split: if_splits)

lemma fmt_d_no_NUL [simp]: "is_cstr (fmt_d i)"
  unfolding is_cstr_def using fmt_d_chars [of NUL i] by auto

section \<open>A number format\<close>

text \<open>
  A format of numbers on the wire: what is printed is parsed back, whatever follows it on
  the line, and printing uses neither the zero byte nor white space.
\<close>

locale number_format =
  fixes pr :: "'n \<Rightarrow> string" and parse :: "string \<Rightarrow> 'n"
  assumes parse_print: "no_digit t \<Longrightarrow> parse (pr n @ t) = n"
    and print_nonempty: "pr n \<noteq> []"
    and print_plain: "c \<in> set (pr n) \<Longrightarrow> c = CHR ''-'' \<or> isdigit c"
begin

lemma parse_line: "parse (pr n @ CR # t) = n" "parse (pr n @ SP # t) = n" "parse (pr n @ NUL # t) = n"
  by (simp_all add: parse_print no_digit_def)

lemma parse_end: "parse (pr n) = n"
  using parse_print [of "[]" n] by (simp add: no_digit_def)

lemma print_inj: "pr n = pr m \<longleftrightarrow> n = m"
  by (metis parse_end)

lemma print_no_break: "CR \<notin> set (pr n)" "LF \<notin> set (pr n)" "SP \<notin> set (pr n)" "NUL \<notin> set (pr n)"
  using print_plain by fastforce+

end

interpretation ld: number_format "\<lambda>w. fmt_d (sint w)" atoll
  by unfold_locales (simp_all add: atoll_fmt_d fmt_d_chars, simp add: fmt_d_def)

interpretation d: number_format "\<lambda>w. fmt_d (sint w)" atoi
  by unfold_locales (simp_all add: atoi_fmt_d fmt_d_chars, simp add: fmt_d_def)

section \<open>Properties\<close>

text \<open>
  What \<open>%ld\<close> prints for a decimal value, \<open>atoll\<close> reads back exactly, for all 64-bit
  values and whatever terminator follows.
\<close>

theorem decimal_roundtrip:
  "atoll (fmt_d (sint w)) = w \<and> atoll (fmt_d (sint w) @ NUL # t) = w \<and> atoll (fmt_d (sint w) @ CR # t) = w"
  by (simp add: ld.parse_end ld.parse_line)

end
