(* ===== verification/C_Double.thy ===== *)
theory C_Double
  imports Complex_Main C_Numbers "HOL-Library.Log_Nat" "HOL-Library.Code_Target_Numeral"
begin

text \<open>
  The \<open>double\<close> of C as IEEE 754 binary64 with rounding to nearest, ties to even: addition,
  subtraction, the conversions from and to \<open>int64_t\<close>, \<open>atof\<close> and \<open>printf("%lf")\<close>.
  Everything is computed exactly on integers and rounded once. The lemmas show that results
  that are representable are exact, which gives the exactness of the counters of the cache
  up to \<open>2^53\<close>.
\<close>

section \<open>Values\<close>

text \<open>
  \<open>Fin s m e\<close> is \<open>(-1)^s * m * 2^e\<close>, with \<open>m < 2^53\<close>, \<open>-1074 \<le> e \<le> 971\<close>, and
  \<open>2^52 \<le> m\<close> or \<open>e = -1074\<close>; zeros keep their sign, NaNs the sign \<open>printf\<close> shows.
\<close>

datatype double = Fin bool nat int | Inf bool | NaN bool

definition dzero :: "bool \<Rightarrow> double" where
  "dzero s = Fin s 0 (-1074)"

section \<open>Rounding\<close>

definition round_half_even :: "nat \<Rightarrow> nat \<Rightarrow> nat" where
  "round_half_even num den =
     (let q = num div den; r = num mod den
      in if den < 2 * r \<or> (2 * r = den \<and> odd q) then q + 1 else q)"

text \<open>The binary exponent of \<open>n / d\<close>: the \<open>E\<close> with \<open>2^E \<le> n / d < 2^(E+1)\<close>.\<close>

definition ratio_exp :: "nat \<Rightarrow> nat \<Rightarrow> int" where
  "ratio_exp n d =
     (let k = int (floorlog 2 n) - int (floorlog 2 d)
      in if d * 2 ^ nat k \<le> n * 2 ^ nat (- k) then k else k - 1)"

definition to_double :: "bool \<Rightarrow> nat \<Rightarrow> nat \<Rightarrow> double" where
  "to_double s n d =
     (if n = 0 then dzero s
      else
        let e = max (ratio_exp n d - 52) (-1074);
            q = round_half_even (n * 2 ^ nat (- e)) (d * 2 ^ nat e);
            (m, e) = (if q = 2 ^ 53 then (2 ^ 52, e + 1) else (q, e))
        in if 971 < e then Inf s else Fin s m e)"

section \<open>Arithmetic\<close>

definition int_to_double :: "int \<Rightarrow> double" where
  "int_to_double i = to_double (i < 0) (nat \<bar>i\<bar>) 1"

definition signed_mant :: "bool \<Rightarrow> nat \<Rightarrow> int" where
  "signed_mant s m = (if s then - int m else int m)"

fun dbl_add :: "double \<Rightarrow> double \<Rightarrow> double" where
  "dbl_add (NaN s) _ = NaN s"
| "dbl_add _ (NaN s) = NaN s"
| "dbl_add (Inf s) (Inf t) = (if s = t then Inf s else NaN True)"
| "dbl_add (Inf s) (Fin _ _ _) = Inf s"
| "dbl_add (Fin _ _ _) (Inf t) = Inf t"
| "dbl_add (Fin s m e) (Fin t n f) =
     (let g = min e f;
          i = signed_mant s m * 2 ^ nat (e - g) + signed_mant t n * 2 ^ nat (f - g)
      in if i = 0 then dzero (s \<and> t)
         else to_double (i < 0) (nat \<bar>i\<bar> * 2 ^ nat g) (2 ^ nat (- g)))"

fun dbl_flip :: "double \<Rightarrow> double" where
  "dbl_flip (Fin s m e) = Fin (\<not> s) m e"
| "dbl_flip (Inf s) = Inf (\<not> s)"
| "dbl_flip (NaN s) = NaN s"

instantiation double :: "{plus, minus}"
begin

definition plus_double :: "double \<Rightarrow> double \<Rightarrow> double" where
  "plus_double x y = dbl_add x y"

definition minus_double :: "double \<Rightarrow> double \<Rightarrow> double" where
  "minus_double x y = dbl_add x (dbl_flip y)"

instance ..

end

text \<open>The conversion to \<open>int64_t\<close> truncates; outside the range it is undefined.\<close>

fun dbl_to_int64 :: "double \<Rightarrow> int64 res" where
  "dbl_to_int64 (Fin s m e) =
     (let i = signed_mant s ((m * 2 ^ nat e) div 2 ^ nat (- e))
      in if - (2 ^ 63) \<le> i \<and> i < 2 ^ 63 then Inr (word_of_int i) else Inl BadConversion)"
| "dbl_to_int64 _ = Inl BadConversion"

section \<open>Printing\<close>

definition pad6 :: "nat \<Rightarrow> string" where
  "pad6 n = (let s = dec_digits n in replicate (6 - length s) (CHR ''0'') @ s)"

definition sign_str :: "bool \<Rightarrow> string" where
  "sign_str s = (if s then ''-'' else '''')"

fun fmt_lf :: "double \<Rightarrow> string" where
  "fmt_lf (Fin s m e) =
     (let n = round_half_even (m * 10 ^ 6 * 2 ^ nat e) (2 ^ nat (- e))
      in sign_str s @ dec_digits (n div 10 ^ 6) @ ''.'' @ pad6 (n mod 10 ^ 6))"
| "fmt_lf (Inf s) = sign_str s @ ''inf''"
| "fmt_lf (NaN s) = sign_str s @ ''nan''"

section \<open>Parsing\<close>

definition isxdigit :: "char \<Rightarrow> bool" where
  "isxdigit c \<longleftrightarrow> isdigit c \<or> to_lower c \<in> set ''abcdef''"

definition xdigit_val :: "char \<Rightarrow> nat" where
  "xdigit_val c = (if isdigit c then digit_val c else of_char (to_lower c) - 87)"

definition xdigits_nat :: "string \<Rightarrow> nat" where
  "xdigits_nat s = foldl (\<lambda>n c. 16 * n + xdigit_val c) 0 s"

text \<open>An optional exponent: the letter, a sign, at least one digit.\<close>

definition exponent_of :: "char \<Rightarrow> string \<Rightarrow> int" where
  "exponent_of letter s =
     (case s of
        [] \<Rightarrow> 0
      | c # t \<Rightarrow>
          if to_lower c \<noteq> letter then 0
          else (case t of
                  [] \<Rightarrow> 0
                | c' # u \<Rightarrow>
                    if c' = CHR ''-'' then - strtol_digits u
                    else if c' = CHR ''+'' then strtol_digits u
                    else strtol_digits t))"

text \<open>Digits, a point and digits: the two digit sequences and what follows.\<close>

definition split_fraction :: "(char \<Rightarrow> bool) \<Rightarrow> string \<Rightarrow> string \<times> string \<times> string" where
  "split_fraction p s =
     (let ip = takeWhile p s; r = dropWhile p s
      in case r of
           [] \<Rightarrow> (ip, [], [])
         | c # t \<Rightarrow> if c = CHR ''.'' then (ip, takeWhile p t, dropWhile p t) else (ip, [], r))"

definition strtod_decimal :: "bool \<Rightarrow> string \<Rightarrow> double" where
  "strtod_decimal neg s =
     (let (ip, fp, r) = split_fraction isdigit s;
          ex = exponent_of (CHR ''e'') r - int (length fp)
      in if ip = [] \<and> fp = [] then dzero False
         else to_double neg (digits_nat (ip @ fp) * 10 ^ nat ex) (10 ^ nat (- ex)))"

definition strtod_hex :: "bool \<Rightarrow> string \<Rightarrow> double" where
  "strtod_hex neg s =
     (let (ip, fp, r) = split_fraction isxdigit s;
          ex = exponent_of (CHR ''p'') r - 4 * int (length fp)
      in if ip = [] \<and> fp = [] then dzero neg
         else to_double neg (xdigits_nat (ip @ fp) * 2 ^ nat ex) (2 ^ nat (- ex)))"

definition strtod_unsigned :: "bool \<Rightarrow> string \<Rightarrow> double" where
  "strtod_unsigned neg s =
     (if map to_lower (take 3 s) = ''inf'' then Inf neg
      else if map to_lower (take 3 s) = ''nan'' then NaN neg
      else if map to_lower (take 2 s) = ''0x'' then strtod_hex neg (drop 2 s)
      else strtod_decimal neg s)"

definition atof :: "string \<Rightarrow> double" where
  "atof s =
     (case dropWhile isspace s of
        [] \<Rightarrow> dzero False
      | c # t \<Rightarrow>
          if c = CHR ''-'' then strtod_unsigned True t
          else if c = CHR ''+'' then strtod_unsigned False t
          else strtod_unsigned False (c # t))"

section \<open>Exactness\<close>

lemma powi_nat: "(2 :: real) powi e * 2 ^ nat (- e) = 2 ^ nat e"
  by (cases "0 \<le> e") (simp_all add: power_int_def flip: power_mult_distrib)

lemma powi_eq: "(2 :: real) powi e = 2 ^ nat e / 2 ^ nat (- e)"
  using powi_nat [of e] by (simp add: field_simps)

lemma powi_pos [simp]: "0 < (2 :: real) powi e"
  by simp

lemma powi_less_iff: "(2 :: real) powi a < 2 powi b \<longleftrightarrow> a < b"
  using power_int_strict_increasing [of a b "2::real"] power_int_increasing [of b a "2::real"]
  by (auto simp: not_less [symmetric])

lemma powi_le_iff: "(2 :: real) powi a \<le> 2 powi b \<longleftrightarrow> a \<le> b"
  by (simp add: not_less [symmetric] powi_less_iff)

lemma frac_le_cross: "0 < y \<Longrightarrow> 0 < d \<Longrightarrow> x / y \<le> n / d \<longleftrightarrow> x * d \<le> n * (y :: real)"
  by (simp add: field_simps)

lemma scaled_le: "0 < d \<Longrightarrow> d * 2 ^ nat k \<le> n * 2 ^ nat (- k) \<longleftrightarrow> 2 powi k \<le> real n / real d"
proof -
  assume "0 < d"
  have "d * 2 ^ nat k \<le> n * 2 ^ nat (- k) \<longleftrightarrow> real d * 2 ^ nat k \<le> real n * 2 ^ nat (- k)"
    using of_nat_le_iff [where 'a = real, of "d * 2 ^ nat k" "n * 2 ^ nat (- k)"] by simp
  also have "\<dots> \<longleftrightarrow> 2 ^ nat k / 2 ^ nat (- k) \<le> real n / real d"
    using frac_le_cross [of "2 ^ nat (- k)" "real d" "2 ^ nat k" "real n"] \<open>0 < d\<close>
    by (simp only: of_nat_0_less_iff zero_less_power zero_less_numeral simp_thms mult.commute [of "real d"])
  finally show ?thesis by (simp only: powi_eq)
qed

lemma ratio_exp_bounds:
  assumes "0 < n" and "0 < d"
  shows "2 powi ratio_exp n d \<le> real n / real d" and "real n / real d < 2 powi (ratio_exp n d + 1)"
proof -
  let ?a = "floorlog 2 n" and ?b = "floorlog 2 d"
  define k where "k = int ?a - int ?b"
  have n: "2 ^ (?a - 1) \<le> n" "n < 2 ^ ?a" and d: "2 ^ (?b - 1) \<le> d" "d < 2 ^ ?b"
    using floorlog_bounds [of n 2] floorlog_bounds [of d 2] assms by auto
  have pos: "0 < ?a" "0 < ?b" using assms by (simp_all add: floorlog_def)
  have hi: "real n / real d < 2 powi (k + 1)"
  proof -
    have "real n / real d < 2 ^ ?a / 2 ^ (?b - 1)"
      using n d assms by (intro frac_less) (auto simp: of_nat_less_numeral_power_cancel_iff numeral_power_le_of_nat_cancel_iff)
    also have "\<dots> = 2 powi (k + 1)"
    proof -
      have "k + 1 = int ?a - int (?b - 1)" using pos by (simp add: k_def)
      then show ?thesis by (simp add: power_int_diff)
    qed
    finally show ?thesis .
  qed
  have lo: "2 powi (k - 1) \<le> real n / real d"
  proof -
    have "(2::real) powi (k - 1) = 2 ^ (?a - 1) / 2 ^ ?b"
    proof -
      have "k - 1 = int (?a - 1) - int ?b" using pos by (simp add: k_def)
      then show ?thesis by (simp add: power_int_diff)
    qed
    also have "\<dots> \<le> real n / real d"
      using n d assms by (intro frac_le) (auto simp: less_imp_le of_nat_less_numeral_power_cancel_iff numeral_power_le_of_nat_cancel_iff)
    finally show ?thesis .
  qed
  show "2 powi ratio_exp n d \<le> real n / real d" and "real n / real d < 2 powi (ratio_exp n d + 1)"
    using hi lo assms(2) by (auto simp: ratio_exp_def Let_def scaled_le simp flip: k_def)
qed

lemma ratio_exp_le:
  assumes "0 < n" "0 < d" "real n / real d < 2 powi f"
  shows "ratio_exp n d < f"
  using ratio_exp_bounds(1) [OF assms(1,2)] assms(3) powi_less_iff by (meson le_less_trans)

lemma ratio_exp_unique:
  assumes "0 < d" "d * 2 ^ k \<le> n" "n < d * 2 ^ Suc k"
  shows "ratio_exp n d = int k"
proof -
  have n: "0 < n" using assms(1,2) by (metis mult_pos_pos not_gr_zero not_le zero_less_numeral zero_less_power)
  have lo: "2 powi int k \<le> real n / real d"
    using assms(1,2) by (simp add: pos_le_divide_eq mult.commute flip: of_nat_le_iff [where 'a = real])
  have "real n / real d < 2 powi (int k + 1)"
  proof -
    have "real n < real (d * 2 ^ Suc k)" using assms(3) by (simp only: of_nat_less_iff)
    then show ?thesis using assms(1) by (simp add: pos_divide_less_eq mult.commute powi_eq nat_add_distrib)
  qed
  from ratio_exp_le [OF n assms(1) this] ratio_exp_bounds(2) [OF n assms(1)] lo
  show ?thesis using powi_less_iff [of "int k" "ratio_exp n d + 1"] by linarith
qed

lemma ratio_exp_eq:
  assumes "0 < n" "0 < d" "0 < n'" "0 < d'" "real n / real d = real n' / real d'"
  shows "ratio_exp n d = ratio_exp n' d'"
proof -
  have "ratio_exp n d < ratio_exp n' d' + 1"
    using ratio_exp_le [OF assms(1,2)] ratio_exp_bounds(2) [OF assms(3,4)] unfolding assms(5) by blast
  moreover have "ratio_exp n' d' < ratio_exp n d + 1"
    using ratio_exp_le [OF assms(3,4)] ratio_exp_bounds(2) [OF assms(1,2)] unfolding assms(5) by blast
  ultimately show ?thesis by simp
qed

lemma round_exact: "0 < den \<Longrightarrow> round_half_even (q * den) den = q"
  by (simp add: round_half_even_def)

text \<open>The error of one rounding is at most one half.\<close>

lemma round_half_even_error:
  assumes "0 < den"
  shows "\<bar>real (round_half_even num den) - real num / real den\<bar> \<le> 1 / 2"
proof -
  define q r where "q = num div den" and "r = num mod den"
  have num: "num = q * den + r" "r < den" using assms by (simp_all add: q_def r_def)
  have eq: "real num / real den = real q + real r / real den"
    using assms by (simp add: num(1) field_simps)
  have r: "0 \<le> real r / real den" "real r / real den < 1" using num assms by simp_all
  show ?thesis
  proof (cases "den < 2 * r \<or> (2 * r = den \<and> odd q)")
    case True
    then have "real den \<le> 2 * real r" by auto
    then have "1 / 2 \<le> real r / real den" using assms by (simp add: field_simps)
    with True r show ?thesis by (auto simp: round_half_even_def Let_def eq simp flip: q_def r_def)
  next
    case False
    then have "2 * real r \<le> real den" by auto
    then have "real r / real den \<le> 1 / 2" using assms by (simp add: field_simps)
    with False r show ?thesis by (auto simp: round_half_even_def Let_def eq simp flip: q_def r_def)
  qed
qed

fun dval :: "double \<Rightarrow> real" where
  "dval (Fin s m e) = of_int (signed_mant s m) * 2 powi e"
| "dval _ = 0"

fun is_fin :: "double \<Rightarrow> bool" where
  "is_fin (Fin _ _ _) = True"
| "is_fin _ = False"

definition sgn_of :: "bool \<Rightarrow> real" where
  "sgn_of s = (if s then - 1 else 1)"

text \<open>A representable ratio is not changed: the mantissa is the ratio in units of the last place.\<close>

lemma to_double_exact:
  assumes "0 < n" "0 < d" and eq: "real n / real d = real m * 2 powi e"
    and m: "m < 2 ^ 53" and e: "-1074 \<le> e" "e \<le> 971"
  shows "\<exists>q f. to_double s n d = Fin s q f \<and> real q * 2 powi f = real n / real d \<and>
    f = max (ratio_exp n d - 52) (-1074)"
proof -
  define f where "f = max (ratio_exp n d - 52) (-1074)"
  define q where "q = m * 2 ^ nat (e - f)"
  have "real n / real d < 2 powi (53 + e)"
  proof -
    have "real m < 2 ^ 53" using m by (metis of_nat_less_iff of_nat_numeral of_nat_power)
    then show ?thesis unfolding eq by (simp add: power_int_add)
  qed
  then have "ratio_exp n d < 53 + e" using assms by (intro ratio_exp_le)
  then have fe: "f \<le> e" using e by (simp add: f_def)
  have q: "real q * 2 powi f = real n / real d"
  proof -
    have "(2::real) ^ nat (e - f) * 2 powi f = 2 powi e"
      using fe by (simp add: power_int_diff power_int_nonneg_exp [symmetric])
    then show ?thesis unfolding eq q_def by (simp add: mult.assoc)
  qed
  have num: "n * 2 ^ nat (- f) = q * (d * 2 ^ nat f)"
  proof -
    have "real n * 2 ^ nat (- f) = real q * (real d * 2 ^ nat f)"
      using q \<open>0 < d\<close> unfolding powi_eq by (simp add: field_simps)
    then have "real (n * 2 ^ nat (- f)) = real (q * (d * 2 ^ nat f))" by simp
    then show ?thesis by (simp only: of_nat_eq_iff)
  qed
  have "q < 2 ^ 53"
  proof -
    have "real q * 2 powi f < 2 powi (ratio_exp n d + 1)"
      unfolding q using assms by (intro ratio_exp_bounds)
    also have "\<dots> \<le> 2 powi (53 + f)" by (subst powi_le_iff) (simp add: f_def)
    also have "\<dots> = 2 ^ 53 * 2 powi f" by (simp add: power_int_add)
    finally have "real q < 2 ^ 53" by simp
    then show ?thesis by (metis of_nat_less_iff of_nat_numeral of_nat_power)
  qed
  then have cases: "(n = 0) = False" "(q = 2 ^ 53) = False" "(971 < f) = False"
    using \<open>0 < n\<close> fe e(2) by simp_all
  have rd: "round_half_even (q * (d * 2 ^ nat f)) (d * 2 ^ nat f) = q"
    using \<open>0 < d\<close> by (intro round_exact) simp
  have "to_double s n d = Fin s q f"
    unfolding to_double_def Let_def f_def [symmetric] num rd by (simp only: cases if_False prod.case)
  with q f_def show ?thesis by blast
qed

definition representable :: "nat \<Rightarrow> nat \<Rightarrow> bool" where
  "representable n d \<longleftrightarrow>
     (\<exists>m e. m < 2 ^ 53 \<and> -1074 \<le> e \<and> e \<le> 971 \<and> real n / real d = real m * 2 powi e)"

lemma to_double_repr:
  assumes "representable n d" "0 < d"
  shows "is_fin (to_double s n d)" and "dval (to_double s n d) = sgn_of s * (real n / real d)"
proof -
  have "is_fin (to_double s n d) \<and> dval (to_double s n d) = sgn_of s * (real n / real d)"
  proof (cases "n = 0")
    case True
    then show ?thesis by (simp add: to_double_def dzero_def signed_mant_def)
  next
    case False
    obtain m e where m: "m < 2 ^ 53" "-1074 \<le> e" "e \<le> 971" "real n / real d = real m * 2 powi e"
      using assms(1) by (auto simp: representable_def)
    from to_double_exact [OF _ assms(2) m(4,1,2,3), of s] False
    obtain q f where q: "to_double s n d = Fin s q f" "real q * 2 powi f = real n / real d" by auto
    then show ?thesis by (simp add: sgn_of_def signed_mant_def)
  qed
  then show "is_fin (to_double s n d)" and "dval (to_double s n d) = sgn_of s * (real n / real d)"
    by simp_all
qed

lemma to_double_cong:
  assumes "representable n d" "0 < d" "0 < d'" and eq: "real n / real d = real n' / real d'"
  shows "to_double s n d = to_double s n' d'"
proof (cases "n = 0")
  case True
  with assms have "n' = 0" by simp
  with True show ?thesis by (simp add: to_double_def)
next
  case False
  with assms have pos: "0 < n" "0 < n'" by (auto intro: Nat.gr0I)
  obtain m e where m: "m < 2 ^ 53" "-1074 \<le> e" "e \<le> 971" "real n / real d = real m * 2 powi e"
    using assms(1) by (auto simp: representable_def)
  then have m': "real n' / real d' = real m * 2 powi e" using eq by simp
  obtain q f where q: "to_double s n d = Fin s q f" "real q * 2 powi f = real n / real d"
      "f = max (ratio_exp n d - 52) (-1074)"
    using to_double_exact [OF pos(1) assms(2) m(4,1,2,3)] by metis
  obtain q' f' where q': "to_double s n' d' = Fin s q' f'" "real q' * 2 powi f' = real n' / real d'"
      "f' = max (ratio_exp n' d' - 52) (-1074)"
    using to_double_exact [OF pos(2) assms(3) m' m(1,2,3)] by metis
  have "f = f'" using ratio_exp_eq [OF pos(1) assms(2) pos(2) assms(3) eq] q(3) q'(3) by simp
  moreover have "q = q'"
  proof -
    have "real q * 2 powi f' = real q' * 2 powi f'" using q(2) q'(2) eq \<open>f = f'\<close> by simp
    then show ?thesis by simp
  qed
  ultimately show ?thesis using q q' by simp
qed

lemma representable_int:
  assumes "\<bar>i\<bar> \<le> 2 ^ 53" and "0 < d" and "real n / real d = \<bar>of_int i\<bar>"
  shows "representable n d"
proof (cases "\<bar>i\<bar> = 2 ^ 53")
  case True
  have "real_of_int \<bar>i\<bar> = 2 ^ 53" unfolding True by simp
  then have "real n / real d = 2 ^ 53" by (simp only: assms(3) of_int_abs)
  then have "real n / real d = real (2 ^ 52) * 2 powi 1" by simp
  then show ?thesis unfolding representable_def
    by (intro exI [of _ "2 ^ 52 :: nat"] exI [of _ "1 :: int"] conjI) simp_all
next
  case False
  then have "nat \<bar>i\<bar> < 2 ^ 53" using assms(1) by simp
  moreover have "\<bar>real_of_int i\<bar> = real (nat \<bar>i\<bar>) * 2 powi 0" by simp
  ultimately show ?thesis unfolding representable_def assms(3)
    by (intro exI [of _ "nat \<bar>i\<bar>"] exI [of _ "0 :: int"]) simp
qed

lemma int_to_double_exact:
  assumes "\<bar>i\<bar> \<le> 2 ^ 53"
  shows "is_fin (int_to_double i)" and "dval (int_to_double i) = of_int i"
proof -
  have r: "representable (nat \<bar>i\<bar>) 1" using assms by (intro representable_int [of i]) simp_all
  show "is_fin (int_to_double i)" using to_double_repr(1) [OF r] by (simp add: int_to_double_def)
  show "dval (int_to_double i) = of_int i"
    using to_double_repr(2) [OF r] by (simp add: int_to_double_def sgn_of_def)
qed

lemma dbl_add_fin:
  "\<exists>i g. of_int i * 2 powi g = dval (Fin s m e) + dval (Fin t n f) \<and>
     dbl_add (Fin s m e) (Fin t n f) =
       (if i = 0 then dzero (s \<and> t)
        else to_double (i < 0) (nat \<bar>i\<bar> * 2 ^ nat g) (2 ^ nat (- g)))"
proof -
  define g where "g = min e f"
  define i where "i = signed_mant s m * 2 ^ nat (e - g) + signed_mant t n * 2 ^ nat (f - g)"
  have "(2::real) ^ nat (e - g) * 2 powi g = 2 powi e" "(2::real) ^ nat (f - g) * 2 powi g = 2 powi f"
    by (simp_all add: g_def power_int_diff power_int_nonneg_exp [symmetric])
  then have "of_int i * 2 powi g = dval (Fin s m e) + dval (Fin t n f)"
    by (simp add: i_def distrib_right mult.assoc)
  moreover have "dbl_add (Fin s m e) (Fin t n f) =
       (if i = 0 then dzero (s \<and> t)
        else to_double (i < 0) (nat \<bar>i\<bar> * 2 ^ nat g) (2 ^ nat (- g)))"
    by (simp add: Let_def flip: g_def i_def)
  ultimately show ?thesis by blast
qed

lemma dbl_add_int:
  assumes "is_fin x" "is_fin y" "dval x + dval y = of_int k" "\<bar>k\<bar> \<le> 2 ^ 53"
  shows "is_fin (x + y)" and "dval (x + y) = of_int k"
proof -
  obtain s m e t n f where xy: "x = Fin s m e" "y = Fin t n f"
    using assms(1,2) by (cases x; cases y) auto
  obtain i g where i: "of_int i * 2 powi g = dval x + dval y"
    and add: "x + y = (if i = 0 then dzero (s \<and> t)
        else to_double (i < 0) (nat \<bar>i\<bar> * 2 ^ nat g) (2 ^ nat (- g)))"
    unfolding xy plus_double_def using dbl_add_fin by blast
  have "is_fin (x + y) \<and> dval (x + y) = of_int k"
  proof (cases "i = 0")
    case True
    with add i assms(3) show ?thesis by (simp add: dzero_def signed_mant_def)
  next
    case False
    have ratio: "real (nat \<bar>i\<bar> * 2 ^ nat g) / real (2 ^ nat (- g)) = \<bar>of_int k\<bar>"
    proof -
      have "real (nat \<bar>i\<bar> * 2 ^ nat g) / real (2 ^ nat (- g)) = \<bar>of_int i\<bar> * 2 powi g"
        by (simp add: powi_eq)
      also have "\<dots> = \<bar>of_int i * 2 powi g\<bar>" by (simp add: abs_mult)
      finally show ?thesis using i assms(3) by simp
    qed
    have r: "representable (nat \<bar>i\<bar> * 2 ^ nat g) (2 ^ nat (- g))"
      using ratio assms(4) by (intro representable_int [of k]) simp_all
    have sg: "i < 0 \<longleftrightarrow> k < 0"
    proof -
      have "real_of_int i * 2 powi g < 0 \<longleftrightarrow> real_of_int k < 0" using i assms(3) by simp
      moreover have "\<not> (2 :: real) powi g < 0" by (simp add: not_less)
      ultimately show ?thesis by (simp add: mult_less_0_iff)
    qed
    from to_double_repr [OF r, of "i < 0"] False add ratio sg show ?thesis
      by (simp add: sgn_of_def)
  qed
  then show "is_fin (x + y)" and "dval (x + y) = of_int k" by simp_all
qed

lemma dbl_flip_val: "is_fin x \<Longrightarrow> is_fin (dbl_flip x) \<and> dval (dbl_flip x) = - dval x"
  by (cases x) (auto simp: signed_mant_def)

lemma dbl_sub_int:
  assumes "is_fin x" "is_fin y" "dval x - dval y = of_int k" "\<bar>k\<bar> \<le> 2 ^ 53"
  shows "is_fin (x - y)" and "dval (x - y) = of_int k"
  using dbl_add_int [of x "dbl_flip y" k] dbl_flip_val [of y] assms
  by (simp_all add: plus_double_def minus_double_def)

lemma dbl_to_int64_int:
  assumes "is_fin x" "dval x = of_int k" "- (2 ^ 63) \<le> k" "k < 2 ^ 63"
  shows "dbl_to_int64 x = Inr (word_of_int k)"
proof -
  obtain s m e where x: "x = Fin s m e" using assms(1) by (cases x) auto
  have "\<bar>dval x\<bar> = real m * 2 powi e" by (simp add: x signed_mant_def abs_mult)
  then have "real m * 2 powi e = \<bar>of_int k\<bar>" using assms(2) by simp
  then have "real m * 2 ^ nat e = \<bar>of_int k\<bar> * 2 ^ nat (- e)"
    unfolding powi_eq by (simp add: field_simps)
  then have "real (m * 2 ^ nat e) = real (nat \<bar>k\<bar> * 2 ^ nat (- e))" by simp
  then have "m * 2 ^ nat e = nat \<bar>k\<bar> * 2 ^ nat (- e)" by (simp only: of_nat_eq_iff)
  then have div: "(m * 2 ^ nat e) div 2 ^ nat (- e) = nat \<bar>k\<bar>" by simp
  have "signed_mant s (nat \<bar>k\<bar>) = k"
  proof (cases "k = 0")
    case False
    have nn: "0 \<le> real m * 2 powi e" by simp
    have "real_of_int k = (if s then - (real m * 2 powi e) else real m * 2 powi e)"
      using assms(2) x by (cases s) (auto simp: signed_mant_def)
    then have "s \<Longrightarrow> real_of_int k \<le> 0" "\<not> s \<Longrightarrow> 0 \<le> real_of_int k" using nn by simp_all
    then have "s \<longleftrightarrow> k < 0" using False by (cases s) simp_all
    then show ?thesis by (simp add: signed_mant_def)
  qed (simp add: signed_mant_def)
  with div assms(3,4) show ?thesis by (simp add: x)
qed

section \<open>The error of rounding\<close>

lemma to_double_error:
  assumes "0 < n" "0 < d" and lo: "-1022 \<le> ratio_exp n d" and hi: "ratio_exp n d < 1023"
  shows "is_fin (to_double False n d)"
    and "\<bar>dval (to_double False n d) - real n / real d\<bar> \<le> 2 powi (ratio_exp n d - 53)"
proof -
  define e where "e = ratio_exp n d - 52"
  define q where "q = round_half_even (n * 2 ^ nat (- e)) (d * 2 ^ nat e)"
  have emax: "max (ratio_exp n d - 52) (-1074) = e" using lo by (simp add: e_def)
  define m f where "m = (if q = 2 ^ 53 then 2 ^ 52 else q)" and "f = (if q = 2 ^ 53 then e + 1 else e)"
  have "(n = 0) = False" "(971 < f) = False" using assms by (simp_all add: f_def e_def)
  moreover have "(if q = 2 ^ 53 then (2 ^ 52, e + 1) else (q, e)) = (m, f)" by (simp add: m_def f_def)
  ultimately have td: "to_double False n d = Fin False m f"
    unfolding to_double_def Let_def emax q_def [symmetric] by (simp only: if_False prod.case)
  then show "is_fin (to_double False n d)" by simp
  have "real m * 2 powi f = real q * 2 powi e"
    by (simp add: m_def f_def power_int_add)
  then have dv: "dval (to_double False n d) = real q * 2 powi e" by (simp add: td signed_mant_def)
  have scale: "real (n * 2 ^ nat (- e)) / real (d * 2 ^ nat e) * 2 powi e = real n / real d"
    using \<open>0 < d\<close> unfolding powi_eq by simp
  have "dval (to_double False n d) - real n / real d
      = (real q - real (n * 2 ^ nat (- e)) / real (d * 2 ^ nat e)) * 2 powi e"
    unfolding dv left_diff_distrib scale ..
  then have "\<bar>dval (to_double False n d) - real n / real d\<bar>
      = \<bar>real q - real (n * 2 ^ nat (- e)) / real (d * 2 ^ nat e)\<bar> * 2 powi e"
    by (simp add: abs_mult)
  also have "\<dots> \<le> 1 / 2 * 2 powi e"
    unfolding q_def using \<open>0 < d\<close> by (intro mult_right_mono round_half_even_error) simp_all
  also have "\<dots> = 2 powi (ratio_exp n d - 53)"
  proof -
    have "ratio_exp n d - 53 = e - 1" by (simp add: e_def)
    then show ?thesis by (simp add: power_int_diff)
  qed
  finally show "\<bar>dval (to_double False n d) - real n / real d\<bar> \<le> 2 powi (ratio_exp n d - 53)" .
qed

section \<open>Printing and parsing integral values\<close>

lemma digits_nat_append:
  "digits_nat (s @ t) = digits_nat s * 10 ^ length t + digits_nat t"
proof (induction t rule: rev_induct)
  case (snoc c t)
  have "digits_nat (s @ t @ [c]) = 10 * digits_nat (s @ t) + digit_val c"
    using digits_nat_snoc [of "s @ t" c] by simp
  with snoc show ?case by (simp add: algebra_simps)
qed (simp add: digits_nat_def)

lemma pad6_0: "pad6 0 = ''000000''"
  by code_simp

lemma int_to_double_Fin:
  assumes "\<bar>i\<bar> \<le> 2 ^ 53"
  obtains m e where "int_to_double i = Fin (i < 0) m e" "m * 2 ^ nat e = nat \<bar>i\<bar> * 2 ^ nat (- e)"
proof (cases "i = 0")
  case True
  then show ?thesis using that [of 0 "-1074"] by (simp add: int_to_double_def to_double_def dzero_def)
next
  case False
  have r: "representable (nat \<bar>i\<bar>) 1" using assms by (intro representable_int [of i]) simp_all
  then obtain m e where "m < 2 ^ 53" "-1074 \<le> e" "e \<le> 971"
      "real (nat \<bar>i\<bar>) / real 1 = real m * 2 powi e"
    unfolding representable_def by blast
  then obtain q f where "to_double (i < 0) (nat \<bar>i\<bar>) 1 = Fin (i < 0) q f"
    using to_double_exact [of "nat \<bar>i\<bar>" 1 m e "i < 0"] False by (metis zero_less_nat_eq zero_less_abs_iff zero_less_one)
  moreover from this have "of_int (signed_mant (i < 0) q) * 2 powi f = real_of_int i"
    using int_to_double_exact(2) [OF assms] by (simp add: int_to_double_def)
  then have "real q * 2 powi f = \<bar>real_of_int i\<bar>"
    by (auto simp: signed_mant_def abs_if split: if_splits)
  then have "real q * 2 ^ nat f = \<bar>of_int i\<bar> * 2 ^ nat (- f)"
    unfolding powi_eq by (simp add: field_simps)
  then have "real (q * 2 ^ nat f) = real (nat \<bar>i\<bar> * 2 ^ nat (- f))" by simp
  then have "q * 2 ^ nat f = nat \<bar>i\<bar> * 2 ^ nat (- f)" by (simp only: of_nat_eq_iff)
  ultimately show ?thesis using that by (simp add: int_to_double_def)
qed

lemma fmt_lf_int:
  assumes "\<bar>i\<bar> \<le> 2 ^ 53"
  shows "fmt_lf (int_to_double i) = fmt_d i @ ''.000000''"
proof -
  obtain m e where me: "int_to_double i = Fin (i < 0) m e" "m * 2 ^ nat e = nat \<bar>i\<bar> * 2 ^ nat (- e)"
    using int_to_double_Fin [OF assms] by metis
  have "m * 10 ^ 6 * 2 ^ nat e = (nat \<bar>i\<bar> * 10 ^ 6) * 2 ^ nat (- e)"
    using me(2) by (metis mult.assoc mult.commute)
  then have "round_half_even (m * 10 ^ 6 * 2 ^ nat e) (2 ^ nat (- e)) = nat \<bar>i\<bar> * 10 ^ 6"
    by (simp only: round_exact zero_less_power zero_less_numeral)
  then show ?thesis
    unfolding me(1) fmt_lf.simps Let_def
    by (simp add: pad6_0 fmt_d_def sign_str_def abs_if)
qed

lemma to_lower_digit [simp]: "isdigit c \<Longrightarrow> to_lower c = c"
  by (simp add: to_lower_def isdigit_def)

lemma to_lower_NUL [simp]: "to_lower NUL = NUL" "to_lower CR = CR" "to_lower (CHR ''.'') = CHR ''.''"
  by (simp_all add: to_lower_def)

lemma dropWhile_no_digit: "list_all isdigit s \<Longrightarrow> no_digit t \<Longrightarrow> dropWhile isdigit (s @ t) = t"
  by (induction s) (auto simp: no_digit_def split: list.splits)

lemma split_fraction_plain:
  assumes "list_all isdigit ip" "list_all isdigit fp" "no_digit t"
  shows "split_fraction isdigit (ip @ CHR ''.'' # fp @ t) = (ip, fp, t)"
proof -
  have "no_digit (CHR ''.'' # fp @ t)" by (simp add: no_digit_def)
  with assms show ?thesis
    by (simp add: split_fraction_def takeWhile_no_digit dropWhile_no_digit)
qed

text \<open>Text after a real number that is not read as part of it.\<close>

definition ends_real :: "string \<Rightarrow> bool" where
  "ends_real t \<longleftrightarrow> (case t of [] \<Rightarrow> True | c # _ \<Rightarrow> c = NUL \<or> c = CR \<or> c = SP)"

lemma ends_real_no_digit: "ends_real t \<Longrightarrow> no_digit t"
  by (auto simp: ends_real_def no_digit_def split: list.splits)

lemma ends_real_exponent: "ends_real t \<Longrightarrow> exponent_of (CHR ''e'') t = 0"
  by (auto simp: ends_real_def exponent_of_def to_lower_def split: list.splits)

lemma strtod_unsigned_digits:
  assumes "s = c # c' # t" "isdigit c" "isdigit c' \<or> c' = CHR ''.''"
  shows "strtod_unsigned neg s = strtod_decimal neg s"
proof -
  have "c \<noteq> CHR ''i''" "c \<noteq> CHR ''n''" "c' \<noteq> CHR ''x''" "to_lower c' = c'"
    using assms(2,3) by (auto simp: isdigit_def to_lower_def)
  with assms show ?thesis by (simp add: strtod_unsigned_def)
qed

lemma atof_fmt_lf_int:
  assumes i: "\<bar>i\<bar> \<le> 2 ^ 53" and t: "ends_real t"
  shows "atof (fmt_lf (int_to_double i) @ t) = int_to_double i"
proof -
  let ?z = "''000000''" and ?ds = "dec_digits (nat \<bar>i\<bar>)"
  let ?body = "?ds @ CHR ''.'' # ?z @ t"
  have z: "list_all isdigit ?z" "digits_nat ?z = 0" by code_simp+
  have dec: "strtod_decimal neg ?body = to_double neg (nat \<bar>i\<bar>) 1" for neg
  proof -
    have r: "representable (nat \<bar>i\<bar>) 1" using i by (intro representable_int [of i]) simp_all
    have "digits_nat (?ds @ ?z) = nat \<bar>i\<bar> * 10 ^ 6"
      using z(2) by (simp only: digits_nat_append digits_nat_dec_digits) simp
    then have "strtod_decimal neg ?body = to_double neg (nat \<bar>i\<bar> * 10 ^ 6) (10 ^ 6)"
      using split_fraction_plain [OF dec_digits_isdigit z(1) ends_real_no_digit [OF t], of "nat \<bar>i\<bar>"]
        ends_real_exponent [OF t]
      by (simp add: strtod_decimal_def del: append.simps)
    also have "\<dots> = to_double neg (nat \<bar>i\<bar>) 1"
      by (rule to_double_cong [OF r, symmetric]) simp_all
    finally show ?thesis .
  qed
  obtain c s where cs: "?ds = c # s" "isdigit c" by (rule dec_digits_Cons)
  have uns: "strtod_unsigned neg ?body = to_double neg (nat \<bar>i\<bar>) 1" for neg
  proof (cases s)
    case Nil
    then show ?thesis using strtod_unsigned_digits [of ?body c "CHR ''.''"] cs dec by simp
  next
    case (Cons c' s')
    then have "isdigit c'" using cs dec_digits_isdigit [of "nat \<bar>i\<bar>"] by simp
    then show ?thesis using strtod_unsigned_digits [of ?body c c'] Cons cs dec by simp
  qed
  have "atof (fmt_d i @ ''.000000'' @ t) = to_double (i < 0) (nat \<bar>i\<bar>) 1"
  proof (cases "i < 0")
    case True
    then show ?thesis using uns [of True] by (simp add: atof_def fmt_d_def)
  next
    case False
    then show ?thesis using uns [of False] cs by (simp add: atof_def fmt_d_def)
  qed
  then show ?thesis using fmt_lf_int [OF i] by (simp add: int_to_double_def)
qed

lemma split_fraction_digits:
  assumes "list_all isdigit ip" and "no_digit t" and "\<forall>r. t \<noteq> CHR ''.'' # r"
  shows "split_fraction isdigit (ip @ t) = (ip, [], t)"
proof -
  have tw: "takeWhile isdigit (ip @ t) = ip" "dropWhile isdigit (ip @ t) = t"
    using assms(1,2) by (simp_all only: takeWhile_no_digit dropWhile_no_digit)
  then show ?thesis using assms(3) unfolding split_fraction_def Let_def tw by (cases t) simp_all
qed

lemma atof_fmt_d:
  assumes i: "\<bar>i\<bar> \<le> 2 ^ 53" and t: "ends_real t"
  shows "atof (fmt_d i @ t) = int_to_double i"
proof -
  let ?ds = "dec_digits (nat \<bar>i\<bar>)"
  have "\<forall>r. t \<noteq> CHR ''.'' # r" using t by (auto simp: ends_real_def)
  with split_fraction_digits [OF dec_digits_isdigit ends_real_no_digit [OF t]] ends_real_exponent [OF t]
  have dec: "strtod_decimal neg (?ds @ t) = to_double neg (nat \<bar>i\<bar>) 1" for neg
    by (simp add: strtod_decimal_def)
  obtain c s where cs: "?ds = c # s" "isdigit c" by (rule dec_digits_Cons)
  define S where "S = c # s @ t"
  have c: "map to_lower (take 3 (c # s @ t)) \<noteq> ''inf''" "map to_lower (take 3 (c # s @ t)) \<noteq> ''nan''"
    using cs(2) by (auto simp: isdigit_def)
  have "map to_lower (take 2 (c # s @ t)) \<noteq> ''0x''"
  proof (cases "s @ t")
    case (Cons c' r)
    have "c' \<noteq> CHR ''x'' \<and> to_lower c' \<noteq> CHR ''x''"
    proof (cases s)
      case Nil
      with Cons t show ?thesis by (auto simp: ends_real_def to_lower_def)
    next
      case (Cons d s')
      with \<open>s @ t = c' # r\<close> cs dec_digits_isdigit [of "nat \<bar>i\<bar>"] have "isdigit c'" by simp
      then show ?thesis by (auto simp: isdigit_def)
    qed
    with Cons show ?thesis by simp
  qed simp
  with c have "strtod_unsigned neg S = strtod_decimal neg S" for neg
    unfolding S_def [symmetric] by (simp add: strtod_unsigned_def)
  then have uns: "strtod_unsigned neg (?ds @ t) = to_double neg (nat \<bar>i\<bar>) 1" for neg
    using dec [of neg] by (simp add: S_def cs(1))
  show ?thesis
  proof (cases "i < 0")
    case True
    then show ?thesis using uns [of True] by (simp add: atof_def fmt_d_def int_to_double_def)
  next
    case False
    then show ?thesis using uns [of False] cs by (simp add: atof_def fmt_d_def int_to_double_def)
  qed
qed

section \<open>Properties\<close>

text \<open>
  The conversion of a ratio to \<open>double\<close>, behind \<open>atof\<close> and every arithmetic result, is
  correctly rounded: in the normal range the error is at most half a unit in the last place.
\<close>

theorem to_double_nearest:
  assumes "0 < n" and "0 < d" and "-1022 \<le> ratio_exp n d" and "ratio_exp n d < 1023"
  shows "is_fin (to_double False n d) \<and>
    \<bar>dval (to_double False n d) - real n / real d\<bar> \<le> 2 powi (ratio_exp n d - 53) \<and>
    2 powi ratio_exp n d \<le> real n / real d \<and> real n / real d < 2 powi (ratio_exp n d + 1)"
  using to_double_error [OF assms] ratio_exp_bounds [OF assms(1,2)] by blast

theorem to_double_nearest_witness:
  "\<bar>dval (to_double False 1 10) - 1 / 10\<bar> \<le> 2 powi (- 57)"
proof -
  have "ratio_exp 1 10 = - 4" by code_simp
  with to_double_nearest [of 1 10] show ?thesis by simp
qed

text \<open>
  Integral values up to \<open>2^53\<close> survive the wire: printed with \<open>%lf\<close> and read back with
  \<open>atof\<close>, before a terminator of the protocol, they are the same \<open>double\<close>.
\<close>

theorem integral_real_roundtrip:
  assumes "\<bar>i\<bar> \<le> 2 ^ 53" and "ends_real t"
  shows "atof (fmt_lf (int_to_double i) @ t) = int_to_double i"
  using assms by (rule atof_fmt_lf_int)

theorem integral_real_roundtrip_witness:
  "atof (fmt_lf (int_to_double (- 42)) @ [CR, LF]) = int_to_double (- 42)"
  using integral_real_roundtrip [of "- 42" "[CR, LF]"] by (simp add: ends_real_def)

text \<open>
  Other values do not survive it: only six decimals are printed.
\<close>

theorem real_roundtrip_loses:
  "fmt_lf (atof ''5.999874545'') = ''5.999875'' \<and>
   atof (fmt_lf (atof ''5.999874545'')) \<noteq> atof ''5.999874545''"
proof -
  have "fmt_lf (atof ''5.999874545'') = ''5.999875''" by code_simp
  moreover have "atof ''5.999874545'' = Fin False 6755258191282931 (- 50)" by code_simp
  moreover have "atof ''5.999875'' = Fin False 6755258703567389 (- 50)" by code_simp
  ultimately show ?thesis by simp
qed

end
