(* ===== verification/Hash_Table.thy ===== *)
theory Hash_Table
  imports Fnv C_Double
begin

text \<open>
  The cache table of hash_table.c: a fixed array of buckets, each empty or holding one
  entry, addressed by the hash of the key. The lemmas show the invariant of the table, that
  every operation refines a map from buckets to entries, and the arithmetic of the counters.
\<close>

section \<open>Data\<close>

type_synonym cache_value_type = "8 word"

definition CACHE_VALUE_DECIMAL :: cache_value_type where "CACHE_VALUE_DECIMAL = 0"
definition CACHE_VALUE_REAL :: cache_value_type where "CACHE_VALUE_REAL = 1"
definition CACHE_VALUE_STRING :: cache_value_type where "CACHE_VALUE_STRING = 2"

text \<open>
  What the pointer \<open>value\<close> designates: nothing, a freed block, or an owned block holding a
  value. The key is the string its pointer designates when the entry is written.
\<close>

datatype heap_value = VNull | VFreed | VDecimal int64 | VReal double | VString string

record cache_value =
  cv_key :: string
  cv_type :: cache_value_type
  cv_value :: heap_value
  cv_length :: size_t

record hash_table =
  ht_table :: "cache_value option list"
  ht_count :: size_t
  ht_size :: size_t

section \<open>Operations\<close>

definition hash_table_create :: "size_t \<Rightarrow> hash_table" where
  "hash_table_create sz = \<lparr>ht_table = replicate (unat sz) None, ht_count = 0, ht_size = sz\<rparr>"

text \<open>\<open>free(p)\<close> of a value pointer: the number of blocks released.\<close>

fun free_value :: "heap_value \<Rightarrow> nat res" where
  "free_value VNull = Inr 0"
| "free_value VFreed = Inl DanglingAccess"
| "free_value _ = Inr 1"

fun destroy_cells :: "cache_value option list \<Rightarrow> nat res" where
  "destroy_cells [] = Inr 0"
| "destroy_cells (None # cells) = destroy_cells cells"
| "destroy_cells (Some cv # cells) =
     bind_res (free_value (cv_value cv)) (\<lambda>n. map_res (\<lambda>m. n + 1 + m) (destroy_cells cells))"

text \<open>The destructor: the number of blocks it releases.\<close>

definition hash_table_destroy :: "hash_table \<Rightarrow> nat res" where
  "hash_table_destroy t = map_res (\<lambda>n. n + 2) (destroy_cells (take (unat (ht_size t)) (ht_table t)))"

text \<open>\<open>int64_t index = fnv1a(key) % table->size\<close>, and its use as an array index.\<close>

definition hash_index :: "hash_table \<Rightarrow> string \<Rightarrow> nat res" where
  "hash_index t key =
     (if ht_size t = 0 then Inl DivisionByZero
      else let index = fnv1a key mod ht_size t
           in if sint index < 0 \<or> length (ht_table t) \<le> unat index then Inl OutOfBounds
              else Inr (unat index))"

text \<open>The value stored by \<open>hash_table_set\<close>; an unknown type stores none and leaves the old pointer.\<close>

definition store_value ::
    "cache_value_type \<Rightarrow> heap_value \<Rightarrow> size_t \<Rightarrow> heap_value \<Rightarrow> heap_value res" where
  "store_value type value sz old =
     (if type = CACHE_VALUE_DECIMAL then
        (case value of VDecimal d \<Rightarrow> Inr (VDecimal d) | _ \<Rightarrow> Inl TypeConfusion)
      else if type = CACHE_VALUE_REAL then
        (case value of VReal r \<Rightarrow> Inr (VReal r) | _ \<Rightarrow> Inl TypeConfusion)
      else if type = CACHE_VALUE_STRING then
        (case value of
           VString s \<Rightarrow> if unat sz \<le> length s then Inr (VString (take (unat sz) s)) else Inl OutOfBounds
         | _ \<Rightarrow> Inl TypeConfusion)
      else Inr old)"

definition hash_table_set ::
    "hash_table \<Rightarrow> string \<Rightarrow> cache_value_type \<Rightarrow> heap_value \<Rightarrow> size_t \<Rightarrow> (hash_table \<times> bool) res" where
  "hash_table_set t key type value sz =
     bind_res (hash_index t key) (\<lambda>index.
     let (old, count) =
           (case ht_table t ! index of
              None \<Rightarrow> (VNull, ht_count t + 1)
            | Some cv \<Rightarrow> (cv_value cv, ht_count t))
     in bind_res (free_value old) (\<lambda>_.
        let old = (if old = VNull then VNull else VFreed)
        in map_res (\<lambda>v.
             (t\<lparr>ht_table := (ht_table t)[index :=
                  Some \<lparr>cv_key = key, cv_type = type, cv_value = v, cv_length = sz\<rparr>],
                ht_count := count\<rparr>, True))
             (store_value type value sz old)))"

definition hash_table_get :: "hash_table \<Rightarrow> string \<Rightarrow> cache_value option res" where
  "hash_table_get t key = map_res (\<lambda>index. ht_table t ! index) (hash_index t key)"

text \<open>Reading a value of the wrong kind through the pointer.\<close>

fun bad_read :: "heap_value \<Rightarrow> fault" where
  "bad_read VNull = NullDeref"
| "bad_read VFreed = DanglingAccess"
| "bad_read _ = TypeConfusion"

text \<open>
  The update shared by \<open>hash_table_inc\<close> and \<open>hash_table_dec\<close>, whose bodies differ in the
  operator only: for a decimal, \<open>*val + offset\<close> is computed in \<open>double\<close> and converted back.
  \<open>None\<close> is the \<open>NULL\<close> result.
\<close>

definition adjust_value ::
    "(double \<Rightarrow> double \<Rightarrow> double) \<Rightarrow> cache_value \<Rightarrow> double \<Rightarrow> cache_value option res" where
  "adjust_value f cv offset =
     (if cv_type cv = CACHE_VALUE_STRING then Inr None
      else if cv_type cv = CACHE_VALUE_DECIMAL then
        (case cv_value cv of
           VDecimal d \<Rightarrow>
             map_res (\<lambda>d. Some (cv\<lparr>cv_value := VDecimal d\<rparr>))
               (dbl_to_int64 (f (int_to_double (sint d)) offset))
         | v \<Rightarrow> Inl (bad_read v))
      else if cv_type cv = CACHE_VALUE_REAL then
        (case cv_value cv of
           VReal r \<Rightarrow> Inr (Some (cv\<lparr>cv_value := VReal (f r offset)\<rparr>))
         | v \<Rightarrow> Inl (bad_read v))
      else Inr (Some cv))"

definition hash_table_adjust ::
    "(double \<Rightarrow> double \<Rightarrow> double) \<Rightarrow> hash_table \<Rightarrow> string \<Rightarrow> double \<Rightarrow>
      (hash_table \<times> cache_value option) res" where
  "hash_table_adjust f t key offset =
     bind_res (hash_index t key) (\<lambda>index.
       case ht_table t ! index of
         None \<Rightarrow> Inr (t, None)
       | Some cv \<Rightarrow>
           map_res (\<lambda>r. case r of
               None \<Rightarrow> (t, None)
             | Some cv' \<Rightarrow> (t\<lparr>ht_table := (ht_table t)[index := Some cv']\<rparr>, Some cv'))
             (adjust_value f cv offset))"

definition hash_table_inc ::
    "hash_table \<Rightarrow> string \<Rightarrow> double \<Rightarrow> (hash_table \<times> cache_value option) res" where
  "hash_table_inc t key offset = hash_table_adjust (+) t key offset"

definition hash_table_dec ::
    "hash_table \<Rightarrow> string \<Rightarrow> double \<Rightarrow> (hash_table \<times> cache_value option) res" where
  "hash_table_dec t key offset = hash_table_adjust (-) t key offset"

definition hash_table_del :: "hash_table \<Rightarrow> string \<Rightarrow> (hash_table \<times> bool) res" where
  "hash_table_del t key =
     bind_res (hash_index t key) (\<lambda>index.
       case ht_table t ! index of
         None \<Rightarrow> Inr (t, False)
       | Some cv \<Rightarrow>
           map_res (\<lambda>_. (t\<lparr>ht_table := (ht_table t)[index := None], ht_count := ht_count t - 1\<rparr>, True))
             (free_value (cv_value cv)))"

section \<open>Invariant and abstraction\<close>

text \<open>An entry is well typed when its type names what its value pointer designates.\<close>

fun typed_value :: "cache_value_type \<Rightarrow> size_t \<Rightarrow> heap_value \<Rightarrow> bool" where
  "typed_value ty len (VDecimal _) \<longleftrightarrow> ty = CACHE_VALUE_DECIMAL"
| "typed_value ty len (VReal _) \<longleftrightarrow> ty = CACHE_VALUE_REAL"
| "typed_value ty len (VString s) \<longleftrightarrow> ty = CACHE_VALUE_STRING \<and> length s = unat len"
| "typed_value ty len _ \<longleftrightarrow> False"

definition entry_ok :: "cache_value \<Rightarrow> bool" where
  "entry_ok cv \<longleftrightarrow> typed_value (cv_type cv) (cv_length cv) (cv_value cv)"

definition ht_inv :: "hash_table \<Rightarrow> bool" where
  "ht_inv t \<longleftrightarrow>
     0 < ht_size t \<and> unat (ht_size t) < 2 ^ 63 \<and> length (ht_table t) = unat (ht_size t) \<and>
     (\<forall>cv. Some cv \<in> set (ht_table t) \<longrightarrow> entry_ok cv) \<and>
     unat (ht_count t) = length (filter (\<lambda>c. c \<noteq> None) (ht_table t))"

definition bucket :: "hash_table \<Rightarrow> string \<Rightarrow> nat" where
  "bucket t key = unat (fnv1a key mod ht_size t)"

text \<open>The table as a map from bucket numbers to entries.\<close>

definition entries :: "hash_table \<Rightarrow> nat \<Rightarrow> cache_value option" where
  "entries t b = (if b < length (ht_table t) then ht_table t ! b else None)"

lemma ht_invD:
  assumes "ht_inv t"
  shows "0 < ht_size t" "length (ht_table t) = unat (ht_size t)"
    "\<And>cv. Some cv \<in> set (ht_table t) \<Longrightarrow> entry_ok cv"
    "unat (ht_count t) = length (filter (\<lambda>c. c \<noteq> None) (ht_table t))"
    "unat (ht_size t) < 2 ^ 63"
  using assms by (simp_all add: ht_inv_def)

lemma bucket_bound: "ht_inv t \<Longrightarrow> bucket t key < length (ht_table t)"
  using word_less_nat_alt [THEN iffD1, OF word_mod_less_divisor [of "ht_size t" "fnv1a key"]]
  by (simp add: ht_inv_def bucket_def)

lemma hash_index_ok:
  assumes "ht_inv t"
  shows "hash_index t key = Inr (bucket t key)"
proof -
  let ?i = "fnv1a key mod ht_size t"
  have lt: "unat ?i < unat (ht_size t)" using bucket_bound [OF assms] ht_invD(2) [OF assms]
    by (simp add: bucket_def)
  moreover have "0 \<le> sint ?i"
    using lt ht_invD(5) [OF assms] by (simp add: sint_small64)
  ultimately show ?thesis
    using ht_invD(1,2) [OF assms] by (auto simp: hash_index_def bucket_def Let_def)
qed

section \<open>The operations refine a map\<close>

lemma ht_inv_update:
  assumes "ht_inv t" and "i < length (ht_table t)" and "\<And>cv. c = Some cv \<Longrightarrow> entry_ok cv"
    and "unat n + (if ht_table t ! i \<noteq> None then 1 else 0) = unat (ht_count t) + (if c \<noteq> None then 1 else 0)"
  defines "t' \<equiv> t\<lparr>ht_table := (ht_table t)[i := c], ht_count := n\<rparr>"
  shows "ht_inv t'" and "entries t' = (entries t)(i := c)" and "bucket t' = bucket t"
proof -
  have "unat n = length (filter (\<lambda>c. c \<noteq> None) ((ht_table t)[i := c]))"
    using length_filter_update [OF assms(2), of "\<lambda>c. c \<noteq> None" c] assms(4) ht_invD(4) [OF assms(1)]
    by simp
  moreover have "entry_ok cv" if "Some cv \<in> set ((ht_table t)[i := c])" for cv
    using set_update_subset_insert [of "ht_table t" i c] that assms(3) ht_invD(3) [OF assms(1)]
    by (auto dest: subsetD)
  ultimately show "ht_inv t'" using ht_invD(1,2,5) [OF assms(1)]
    by (simp add: ht_inv_def t'_def)
  show "entries t' = (entries t)(i := c)"
    using assms(2) by (auto simp: entries_def t'_def fun_eq_iff)
  show "bucket t' = bucket t" by (simp add: bucket_def t'_def fun_eq_iff)
qed

lemma ht_count_room:
  assumes "ht_inv t" and "i < length (ht_table t)" and "ht_table t ! i = None"
  shows "unat (ht_count t + 1) = Suc (unat (ht_count t))"
proof -
  have "length (filter (\<lambda>c. c \<noteq> None) (ht_table t)) < length (ht_table t)"
    using assms(2,3) by (intro length_filter_less [of None]) (metis nth_mem, simp)
  then have "ht_count t < ht_size t"
    using ht_invD(2,4) [OF assms(1)] by (simp add: word_less_nat_alt)
  then show ?thesis by (rule unat_Suc_less)
qed

lemma ht_count_pos:
  assumes "ht_inv t" and "i < length (ht_table t)" and "ht_table t ! i \<noteq> None"
  shows "unat (ht_count t - 1) + 1 = unat (ht_count t)"
proof -
  have "ht_table t ! i \<in> set (filter (\<lambda>c. c \<noteq> None) (ht_table t))" using assms(2,3) by simp
  then have "0 < unat (ht_count t)"
    unfolding ht_invD(4) [OF assms(1)] by (metis length_pos_if_in_set)
  then have "0 < ht_count t" by (simp add: word_less_nat_alt)
  with \<open>0 < unat (ht_count t)\<close> show ?thesis by (simp add: unat_dec)
qed

lemma free_entry: "entry_ok cv \<Longrightarrow> free_value (cv_value cv) = Inr 1"
  by (cases "cv_value cv") (simp_all add: entry_ok_def)

lemma ht_entry_ok: "ht_inv t \<Longrightarrow> entries t b = Some cv \<Longrightarrow> entry_ok cv"
  by (metis ht_invD(3) entries_def nth_mem option.distinct(1))

text \<open>Values a caller may store: the type agrees with the object, the length with the block.\<close>

fun storable :: "cache_value_type \<Rightarrow> heap_value \<Rightarrow> size_t \<Rightarrow> bool" where
  "storable ty (VDecimal _) sz \<longleftrightarrow> ty = CACHE_VALUE_DECIMAL"
| "storable ty (VReal _) sz \<longleftrightarrow> ty = CACHE_VALUE_REAL"
| "storable ty (VString s) sz \<longleftrightarrow> ty = CACHE_VALUE_STRING \<and> unat sz \<le> length s"
| "storable ty _ sz \<longleftrightarrow> False"

fun stored :: "heap_value \<Rightarrow> size_t \<Rightarrow> heap_value" where
  "stored (VString s) sz = VString (take (unat sz) s)"
| "stored v sz = v"

definition entry_of :: "string \<Rightarrow> cache_value_type \<Rightarrow> heap_value \<Rightarrow> size_t \<Rightarrow> cache_value" where
  "entry_of key ty v sz = \<lparr>cv_key = key, cv_type = ty, cv_value = stored v sz, cv_length = sz\<rparr>"

lemmas cache_types = CACHE_VALUE_DECIMAL_def CACHE_VALUE_REAL_def CACHE_VALUE_STRING_def

lemma store_value_ok: "storable ty v sz \<Longrightarrow> store_value ty v sz old = Inr (stored v sz)"
  by (cases v) (auto simp: store_value_def cache_types)

lemma entry_of_ok: "storable ty v sz \<Longrightarrow> entry_ok (entry_of k ty v sz)"
  by (cases v) (auto simp: entry_ok_def entry_of_def)

lemma hash_table_get_eq: "ht_inv t \<Longrightarrow> hash_table_get t key = Inr (entries t (bucket t key))"
  by (simp add: hash_table_get_def hash_index_ok entries_def bucket_bound)

lemma hash_table_set_ok:
  assumes "ht_inv t" and "storable ty v sz"
  obtains t' where "hash_table_set t key ty v sz = Inr (t', True)" "ht_inv t'"
    "entries t' = (entries t)(bucket t key \<mapsto> entry_of key ty v sz)" "bucket t' = bucket t"
    "unat (ht_count t') = unat (ht_count t) + (if entries t (bucket t key) = None then 1 else 0)"
proof -
  let ?i = "bucket t key" and ?c = "Some (entry_of key ty v sz)"
  let ?n = "if ht_table t ! ?i = None then ht_count t + 1 else ht_count t"
  let ?t' = "t\<lparr>ht_table := (ht_table t)[?i := ?c], ht_count := ?n\<rparr>"
  have i: "?i < length (ht_table t)" using assms(1) by (rule bucket_bound)
  have n: "unat ?n + (if ht_table t ! ?i \<noteq> None then 1 else 0) = unat (ht_count t) + (if ?c \<noteq> None then 1 else 0)"
    using ht_count_room [OF assms(1) i] by simp
  note upd = ht_inv_update [OF assms(1) i _ n]
  have "hash_table_set t key ty v sz = Inr (?t', True)"
  proof (cases "ht_table t ! ?i")
    case None
    then show ?thesis using assms
      by (simp add: hash_table_set_def hash_index_ok store_value_ok entry_of_def)
  next
    case (Some cv)
    then have "entry_ok cv" using ht_entry_ok [OF assms(1), of ?i] i by (simp add: entries_def)
    then have "free_value (cv_value cv) = Inr 1" by (rule free_entry)
    with Some show ?thesis using assms
      by (simp add: hash_table_set_def hash_index_ok store_value_ok entry_of_def)
  qed
  moreover have "entry_ok cv" if "?c = Some cv" for cv
    using that entry_of_ok [OF assms(2)] by auto
  moreover have "unat (ht_count ?t') = unat (ht_count t) + (if entries t ?i = None then 1 else 0)"
    using ht_count_room [OF assms(1) i] i by (simp add: entries_def)
  ultimately show ?thesis using that [of ?t'] upd by blast
qed

lemma hash_table_del_ok:
  assumes "ht_inv t"
  obtains t' where "hash_table_del t key = Inr (t', entries t (bucket t key) \<noteq> None)" "ht_inv t'"
    "entries t' = (entries t)(bucket t key := None)" "bucket t' = bucket t"
    "unat (ht_count t') = unat (ht_count t) - (if entries t (bucket t key) = None then 0 else 1)"
proof (cases "ht_table t ! bucket t key")
  case None
  have i: "bucket t key < length (ht_table t)" using assms by (rule bucket_bound)
  have "(entries t)(bucket t key := None) = entries t"
    using None i by (auto simp: entries_def fun_eq_iff)
  with None i assms show ?thesis
    using that [of t] by (simp add: hash_table_del_def hash_index_ok entries_def)
next
  case (Some cv)
  let ?i = "bucket t key" and ?n = "ht_count t - 1"
  let ?t' = "t\<lparr>ht_table := (ht_table t)[?i := None], ht_count := ?n\<rparr>"
  have i: "?i < length (ht_table t)" using assms by (rule bucket_bound)
  have n: "unat ?n + (if ht_table t ! ?i \<noteq> None then 1 else 0)
      = unat (ht_count t) + (if (None :: cache_value option) \<noteq> None then 1 else 0)"
    using ht_count_pos [OF assms i] Some by simp
  note upd = ht_inv_update [OF assms i _ n]
  have "entry_ok cv" using ht_entry_ok [OF assms, of ?i] Some i by (simp add: entries_def)
  then have "free_value (cv_value cv) = Inr 1" by (rule free_entry)
  with Some assms have "hash_table_del t key = Inr (?t', True)"
    by (simp add: hash_table_del_def hash_index_ok)
  with Some i n show ?thesis using that [of ?t'] upd by (auto simp: entries_def)
qed

lemma adjust_value_ok:
  "entry_ok cv \<Longrightarrow> adjust_value f cv x = Inr (Some cv') \<Longrightarrow> entry_ok cv'"
  by (cases "cv_value cv")
    (auto simp: adjust_value_def entry_ok_def cache_types map_res_Inr_iff split: if_splits)

lemma hash_table_adjust_eq:
  assumes "ht_inv t"
  shows "hash_table_adjust f t key x =
    (case entries t (bucket t key) of
       None \<Rightarrow> Inr (t, None)
     | Some cv \<Rightarrow> map_res (\<lambda>r. case r of None \<Rightarrow> (t, None)
         | Some cv' \<Rightarrow> (t\<lparr>ht_table := (ht_table t)[bucket t key := Some cv']\<rparr>, Some cv'))
         (adjust_value f cv x))"
  using bucket_bound [OF assms]
  by (simp add: hash_table_adjust_def hash_index_ok [OF assms] entries_def)

lemma ht_adjust_state:
  assumes "ht_inv t" and "entries t (bucket t key) = Some cv" and "entry_ok cv'"
  defines "t' \<equiv> t\<lparr>ht_table := (ht_table t)[bucket t key := Some cv']\<rparr>"
  shows "ht_inv t'" "entries t' = (entries t)(bucket t key \<mapsto> cv')" "bucket t' = bucket t"
    "ht_count t' = ht_count t"
proof -
  have i: "bucket t key < length (ht_table t)" using assms(1) by (rule bucket_bound)
  have n: "unat (ht_count t) + (if ht_table t ! bucket t key \<noteq> None then 1 else 0) =
      unat (ht_count t) + (if Some cv' \<noteq> None then 1 else 0)"
    using assms(2) i by (simp add: entries_def)
  have t': "t' = t\<lparr>ht_table := (ht_table t)[bucket t key := Some cv'], ht_count := ht_count t\<rparr>"
    by (simp add: t'_def)
  show "ht_inv t'" "entries t' = (entries t)(bucket t key \<mapsto> cv')" "bucket t' = bucket t"
    unfolding t' using ht_inv_update [OF assms(1) i _ n] assms(3) by auto
  show "ht_count t' = ht_count t" by (simp add: t'_def)
qed

section \<open>The interface the commands use\<close>

text \<open>
  A store of entries in buckets: what a lookup returns after a write or a removal, and how
  many entries there are. Keys that share a bucket share the entry.
\<close>

locale bucket_store =
  fixes inv :: "'s \<Rightarrow> bool"
    and bucket_of :: "'s \<Rightarrow> 'k \<Rightarrow> nat"
    and get :: "'s \<Rightarrow> 'k \<Rightarrow> 'e option res"
    and put :: "'s \<Rightarrow> 'k \<Rightarrow> 'x \<Rightarrow> ('s \<times> bool) res"
    and del :: "'s \<Rightarrow> 'k \<Rightarrow> ('s \<times> bool) res"
    and ok :: "'x \<Rightarrow> bool"
    and entry :: "'k \<Rightarrow> 'x \<Rightarrow> 'e"
    and num :: "'s \<Rightarrow> nat"
  assumes get_total: "inv s \<Longrightarrow> \<exists>r. get s k = Inr r"
    and get_bucket: "inv s \<Longrightarrow> bucket_of s k = bucket_of s k' \<Longrightarrow> get s k = get s k'"
    and put_law: "inv s \<Longrightarrow> ok x \<Longrightarrow>
      \<exists>s'. put s k x = Inr (s', True) \<and> inv s' \<and> bucket_of s' = bucket_of s \<and>
        (\<forall>k'. get s' k' = (if bucket_of s k' = bucket_of s k then Inr (Some (entry k x)) else get s k')) \<and>
        num s' = num s + (if get s k = Inr None then 1 else 0)"
    and del_law: "inv s \<Longrightarrow>
      \<exists>s'. del s k = Inr (s', get s k \<noteq> Inr None) \<and> inv s' \<and> bucket_of s' = bucket_of s \<and>
        (\<forall>k'. get s' k' = (if bucket_of s k' = bucket_of s k then Inr None else get s k')) \<and>
        num s' = num s - (if get s k = Inr None then 0 else 1)"
begin

lemma put_get:
  assumes "inv s" "ok x" "put s k x = Inr (s', b)"
  shows "get s' k = Inr (Some (entry k x))" "inv s'" "b"
  using put_law [OF assms(1,2), of k] assms(3) by auto

lemma put_get_other:
  assumes "inv s" "ok x" "put s k x = Inr (s', b)" "bucket_of s k' \<noteq> bucket_of s k"
  shows "get s' k' = get s k'"
  using put_law [OF assms(1,2), of k] assms(3,4) by auto

lemma put_put_get:
  assumes "inv s" "ok x" "ok y" "put s k x = Inr (s', b)" "put s' k y = Inr (s'', b')"
  shows "get s'' k = Inr (Some (entry k y))" "num s'' = num s'"
proof -
  have "get s' k = Inr (Some (entry k x))" "inv s'" using put_get assms by metis+
  with put_law [OF \<open>inv s'\<close> assms(3), of k] assms(5)
  show "get s'' k = Inr (Some (entry k y))" "num s'' = num s'" by auto
qed

lemma del_get:
  assumes "inv s" "del s k = Inr (s', b)"
  shows "get s' k = Inr None" "inv s'"
  using del_law [OF assms(1), of k] assms(2) by auto

lemma del_del:
  assumes "inv s" "del s k = Inr (s', b)"
  shows "\<exists>s''. del s' k = Inr (s'', False) \<and> num s'' = num s'"
  using del_get [OF assms] del_law [of s' k] by auto

lemma put_del_num:
  assumes "inv s" "ok x" "get s k = Inr None"
  shows "\<exists>s' s''. put s k x = Inr (s', True) \<and> del s' k = Inr (s'', True) \<and>
    (\<forall>k'. get s'' k' = get s k') \<and> num s'' = num s"
proof -
  obtain s' where s': "put s k x = Inr (s', True)" "inv s'" "bucket_of s' = bucket_of s"
      "\<And>k'. get s' k' = (if bucket_of s k' = bucket_of s k then Inr (Some (entry k x)) else get s k')"
      "num s' = num s + 1"
    using put_law [OF assms(1,2), of k] assms(3) by auto
  obtain s'' where s'': "del s' k = Inr (s'', get s' k \<noteq> Inr None)"
      "\<And>k'. get s'' k' = (if bucket_of s' k' = bucket_of s' k then Inr None else get s' k')"
      "num s'' = num s' - (if get s' k = Inr None then 0 else 1)"
    using del_law [OF s'(2), of k] by auto
  have "get s'' k' = get s k'" for k'
    using s'(3,4) s''(2) get_bucket [OF assms(1), of k' k] assms(3) by simp
  with s' s'' show ?thesis by auto
qed

end

interpretation ht: bucket_store ht_inv bucket hash_table_get
  "\<lambda>t k (ty, v, sz). hash_table_set t k ty v sz" hash_table_del
  "\<lambda>(ty, v, sz). storable ty v sz" "\<lambda>k (ty, v, sz). entry_of k ty v sz" "\<lambda>t. unat (ht_count t)"
proof unfold_locales
  fix t k k'
  assume t: "ht_inv t"
  then show "\<exists>r. hash_table_get t k = Inr r" by (simp add: hash_table_get_eq)
  assume "bucket t k = bucket t k'"
  with t show "hash_table_get t k = hash_table_get t k'" by (simp add: hash_table_get_eq)
next
  fix t k and x :: "cache_value_type \<times> heap_value \<times> size_t"
  assume t: "ht_inv t" and x: "case x of (ty, v, sz) \<Rightarrow> storable ty v sz"
  obtain ty v sz where xx: "x = (ty, v, sz)" by (cases x)
  with x have "storable ty v sz" by simp
  from hash_table_set_ok [OF t this, of k] obtain t' where
    t': "hash_table_set t k ty v sz = Inr (t', True)" "ht_inv t'"
    "entries t' = (entries t)(bucket t k \<mapsto> entry_of k ty v sz)" "bucket t' = bucket t"
    "unat (ht_count t') = unat (ht_count t) + (if entries t (bucket t k) = None then 1 else 0)" by metis
  with t xx show "\<exists>s'. (case x of (ty, v, sz) \<Rightarrow> hash_table_set t k ty v sz) = Inr (s', True) \<and>
      ht_inv s' \<and> bucket s' = bucket t \<and>
      (\<forall>k'. hash_table_get s' k' = (if bucket t k' = bucket t k
         then Inr (Some (case x of (ty, v, sz) \<Rightarrow> entry_of k ty v sz)) else hash_table_get t k')) \<and>
      unat (ht_count s') = unat (ht_count t) + (if hash_table_get t k = Inr None then 1 else 0)"
    by (auto simp: hash_table_get_eq)
next
  fix t k
  assume t: "ht_inv t"
  from hash_table_del_ok [OF this, of k] obtain t' where
    "hash_table_del t k = Inr (t', entries t (bucket t k) \<noteq> None)" "ht_inv t'"
    "entries t' = (entries t)(bucket t k := None)" "bucket t' = bucket t"
    "unat (ht_count t') = unat (ht_count t) - (if entries t (bucket t k) = None then 0 else 1)" by metis
  with t show "\<exists>s'. hash_table_del t k = Inr (s', hash_table_get t k \<noteq> Inr None) \<and> ht_inv s' \<and>
      bucket s' = bucket t \<and>
      (\<forall>k'. hash_table_get s' k' = (if bucket t k' = bucket t k then Inr None else hash_table_get t k')) \<and>
      unat (ht_count s') = unat (ht_count t) - (if hash_table_get t k = Inr None then 0 else 1)"
    by (auto simp: hash_table_get_eq)
qed

section \<open>Refinement of a map\<close>

datatype table_op =
    OpSet string cache_value_type heap_value size_t
  | OpGet string
  | OpInc string double
  | OpDec string double
  | OpDel string

datatype table_out = Done bool | Found "cache_value option"

fun ht_exec :: "hash_table \<Rightarrow> table_op \<Rightarrow> (hash_table \<times> table_out) res" where
  "ht_exec t (OpSet k ty v sz) = map_res (\<lambda>(t, b). (t, Done b)) (hash_table_set t k ty v sz)"
| "ht_exec t (OpGet k) = map_res (\<lambda>r. (t, Found r)) (hash_table_get t k)"
| "ht_exec t (OpInc k x) = map_res (\<lambda>(t, r). (t, Found r)) (hash_table_inc t k x)"
| "ht_exec t (OpDec k x) = map_res (\<lambda>(t, r). (t, Found r)) (hash_table_dec t k x)"
| "ht_exec t (OpDel k) = map_res (\<lambda>(t, b). (t, Done b)) (hash_table_del t k)"

text \<open>The specification: a map from the buckets \<open>bk\<close> of the keys to entries.\<close>

fun map_adjust ::
    "(double \<Rightarrow> double \<Rightarrow> double) \<Rightarrow> (nat \<rightharpoonup> cache_value) \<Rightarrow> nat \<Rightarrow> double \<Rightarrow>
      ((nat \<rightharpoonup> cache_value) \<times> table_out) res" where
  "map_adjust f m b x =
     (case m b of
        None \<Rightarrow> Inr (m, Found None)
      | Some cv \<Rightarrow> map_res (\<lambda>r. case r of None \<Rightarrow> (m, Found None)
          | Some cv' \<Rightarrow> (m(b \<mapsto> cv'), Found (Some cv'))) (adjust_value f cv x))"

fun map_exec ::
    "(string \<Rightarrow> nat) \<Rightarrow> (nat \<rightharpoonup> cache_value) \<Rightarrow> table_op \<Rightarrow> ((nat \<rightharpoonup> cache_value) \<times> table_out) res" where
  "map_exec bk m (OpSet k ty v sz) = Inr (m(bk k \<mapsto> entry_of k ty v sz), Done True)"
| "map_exec bk m (OpGet k) = Inr (m, Found (m (bk k)))"
| "map_exec bk m (OpInc k x) = map_adjust (+) m (bk k) x"
| "map_exec bk m (OpDec k x) = map_adjust (-) m (bk k) x"
| "map_exec bk m (OpDel k) = Inr (m(bk k := None), Done (m (bk k) \<noteq> None))"

fun op_ok :: "table_op \<Rightarrow> bool" where
  "op_ok (OpSet k ty v sz) = storable ty v sz"
| "op_ok _ = True"

definition table_rel :: "(string \<Rightarrow> nat) \<Rightarrow> hash_table \<Rightarrow> (nat \<rightharpoonup> cache_value) \<Rightarrow> bool" where
  "table_rel bk t m \<longleftrightarrow> ht_inv t \<and> bucket t = bk \<and> entries t = m"

lemma hash_table_adjust_refines:
  assumes "table_rel bk t m"
  shows "refines (table_rel bk)
    (map_res (\<lambda>(t, r). (t, Found r)) (hash_table_adjust f t k x)) (map_adjust f m (bk k) x)"
proof -
  have t: "ht_inv t" "bucket t = bk" "entries t = m" using assms by (simp_all add: table_rel_def)
  show ?thesis
  proof (cases "m (bk k)")
    case None
    with assms t show ?thesis by (simp add: hash_table_adjust_eq)
  next
    case (Some cv)
    with t have e: "entries t (bucket t k) = Some cv" by simp
    then have ok: "entry_ok cv" using ht_entry_ok [OF t(1)] by blast
    show ?thesis
    proof (cases "adjust_value f cv x")
      case (Inl err)
      with t Some show ?thesis by (simp add: hash_table_adjust_eq)
    next
      case (Inr r)
      show ?thesis
      proof (cases r)
        case None
        with Inr t Some assms show ?thesis by (simp add: hash_table_adjust_eq)
      next
        case (Some cv')
        with Inr ok have "entry_ok cv'" by (auto intro: adjust_value_ok)
        from ht_adjust_state [OF t(1) e this] show ?thesis
          using Inr Some e t by (simp add: hash_table_adjust_eq table_rel_def)
      qed
    qed
  qed
qed

lemma ht_exec_refines:
  assumes "table_rel bk t m" and "op_ok op"
  shows "refines (table_rel bk) (ht_exec t op) (map_exec bk m op)"
proof (cases op)
  case (OpSet k ty v sz)
  with assms have "ht_inv t" "storable ty v sz" by (simp_all add: table_rel_def)
  from hash_table_set_ok [OF this, of k] obtain t' where
    "hash_table_set t k ty v sz = Inr (t', True)" "ht_inv t'"
    "entries t' = (entries t)(bucket t k \<mapsto> entry_of k ty v sz)" "bucket t' = bucket t" by metis
  with OpSet assms show ?thesis by (simp add: table_rel_def)
next
  case (OpDel k)
  from assms have "ht_inv t" by (simp add: table_rel_def)
  from hash_table_del_ok [OF this, of k] obtain t' where
    "hash_table_del t k = Inr (t', entries t (bucket t k) \<noteq> None)" "ht_inv t'"
    "entries t' = (entries t)(bucket t k := None)" "bucket t' = bucket t" by metis
  with OpDel assms show ?thesis by (simp add: table_rel_def)
next
  case (OpGet k)
  with assms show ?thesis by (auto simp: table_rel_def hash_table_get_eq)
next
  case (OpInc k x)
  with assms hash_table_adjust_refines show ?thesis by (simp add: hash_table_inc_def)
next
  case (OpDec k x)
  with assms hash_table_adjust_refines show ?thesis by (simp add: hash_table_dec_def)
qed

section \<open>Properties of the table\<close>

lemma ht_create_inv:
  assumes "0 < sz" and "unat sz < 2 ^ 63"
  shows "ht_inv (hash_table_create sz)" "entries (hash_table_create sz) = Map.empty"
  using assms by (auto simp: ht_inv_def hash_table_create_def entries_def fun_eq_iff)

lemma ht_count_card:
  assumes "ht_inv t"
  shows "unat (ht_count t) = card (dom (entries t))"
proof -
  have "dom (entries t) = {i. i < length (ht_table t) \<and> ht_table t ! i \<noteq> None}"
    by (auto simp: entries_def split: if_splits)
  then show ?thesis using ht_invD(4) [OF assms] by (simp add: length_filter_conv_card)
qed

text \<open>
  C7. From an empty table, every sequence of set, get, inc, dec and del operations on storable
  values returns what the same sequence returns on a map from bucket numbers to entries,
  faults included; and the number of keys is the number of occupied buckets of the map.
\<close>

theorem hash_table_refines_map:
  assumes "0 < sz" and "unat sz < 2 ^ 63" and "list_all op_ok ops"
  shows "refines (\<lambda>t m. entries t = m \<and> unat (ht_count t) = card (dom m))
    (run_ops ht_exec (hash_table_create sz) ops)
    (run_ops (map_exec (\<lambda>key. unat (fnv1a key mod sz))) Map.empty ops)"
proof -
  let ?bk = "\<lambda>key. unat (fnv1a key mod sz)"
  have "bucket (hash_table_create sz) = ?bk" by (simp add: bucket_def hash_table_create_def fun_eq_iff)
  then have "table_rel ?bk (hash_table_create sz) Map.empty"
    using ht_create_inv [OF assms(1,2)] by (simp add: table_rel_def)
  then have "refines (table_rel ?bk) (run_ops ht_exec (hash_table_create sz) ops)
      (run_ops (map_exec ?bk) Map.empty ops)"
    using assms(3) ht_exec_refines by (rule run_ops_refines [rotated])
  then show ?thesis by (rule refines_mono) (auto simp: table_rel_def ht_count_card)
qed

theorem hash_table_refines_map_witness:
  "refines (\<lambda>t m. entries t = m \<and> unat (ht_count t) = card (dom m))
    (run_ops ht_exec (hash_table_create 1000)
      [OpSet ''k'' CACHE_VALUE_STRING (VString ''abc'') 3, OpInc ''k'' (int_to_double 1), OpDel ''k''])
    (run_ops (map_exec (\<lambda>key. unat (fnv1a key mod 1000))) Map.empty
      [OpSet ''k'' CACHE_VALUE_STRING (VString ''abc'') 3, OpInc ''k'' (int_to_double 1), OpDel ''k''])"
  by (rule hash_table_refines_map) simp_all

text \<open>
  C28. The table never compares keys: two keys of one bucket name the same entry. Whatever is
  stored under the one is returned for the other, under the first one's name, and deleting
  the other removes it.
\<close>

theorem colliding_keys_alias:
  assumes "ht_inv t" and "bucket t k = bucket t k'" and "storable ty v sz"
  shows "\<exists>t' t''. hash_table_set t k ty v sz = Inr (t', True) \<and>
    hash_table_get t' k' = Inr (Some \<lparr>cv_key = k, cv_type = ty, cv_value = stored v sz, cv_length = sz\<rparr>) \<and>
    hash_table_del t' k' = Inr (t'', True) \<and> hash_table_get t'' k = Inr None"
proof -
  obtain t' where t': "hash_table_set t k ty v sz = Inr (t', True)" "ht_inv t'" "bucket t' = bucket t"
    using hash_table_set_ok [OF assms(1,3)] by metis
  then have "hash_table_get t' k = Inr (Some (entry_of k ty v sz))"
    using ht.put_get [of t "(ty, v, sz)" k] assms(1,3) by simp
  moreover have "hash_table_get t' k' = hash_table_get t' k"
    using t' assms(2) by (intro ht.get_bucket) simp_all
  moreover obtain t'' where t'': "hash_table_del t' k' = Inr (t'', hash_table_get t' k' \<noteq> Inr None)"
      "hash_table_get t'' k = Inr None"
    using ht.del_law [OF t'(2), of k'] t'(3) assms(2) by auto
  ultimately show ?thesis using t'(1) by (auto simp: entry_of_def)
qed

theorem colliding_keys_alias_witness:
  "\<exists>t' t''. hash_table_set (hash_table_create 1000) ''ci'' CACHE_VALUE_DECIMAL (VDecimal 7) 0 = Inr (t', True) \<and>
    hash_table_get t' ''dp'' =
      Inr (Some \<lparr>cv_key = ''ci'', cv_type = CACHE_VALUE_DECIMAL, cv_value = VDecimal 7, cv_length = 0\<rparr>) \<and>
    hash_table_del t' ''dp'' = Inr (t'', True) \<and> hash_table_get t'' ''ci'' = Inr None"
proof -
  have inv: "ht_inv (hash_table_create 1000)" by (rule ht_create_inv) simp_all
  have "fnv1a ''ci'' mod 1000 = 417" "fnv1a ''dp'' mod 1000 = 417" by code_simp+
  then have "bucket (hash_table_create 1000) ''ci'' = bucket (hash_table_create 1000) ''dp''"
    by (simp add: bucket_def hash_table_create_def)
  from colliding_keys_alias [OF inv this, of CACHE_VALUE_DECIMAL "VDecimal 7" 0]
  show ?thesis by simp
qed

lemma adjust_decimal:
  assumes "ht_inv t" and "entries t (bucket t key) = Some cv" and "cv_value cv = VDecimal d"
    and "dbl_to_int64 (f (int_to_double (sint d)) x) = Inr r"
  shows "hash_table_adjust f t key x =
    Inr (t\<lparr>ht_table := (ht_table t)[bucket t key := Some (cv\<lparr>cv_value := VDecimal r\<rparr>)]\<rparr>,
      Some (cv\<lparr>cv_value := VDecimal r\<rparr>))"
proof -
  have "cv_type cv = CACHE_VALUE_DECIMAL"
    using ht_entry_ok [OF assms(1,2)] assms(3) by (simp add: entry_ok_def)
  then show ?thesis using assms
    by (simp add: hash_table_adjust_eq adjust_value_def cache_types)
qed

lemma int64_add_exact:
  assumes "\<bar>sint d\<bar> \<le> 2 ^ 53" and "\<bar>n\<bar> \<le> 2 ^ 53" and "\<bar>sint d + n\<bar> \<le> 2 ^ 53"
  shows "dbl_to_int64 (int_to_double (sint (d :: int64)) + int_to_double n) = Inr (word_of_int (sint d + n))"
proof -
  note d = int_to_double_exact [OF assms(1)] and n = int_to_double_exact [OF assms(2)]
  have "dval (int_to_double (sint d)) + dval (int_to_double n) = of_int (sint d + n)"
    using d n by simp
  note s = dbl_add_int [OF d(1) n(1) this assms(3)]
  show ?thesis using s assms(3) by (intro dbl_to_int64_int) simp_all
qed

lemma counters_add:
  assumes "ht_inv t" and "entries t (bucket t key) = Some cv" and "cv_value cv = VDecimal d"
    and "\<bar>sint d\<bar> \<le> 2 ^ 53" and "\<bar>n\<bar> \<le> 2 ^ 53" and "\<bar>sint d + n\<bar> \<le> 2 ^ 53"
  shows "hash_table_inc t key (int_to_double n) =
    Inr (t\<lparr>ht_table := (ht_table t)[bucket t key := Some (cv\<lparr>cv_value := VDecimal (word_of_int (sint d + n))\<rparr>)]\<rparr>,
      Some (cv\<lparr>cv_value := VDecimal (word_of_int (sint d + n))\<rparr>))"
  using adjust_decimal [OF assms(1-3), of "(+)" "int_to_double n"] int64_add_exact [OF assms(4-6)]
  by (simp add: hash_table_inc_def)

lemma counters_sub:
  assumes "ht_inv t" and "entries t (bucket t key) = Some cv" and "cv_value cv = VDecimal d"
    and "\<bar>sint d\<bar> \<le> 2 ^ 53" and "\<bar>n\<bar> \<le> 2 ^ 53" and "\<bar>sint d - n\<bar> \<le> 2 ^ 53"
  shows "hash_table_dec t key (int_to_double n) =
    Inr (t\<lparr>ht_table := (ht_table t)[bucket t key := Some (cv\<lparr>cv_value := VDecimal (word_of_int (sint d - n))\<rparr>)]\<rparr>,
      Some (cv\<lparr>cv_value := VDecimal (word_of_int (sint d - n))\<rparr>))"
proof -
  note d = int_to_double_exact [OF assms(4)] and n = int_to_double_exact [OF assms(5)]
  have "dval (int_to_double (sint d)) - dval (int_to_double n) = of_int (sint d - n)"
    using d n by simp
  note s = dbl_sub_int [OF d(1) n(1) this assms(6)]
  have "dbl_to_int64 (int_to_double (sint d) - int_to_double n) = Inr (word_of_int (sint d - n))"
    using s assms(6) by (intro dbl_to_int64_int) simp_all
  then show ?thesis
    using adjust_decimal [OF assms(1-3), of _ "int_to_double n"] by (simp add: hash_table_dec_def)
qed

text \<open>
  C25. Counters are exact up to 2^53: when the stored decimal, the offset and the result do not
  exceed it in absolute value, INC adds and DEC subtracts the offset, although both compute
  in floating point.
\<close>

theorem counters_exact:
  assumes "ht_inv t" and "entries t (bucket t key) = Some cv" and "cv_value cv = VDecimal d"
    and "\<bar>sint d\<bar> \<le> 2 ^ 53" and "\<bar>n\<bar> \<le> 2 ^ 53"
  shows "(\<bar>sint d + n\<bar> \<le> 2 ^ 53 \<longrightarrow>
      map_res snd (hash_table_inc t key (int_to_double n)) =
        Inr (Some (cv\<lparr>cv_value := VDecimal (word_of_int (sint d + n))\<rparr>))) \<and>
    (\<bar>sint d - n\<bar> \<le> 2 ^ 53 \<longrightarrow>
      map_res snd (hash_table_dec t key (int_to_double n)) =
        Inr (Some (cv\<lparr>cv_value := VDecimal (word_of_int (sint d - n))\<rparr>)))"
  by (simp add: counters_add [OF assms] counters_sub [OF assms])

text \<open>A table with one counter, for the concrete cases below.\<close>

definition one_counter :: "int64 \<Rightarrow> hash_table" where
  "one_counter d =
     \<lparr>ht_table = [Some \<lparr>cv_key = ''n'', cv_type = CACHE_VALUE_DECIMAL, cv_value = VDecimal d, cv_length = 0\<rparr>],
       ht_count = 1, ht_size = 1\<rparr>"

lemma one_counter_inv:
  "ht_inv (one_counter d)" "bucket (one_counter d) k = 0"
  "entries (one_counter d) 0 =
     Some \<lparr>cv_key = ''n'', cv_type = CACHE_VALUE_DECIMAL, cv_value = VDecimal d, cv_length = 0\<rparr>"
  by (simp_all add: ht_inv_def one_counter_def entry_ok_def bucket_def entries_def)

theorem counters_exact_witness:
  "map_res snd (hash_table_inc (one_counter 40) ''n'' (int_to_double 2)) =
     Inr (Some \<lparr>cv_key = ''n'', cv_type = CACHE_VALUE_DECIMAL, cv_value = VDecimal 42, cv_length = 0\<rparr>)"
  using counters_exact [OF one_counter_inv(1), of 40 "''n''" _ 40 2] one_counter_inv(2,3) by simp

lemma ratio_exp_sums:
  "ratio_exp 40564819207303345351494129942528 4503599627370496 = 53"
  "ratio_exp 41538374868278621032747570261131264 4503599627370496 = 63"
  using ratio_exp_unique [of 4503599627370496 53] ratio_exp_unique [of 4503599627370496 63] by simp_all

lemma int_to_double_consts:
  "int_to_double 1 = Fin False 4503599627370496 (-52)"
  "int_to_double 9007199254740992 = Fin False 4503599627370496 1"
  "int_to_double 9223372036854775807 = Fin False 4503599627370496 11"
  by code_simp+

text \<open>
  Past 2^53 they are not: INC by one leaves 2^53 unchanged, and INC by one at the largest
  64-bit value converts 2^63, which has no defined result.
\<close>

theorem counters_inexact:
  "map_res snd (hash_table_inc (one_counter 9007199254740992) ''n'' (int_to_double 1)) =
     Inr (Some \<lparr>cv_key = ''n'', cv_type = CACHE_VALUE_DECIMAL, cv_value = VDecimal 9007199254740992, cv_length = 0\<rparr>) \<and>
   hash_table_inc (one_counter 9223372036854775807) ''n'' (int_to_double 1) = Inl BadConversion"
  by (simp add: hash_table_inc_def hash_table_adjust_eq one_counter_inv adjust_value_def cache_types
      int_to_double_consts plus_double_def signed_mant_def to_double_def ratio_exp_sums round_half_even_def)

lemma set_unknown_type:
  assumes "ht_inv t" and "entries t (bucket t key) = Some cv" and "2 < type"
  shows "hash_table_set t key type v sz =
    Inr (t\<lparr>ht_table := (ht_table t)[bucket t key :=
        Some \<lparr>cv_key = key, cv_type = type, cv_value = VFreed, cv_length = sz\<rparr>]\<rparr>, True)"
proof -
  have cv: "entry_ok cv" using ht_entry_ok [OF assms(1,2)] .
  then have "cv_value cv \<noteq> VNull" by (cases "cv_value cv") (simp_all add: entry_ok_def)
  moreover have "type \<noteq> 0" "type \<noteq> 1" "type \<noteq> 2" using assms(3) by auto
  ultimately show ?thesis
    using assms free_entry [OF cv] bucket_bound [OF assms(1)]
    by (simp add: hash_table_set_def hash_index_ok store_value_def cache_types entries_def)
qed

lemma destroy_cells_dangling:
  assumes "i < length cells" and "\<And>cv. Some cv \<in> set cells \<Longrightarrow> entry_ok cv"
  shows "destroy_cells (cells[i := Some \<lparr>cv_key = k, cv_type = ty, cv_value = VFreed, cv_length = sz\<rparr>])
    = Inl DanglingAccess"
  using assms
proof (induction cells arbitrary: i rule: destroy_cells.induct)
  case (3 cv cells)
  then have "entry_ok cv" by simp
  then have cv: "free_value (cv_value cv) = Inr 1" by (rule free_entry)
  with 3 show ?case by (cases i) auto
qed (auto split: nat.splits)

text \<open>
  An unknown type destroys an entry: \<open>hash_table_set\<close> frees the old value of the bucket,
  stores none, reports success, and leaves the pointer. Deleting the key, setting it again and
  destroying the table all free the block a second time.
\<close>

theorem unknown_type_double_free:
  assumes "ht_inv t" and "entries t (bucket t key) \<noteq> None" and "2 < type"
  shows "\<exists>t'. hash_table_set t key type v sz = Inr (t', True) \<and>
    hash_table_del t' key = Inl DanglingAccess \<and>
    (\<forall>type' v' sz'. hash_table_set t' key type' v' sz' = Inl DanglingAccess) \<and>
    hash_table_destroy t' = Inl DanglingAccess"
proof -
  obtain cv where cv: "entries t (bucket t key) = Some cv" using assms(2) by auto
  let ?i = "bucket t key"
  let ?c = "Some \<lparr>cv_key = key, cv_type = type, cv_value = VFreed, cv_length = sz\<rparr>"
  let ?t' = "t\<lparr>ht_table := (ht_table t)[?i := ?c]\<rparr>"
  have i: "?i < length (ht_table t)" using assms(1) by (rule bucket_bound)
  have idx: "hash_index ?t' key = Inr ?i"
    using hash_index_ok [OF assms(1), of key] by (simp add: hash_index_def Let_def split: if_splits)
  have "hash_table_del ?t' key = Inl DanglingAccess"
    using idx i by (simp add: hash_table_del_def)
  moreover have "hash_table_set ?t' key type' v' sz' = Inl DanglingAccess" for type' v' sz'
    using idx i by (simp add: hash_table_set_def)
  moreover have "destroy_cells ((ht_table t)[?i := ?c]) = Inl DanglingAccess"
    using assms(1) i by (intro destroy_cells_dangling) (auto dest: ht_invD(3))
  then have "hash_table_destroy ?t' = Inl DanglingAccess"
    using ht_invD(2) [OF assms(1)] by (simp add: hash_table_destroy_def)
  ultimately show ?thesis using set_unknown_type [OF assms(1) cv assms(3)] by blast
qed

theorem unknown_type_double_free_witness:
  "\<exists>t'. hash_table_set (one_counter 5) ''n'' 3 VNull 0 = Inr (t', True) \<and>
    hash_table_del t' ''n'' = Inl DanglingAccess \<and>
    (\<forall>type' v' sz'. hash_table_set t' ''n'' type' v' sz' = Inl DanglingAccess) \<and>
    hash_table_destroy t' = Inl DanglingAccess"
  by (rule unknown_type_double_free) (simp_all add: one_counter_inv)

lemma destroy_cells_count:
  "\<forall>cv. Some cv \<in> set cells \<longrightarrow> entry_ok cv \<Longrightarrow>
    destroy_cells cells = Inr (2 * length (filter (\<lambda>c. c \<noteq> None) cells))"
  by (induction cells rule: destroy_cells.induct) (auto simp: free_entry)

text \<open>
  The destructor of a well-formed table releases every block exactly once: the value and
  the entry of each key, the bucket array and the table.
\<close>

theorem hash_table_destroy_releases:
  assumes "ht_inv t"
  shows "hash_table_destroy t = Inr (2 * unat (ht_count t) + 2)"
  using ht_invD(2,3,4) [OF assms] by (simp add: hash_table_destroy_def destroy_cells_count)

theorem hash_table_destroy_releases_witness:
  "hash_table_destroy (one_counter 5) = Inr 4"
  using hash_table_destroy_releases [OF one_counter_inv(1)] by (simp add: one_counter_def)

end
