(* ===== verification/Vector.thy ===== *)
theory Vector
  imports Prelude "HOL-Library.Multiset"
begin

text \<open>
  The dynamic array of vector.c: a block of pointers, its capacity \<open>size\<close>, the number
  \<open>count\<close> of elements in use and a lock. The lemmas show that, while allocation
  succeeds, the operations refine a list with append and swap-removal.
\<close>

section \<open>Data\<close>

text \<open>
  A cell of the block: \<open>realloc\<close> leaves the cells it adds unwritten, \<open>calloc\<close> fills the
  block with \<open>NULL\<close> (\<open>Ptr None\<close>).
\<close>

datatype 'a cell = Unwritten | Ptr "'a option"

record 'a vector =
  v_array :: "'a cell list"
  v_size :: size_t
  v_count :: size_t
  v_lock :: bool

definition rd_cell :: "'a cell list \<Rightarrow> nat \<Rightarrow> 'a option res" where
  "rd_cell a i =
     (if i < length a then (case a ! i of Unwritten \<Rightarrow> Inl Indeterminate | Ptr p \<Rightarrow> Inr p)
      else Inl OutOfBounds)"

definition wr_cell :: "'a cell list \<Rightarrow> nat \<Rightarrow> 'a option \<Rightarrow> 'a cell list res" where
  "wr_cell a i p = (if i < length a then Inr (a[i := Ptr p]) else Inl OutOfBounds)"

text \<open>\<open>realloc(v->array, bytes)\<close> when it succeeds: the block has room for \<open>n\<close> pointers.\<close>

definition realloc_cells :: "'a cell list \<Rightarrow> nat \<Rightarrow> 'a cell list" where
  "realloc_cells a n = take n a @ replicate (n - length a) Unwritten"

section \<open>Operations\<close>

text \<open>
  \<open>mutex_ok\<close> is the outcome of \<open>pthread_mutex_init\<close>; \<open>None\<close> is the \<open>NULL\<close> result.
\<close>

definition vector_create :: "size_t \<Rightarrow> bool \<Rightarrow> 'a vector option" where
  "vector_create sz mutex_ok =
     (let vector_ptr = \<lparr>v_array = replicate (unat sz) (Ptr None), v_size = sz,
                        v_count = 0, v_lock = False\<rparr>
      in if \<not> mutex_ok then None else Some vector_ptr)"

definition vector_at_unsafe :: "'a vector \<Rightarrow> size_t \<Rightarrow> 'a option res" where
  "vector_at_unsafe v index =
     (if index < v_size v then rd_cell (v_array v) (unat index) else Inr None)"

text \<open>
  \<open>realloc_ok\<close> is the outcome of \<open>realloc\<close>. A request of zero bytes frees the block and
  returns \<open>NULL\<close>. The new capacity is stored before the outcome is known.
\<close>

definition vector_insert_unsafe ::
    "bool \<Rightarrow> 'a vector \<Rightarrow> 'a option \<Rightarrow> ('a vector \<times> bool) res" where
  "vector_insert_unsafe realloc_ok v element =
     (let push = (\<lambda>v. map_res
            (\<lambda>a. (v\<lparr>v_array := a, v_count := v_count v + 1\<rparr>, True))
            (wr_cell (v_array v) (unat (v_count v)) element))
      in if v_size v = v_count v then
           (let v = v\<lparr>v_size := v_size v * 2\<rparr>;
                bytes = v_size v * 8
            in if bytes = 0 then Inr (v\<lparr>v_array := []\<rparr>, False)
               else if \<not> realloc_ok then Inr (v, False)
               else push (v\<lparr>v_array := realloc_cells (v_array v) (unat bytes div 8)\<rparr>))
         else push v)"

definition vector_remove_unsafe :: "'a vector \<Rightarrow> size_t \<Rightarrow> ('a vector \<times> 'a option) res" where
  "vector_remove_unsafe v index =
     (if index \<ge> v_size v then Inr (v, None)
      else bind_res (rd_cell (v_array v) (unat index)) (\<lambda>eptr.
        if eptr = None then Inr (v, None)
        else
          bind_res (wr_cell (v_array v) (unat index) None) (\<lambda>a.
          let count = v_count v - 1 in
          if count > 0 then
            bind_res (rd_cell a (unat count)) (\<lambda>last.
            bind_res (wr_cell a (unat index) last) (\<lambda>a.
            bind_res (wr_cell a (unat count) None) (\<lambda>a.
              Inr (v\<lparr>v_array := a, v_count := count\<rparr>, eptr))))
          else Inr (v\<lparr>v_array := a, v_count := count\<rparr>, eptr))))"

text \<open>
  The lock. A lock that is held blocks the caller: \<open>None\<close>. The timed variant returns
  \<open>ETIMEDOUT\<close> when the lock is still held at the end of the wait.
\<close>

definition vector_lock :: "'a vector \<Rightarrow> 'a vector option" where
  "vector_lock v = (if v_lock v then None else Some (v\<lparr>v_lock := True\<rparr>))"

definition vector_unlock :: "'a vector \<Rightarrow> 'a vector" where
  "vector_unlock v = v\<lparr>v_lock := False\<rparr>"

definition ETIMEDOUT :: int where "ETIMEDOUT = 110"

definition vector_timed_lock :: "'a vector \<Rightarrow> 'a vector \<times> int" where
  "vector_timed_lock v = (if v_lock v then (v, ETIMEDOUT) else (v\<lparr>v_lock := True\<rparr>, 0))"

text \<open>Destroying the vector destroys its lock and frees both blocks: nothing is left.\<close>

definition vector_destroy :: "'a vector \<Rightarrow> 'a vector option res" where
  "vector_destroy v = (if v_lock v then Inl LockMisuse else Inr None)"

text \<open>The locked operations: lock, operate, unlock. \<open>None\<close> is a caller that blocks.\<close>

definition vector_at :: "'a vector \<Rightarrow> size_t \<Rightarrow> ('a vector \<times> 'a option) res option" where
  "vector_at v index =
     map_option (\<lambda>v. map_res (\<lambda>result. (vector_unlock v, result)) (vector_at_unsafe v index))
       (vector_lock v)"

definition vector_insert ::
    "bool \<Rightarrow> 'a vector \<Rightarrow> 'a option \<Rightarrow> ('a vector \<times> bool) res option" where
  "vector_insert realloc_ok v element =
     map_option (\<lambda>v. map_res (\<lambda>(v, result). (vector_unlock v, result))
         (vector_insert_unsafe realloc_ok v element))
       (vector_lock v)"

definition vector_remove ::
    "'a vector \<Rightarrow> size_t \<Rightarrow> ('a vector \<times> 'a option) res option" where
  "vector_remove v index =
     map_option (\<lambda>v. map_res (\<lambda>(v, eptr). (vector_unlock v, eptr))
         (vector_remove_unsafe v index))
       (vector_lock v)"

section \<open>Abstraction and invariant\<close>

fun is_elem :: "'a cell \<Rightarrow> bool" where
  "is_elem (Ptr (Some _)) = True"
| "is_elem _ = False"

fun elem_of :: "'a cell \<Rightarrow> 'a list" where
  "elem_of (Ptr (Some x)) = [x]"
| "elem_of _ = []"

text \<open>The elements in use, and what the operations keep true of a vector.\<close>

definition elems :: "'a vector \<Rightarrow> 'a list" where
  "elems v = concat (map elem_of (take (unat (v_count v)) (v_array v)))"

definition vector_inv :: "'a vector \<Rightarrow> bool" where
  "vector_inv v \<longleftrightarrow>
     length (v_array v) = unat (v_size v) \<and> v_count v \<le> v_size v \<and> 0 < v_size v \<and>
     list_all is_elem (take (unat (v_count v)) (v_array v)) \<and>
     list_all (\<lambda>c. \<not> is_elem c) (drop (unat (v_count v)) (v_array v))"

definition swap_remove :: "nat \<Rightarrow> 'a list \<Rightarrow> 'a list" where
  "swap_remove i xs = butlast (xs[i := last xs])"

lemma is_elem_iff: "is_elem c \<longleftrightarrow> (\<exists>x. c = Ptr (Some x))"
  by (cases c rule: is_elem.cases) auto

lemma elem_cells:
  "list_all is_elem a \<Longrightarrow> a = map (\<lambda>x. Ptr (Some x)) (concat (map elem_of a))"
  by (induction a) (auto simp: is_elem_iff)

lemma concat_elem_of [simp]: "concat (map (elem_of \<circ> (\<lambda>x. Ptr (Some x))) xs) = xs"
  by (induction xs) auto

text \<open>The block is the elements followed by spare cells.\<close>

lemma vector_invE:
  assumes "vector_inv v"
  obtains spare where
    "v_array v = map (\<lambda>x. Ptr (Some x)) (elems v) @ spare"
    "length (elems v) = unat (v_count v)"
    "unat (v_size v) = unat (v_count v) + length spare"
    "list_all (\<lambda>c. \<not> is_elem c) spare"
proof
  let ?n = "unat (v_count v)"
  from assms have n: "?n \<le> length (v_array v)"
    by (simp add: vector_inv_def word_le_nat_alt)
  from assms have take: "take ?n (v_array v) = map (\<lambda>x. Ptr (Some x)) (elems v)"
    unfolding vector_inv_def elems_def using elem_cells by blast
  then show "v_array v = map (\<lambda>x. Ptr (Some x)) (elems v) @ drop ?n (v_array v)"
    by (metis append_take_drop_id)
  from take n show "length (elems v) = ?n"
    by (metis length_map length_take min.absorb2)
  from assms n show "unat (v_size v) = ?n + length (drop ?n (v_array v))"
    by (simp add: vector_inv_def)
  from assms show "list_all (\<lambda>c. \<not> is_elem c) (drop ?n (v_array v))"
    by (simp add: vector_inv_def)
qed

lemma vector_invI:
  assumes "v_array v = map (\<lambda>x. Ptr (Some x)) xs @ spare"
    and "length xs = unat (v_count v)"
    and "unat (v_size v) = unat (v_count v) + length spare"
    and "list_all (\<lambda>c. \<not> is_elem c) spare" and "0 < v_size v"
  shows "vector_inv v" and "elems v = xs"
  using assms by (simp_all add: vector_inv_def elems_def word_le_nat_alt list_all_iff)

lemma length_swap_remove [simp]: "length (swap_remove i xs) = length xs - 1"
  by (simp add: swap_remove_def)

lemma swap_remove_last [simp]: "swap_remove (length xs - 1) xs = butlast xs"
  by (cases xs rule: rev_cases) (simp_all add: swap_remove_def)

lemma mset_swap_remove:
  assumes "i < length xs"
  shows "mset (swap_remove i xs) = mset xs - {#xs ! i#}"
proof (cases xs rule: rev_cases)
  case (snoc ys y)
  with assms show ?thesis
    by (cases "i = length ys") (simp_all add: swap_remove_def list_update_append mset_update nth_append)
qed (use assms in simp)

section \<open>The operations refine a list\<close>

lemma unat_double: "unat (w :: size_t) < 2 ^ 60 \<Longrightarrow> unat (w * 2) = 2 * unat w"
  by (simp add: unat_mult_lem[THEN iffD1] unat_word_ariths)

lemma unat_cells: "unat (w :: size_t) < 2 ^ 59 \<Longrightarrow> unat (w * 2 * 8) div 8 = 2 * unat w"
  by (simp add: unat_word_ariths)

lemma vector_inv_size_pos: "vector_inv v \<Longrightarrow> 0 < unat (v_size v)"
  by (simp add: vector_inv_def word_less_nat_alt)

lemma insert_room:
  fixes v :: "'a vector" and x :: 'a
  assumes "vector_inv v" and "v_count v < v_size v"
  defines "v' \<equiv> v\<lparr>v_array := (v_array v)[unat (v_count v) := Ptr (Some x)], v_count := v_count v + 1\<rparr>"
  shows "vector_insert_unsafe ok v (Some x) = Inr (v', True)"
    and "vector_inv v'" and "elems v' = elems v @ [x]"
proof -
  from assms(1) obtain spare where
    a: "v_array v = map (\<lambda>x. Ptr (Some x)) (elems v) @ spare"
    and n: "length (elems v) = unat (v_count v)"
    and s: "unat (v_size v) = unat (v_count v) + length spare"
    and sp: "list_all (\<lambda>c. \<not> is_elem c) spare" by (rule vector_invE)
  from assms(2) s have "spare \<noteq> []" by (auto simp: word_less_nat_alt)
  then obtain c rest where c: "spare = c # rest" by (cases spare) auto
  have cnt: "unat (v_count v + 1) = Suc (unat (v_count v))"
    using assms(2) by (rule unat_Suc_less)
  from a n c have arr: "v_array v' = map (\<lambda>x. Ptr (Some x)) (elems v @ [x]) @ rest"
    by (simp add: v'_def list_update_append)
  show "vector_insert_unsafe ok v (Some x) = Inr (v', True)"
    using assms(2) a n c by (auto simp: vector_insert_unsafe_def wr_cell_def v'_def)
  have *: "unat (v_size v') = unat (v_count v') + length rest" 
     "length (elems v @ [x]) = unat (v_count v')" "list_all (\<lambda>c. \<not> is_elem c) rest" "0 < v_size v'"
    using s sp c n cnt assms(1) by (simp_all add: v'_def vector_inv_def)
  show "vector_inv v'" and "elems v' = elems v @ [x]"
    using vector_invI [OF arr *(2,1,3,4)] by auto
qed

definition grown :: "'a vector \<Rightarrow> 'a vector" where
  "grown v = v\<lparr>v_size := v_size v * 2, v_array := realloc_cells (v_array v) (2 * unat (v_size v))\<rparr>"

lemma grown_inv:
  assumes "vector_inv v" and "unat (v_size v) < 2 ^ 59"
  shows "vector_inv (grown v)" and "elems (grown v) = elems v" and "v_count (grown v) < v_size (grown v)"
proof -
  from assms(1) obtain spare where
    a: "v_array v = map (\<lambda>x. Ptr (Some x)) (elems v) @ spare"
    and n: "length (elems v) = unat (v_count v)"
    and s: "unat (v_size v) = unat (v_count v) + length spare"
    and sp: "list_all (\<lambda>c. \<not> is_elem c) spare" by (rule vector_invE)
  let ?sp = "spare @ replicate (unat (v_size v)) Unwritten"
  from assms have sz: "unat (v_size v * 2) = 2 * unat (v_size v)" by (intro unat_double) simp
  from a n s have arr: "v_array (grown v) = map (\<lambda>x. Ptr (Some x)) (elems v) @ ?sp"
    by (simp add: grown_def realloc_cells_def mult_2)
  have pos: "0 < unat (v_size v)" using assms(1) by (rule vector_inv_size_pos)
  have *: "unat (v_size (grown v)) = unat (v_count (grown v)) + length ?sp"
      "length (elems v) = unat (v_count (grown v))" "list_all (\<lambda>c. \<not> is_elem c) ?sp"
      "0 < v_size (grown v)"
    using s sp n pos sz by (simp_all add: grown_def list_all_iff word_less_nat_alt)
  show "vector_inv (grown v)" and "elems (grown v) = elems v"
    using vector_invI [OF arr *(2,1,3,4)] by auto
  show "v_count (grown v) < v_size (grown v)"
    using s pos sz by (simp add: grown_def word_less_nat_alt)
qed

lemma vector_insert_cases:
  assumes "vector_inv v" and "unat (v_size v) < 2 ^ 59"
  shows "vector_insert_unsafe True v (Some x) =
    vector_insert_unsafe True (if v_size v = v_count v then grown v else v) (Some x)"
proof (cases "v_size v = v_count v")
  case True
  from assms have cells: "unat (v_size v * 2 * 8) div 8 = 2 * unat (v_size v)"
    by (intro unat_cells)
  moreover have "0 < unat (v_size v)" using assms(1) by (rule vector_inv_size_pos)
  ultimately have nz: "v_size v * 2 * 8 \<noteq> 0" by (metis unat_0 div_0 mult_is_0 neq0_conv zero_neq_numeral)
  have ne: "v_size (grown v) \<noteq> v_count (grown v)"
    using grown_inv(3) [OF assms] by auto
  show ?thesis
    using True nz cells ne by (simp add: vector_insert_unsafe_def grown_def Let_def)
qed simp

lemma vector_insert_ok:
  assumes "vector_inv v" and "unat (v_size v) < 2 ^ 59"
  obtains v' where "vector_insert_unsafe True v (Some x) = Inr (v', True)"
    "vector_inv v'" "elems v' = elems v @ [x]"
    "v_size v' = (if v_size v = v_count v then v_size v * 2 else v_size v)" "v_lock v' = v_lock v"
proof -
  let ?w = "if v_size v = v_count v then grown v else v"
  let ?v' = "?w\<lparr>v_array := (v_array ?w)[unat (v_count ?w) := Ptr (Some x)], v_count := v_count ?w + 1\<rparr>"
  have le: "v_count v \<le> v_size v" using assms(1) by (simp add: vector_inv_def)
  have w: "vector_inv ?w" "v_count ?w < v_size ?w" "elems ?w = elems v"
    using grown_inv [OF assms] assms(1) le by (auto simp: order_le_less)
  show ?thesis
  proof
    show "vector_insert_unsafe True v (Some x) = Inr (?v', True)"
      using insert_room(1) [OF w(1,2), of True x] vector_insert_cases [OF assms] by simp
    show "vector_inv ?v'" and "elems ?v' = elems v @ [x]"
      using insert_room(2,3) [OF w(1,2), of x] w(3) by simp_all
  qed (simp_all add: grown_def)
qed

lemma vector_remove_ok:
  assumes "vector_inv v" and "i < length (elems v)"
  obtains v' where "vector_remove_unsafe v (of_nat i) = Inr (v', Some (elems v ! i))"
    "vector_inv v'" "elems v' = swap_remove i (elems v)" "v_size v' = v_size v" "v_lock v' = v_lock v"
proof -
  from assms(1) obtain spare where
    a: "v_array v = map (\<lambda>x. Ptr (Some x)) (elems v) @ spare"
    and n: "length (elems v) = unat (v_count v)"
    and s: "unat (v_size v) = unat (v_count v) + length spare"
    and sp: "list_all (\<lambda>c. \<not> is_elem c) spare" by (rule vector_invE)
  let ?xs = "elems v" and ?n = "length (elems v) - 1"
  let ?v' = "v\<lparr>v_array := map (\<lambda>x. Ptr (Some x)) (swap_remove i ?xs) @ Ptr None # spare, v_count := v_count v - 1\<rparr>"
  have idx: "unat (of_nat i :: size_t) = i"
    using assms(2) n by (metis le_unat_uoi less_imp_le_nat)
  have lt: "(of_nat i :: size_t) < v_size v"
    using idx assms(2) n s by (simp add: word_less_nat_alt)
  then have le: "\<not> v_size v \<le> of_nat i" by simp
  have pos: "0 < v_count v" using assms(2) n by (simp add: word_less_nat_alt) 
  have cnt: "unat (v_count v - 1) = ?n" using unat_dec [OF pos] n by simp
  have gt: "0 < v_count v - 1 \<longleftrightarrow> 0 < ?n" using cnt by (simp add: word_less_nat_alt)
  have "vector_remove_unsafe v (of_nat i) = Inr (?v', Some (?xs ! i))"
  proof (cases ?xs rule: rev_cases)
    case (snoc ys y)
    show ?thesis
    proof (cases "i = length ys")
      case True
      with snoc a idx le gt cnt show ?thesis
        by (simp add: vector_remove_unsafe_def rd_cell_def wr_cell_def Let_def nth_append
            list_update_append swap_remove_def)
    next
      case False
      with snoc assms(2) have "i < length ys" by simp
      moreover from this have "ys \<noteq> []" by auto
      ultimately show ?thesis using snoc a idx le gt cnt
        by (simp add: vector_remove_unsafe_def rd_cell_def wr_cell_def Let_def nth_append
            list_update_append swap_remove_def map_update)
    qed
  qed (use assms(2) in simp)
  moreover have "vector_inv ?v'" "elems ?v' = swap_remove i ?xs"
    using vector_invI [where v = ?v' and xs = "swap_remove i ?xs" and spare = "Ptr None # spare"] s sp n cnt assms
    by (simp_all add: vector_inv_def)
  ultimately show ?thesis using that by simp
qed


lemma vector_at_ok:
  assumes "vector_inv v" and "i < length (elems v)"
  shows "vector_at_unsafe v (of_nat i) = Inr (Some (elems v ! i))"
proof -
  from assms(1) obtain spare where
    a: "v_array v = map (\<lambda>x. Ptr (Some x)) (elems v) @ spare"
    and n: "length (elems v) = unat (v_count v)"
    and s: "unat (v_size v) = unat (v_count v) + length spare" by (rule vector_invE)
  have idx: "unat (of_nat i :: size_t) = i"
    using assms(2) n by (metis le_unat_uoi less_imp_le_nat)
  then have "(of_nat i :: size_t) < v_size v"
    using assms(2) n s by (simp add: word_less_nat_alt)
  with a idx assms(2) show ?thesis
    by (simp add: vector_at_unsafe_def rd_cell_def nth_append)
qed

lemma vector_create_ok:
  "0 < sz \<Longrightarrow> \<exists>v. vector_create sz True = Some v \<and> vector_inv v \<and> elems v = [] \<and>
     v_size v = sz \<and> \<not> v_lock v"
  by (simp add: vector_create_def vector_inv_def elems_def list_all_iff)

section \<open>The interface the server uses\<close>

text \<open>
  A growable array: appending, positional lookup and removal that moves the last element
  into the gap.
\<close>

locale growable_array =
  fixes inv :: "'v \<Rightarrow> bool"
    and items :: "'v \<Rightarrow> 'a list"
    and room :: "'v \<Rightarrow> bool"
    and add :: "'v \<Rightarrow> 'a \<Rightarrow> ('v \<times> bool) res"
    and del :: "'v \<Rightarrow> size_t \<Rightarrow> ('v \<times> 'a option) res"
    and at :: "'v \<Rightarrow> size_t \<Rightarrow> 'a option res"
  assumes add_law: "inv v \<Longrightarrow> room v \<Longrightarrow>
      \<exists>v'. add v x = Inr (v', True) \<and> inv v' \<and> items v' = items v @ [x]"
    and del_law: "inv v \<Longrightarrow> i < length (items v) \<Longrightarrow>
      \<exists>v'. del v (of_nat i) = Inr (v', Some (items v ! i)) \<and> inv v' \<and>
        items v' = swap_remove i (items v)"
    and at_law: "inv v \<Longrightarrow> i < length (items v) \<Longrightarrow> at v (of_nat i) = Inr (Some (items v ! i))"
begin

lemma add_keeps: "inv v \<Longrightarrow> room v \<Longrightarrow> add v x = Inr (v', b) \<Longrightarrow> inv v'"
  using add_law [of v x] by auto

lemma del_keeps: "inv v \<Longrightarrow> i < length (items v) \<Longrightarrow> del v (of_nat i) = Inr (v', p) \<Longrightarrow> inv v'"
  using del_law [of v i] by auto

lemma del_mset:
  assumes "inv v" "i < length (items v)" "del v (of_nat i) = Inr (v', p)"
  shows "p = Some (items v ! i)" and "mset (items v') = mset (items v) - {#items v ! i#}"
    and "length (items v') = length (items v) - 1"
  using del_law [OF assms(1,2)] assms(2,3) by (auto simp: mset_swap_remove)

lemma del_last:
  assumes "inv v" "items v = xs @ [x]"
  shows "\<exists>v'. del v (of_nat (length xs)) = Inr (v', Some x) \<and> inv v' \<and> items v' = xs"
  using del_law [OF assms(1), of "length xs"] assms(2) by (auto simp: swap_remove_def)

lemma add_then_del:
  assumes "inv v" "room v"
  shows "\<exists>v' v''. add v x = Inr (v', True) \<and>
    del v' (of_nat (length (items v))) = Inr (v'', Some x) \<and> inv v'' \<and> items v'' = items v"
  using add_law [OF assms, of x] del_last by metis

end

definition vector_room :: "'a vector \<Rightarrow> bool" where
  "vector_room v \<longleftrightarrow> unat (v_size v) < 2 ^ 59"

interpretation vec: growable_array vector_inv elems vector_room
  "\<lambda>v x. vector_insert_unsafe True v (Some x)" vector_remove_unsafe vector_at_unsafe
proof unfold_locales
  fix v :: "'a vector" and x
  assume "vector_inv v" "vector_room v"
  then show "\<exists>v'. vector_insert_unsafe True v (Some x) = Inr (v', True) \<and> vector_inv v' \<and>
      elems v' = elems v @ [x]"
    unfolding vector_room_def by (metis vector_insert_ok)
next
  fix v :: "'a vector" and i
  assume "vector_inv v" "i < length (elems v)"
  then show "\<exists>v'. vector_remove_unsafe v (of_nat i) = Inr (v', Some (elems v ! i)) \<and>
      vector_inv v' \<and> elems v' = swap_remove i (elems v)"
    by (metis vector_remove_ok)
qed (rule vector_at_ok)

section \<open>Properties\<close>

text \<open>Sequences of locked operations, on the vector and on the list it stands for.\<close>

datatype 'a vector_op = Insert 'a | Remove nat

fun vector_exec :: "'a vector \<Rightarrow> 'a vector_op \<Rightarrow> 'a vector res option" where
  "vector_exec v (Insert x) = map_option (map_res fst) (vector_insert True v (Some x))"
| "vector_exec v (Remove i) = map_option (map_res fst) (vector_remove v (of_nat i))"

fun vector_run :: "'a vector \<Rightarrow> 'a vector_op list \<Rightarrow> 'a vector res option" where
  "vector_run v [] = Some (Inr v)"
| "vector_run v (op # ops) =
     (case vector_exec v op of
        None \<Rightarrow> None
      | Some (Inl e) \<Rightarrow> Some (Inl e)
      | Some (Inr v') \<Rightarrow> vector_run v' ops)"

fun list_exec :: "'a list \<Rightarrow> 'a vector_op \<Rightarrow> 'a list" where
  "list_exec xs (Insert x) = xs @ [x]"
| "list_exec xs (Remove i) = swap_remove i xs"

fun removals_valid :: "'a list \<Rightarrow> 'a vector_op list \<Rightarrow> bool" where
  "removals_valid xs [] = True"
| "removals_valid xs (Insert x # ops) = removals_valid (xs @ [x]) ops"
| "removals_valid xs (Remove i # ops) = (i < length xs \<and> removals_valid (swap_remove i xs) ops)"

text \<open>What a run relies on and re-establishes; \<open>n\<close> bounds the elements ever inserted.\<close>

definition vector_ready :: "nat \<Rightarrow> 'a vector \<Rightarrow> bool" where
  "vector_ready n v \<longleftrightarrow> vector_inv v \<and> \<not> v_lock v \<and> length (elems v) \<le> n \<and>
     unat (v_size v) \<le> max 10 (2 * n)"

lemma unlock_simps [simp]:
  "vector_inv (vector_unlock v) = vector_inv v" "elems (vector_unlock v) = elems v"
  "v_size (vector_unlock v) = v_size v" "\<not> v_lock (vector_unlock v)"
  by (simp_all add: vector_unlock_def vector_inv_def elems_def)

lemma locked_simps [simp]:
  "vector_inv (v\<lparr>v_lock := b\<rparr>) = vector_inv v" "elems (v\<lparr>v_lock := b\<rparr>) = elems v"
  by (simp_all add: vector_inv_def elems_def)

lemma vector_exec_insert:
  assumes "vector_ready n v" and "n < 2 ^ 57"
  shows "\<exists>v'. vector_exec v (Insert x) = Some (Inr v') \<and> vector_ready (Suc n) v' \<and>
    elems v' = elems v @ [x]"
proof -
  let ?w = "v\<lparr>v_lock := True\<rparr>"
  from assms have w: "vector_inv ?w" and sz: "unat (v_size ?w) < 2 ^ 59"
    by (auto simp: vector_ready_def)
  obtain v' where v': "vector_insert_unsafe True ?w (Some x) = Inr (v', True)" "vector_inv v'"
      "elems v' = elems ?w @ [x]"
      "v_size v' = (if v_size ?w = v_count ?w then v_size ?w * 2 else v_size ?w)"
    using vector_insert_ok [OF w sz, of x] by metis
  have "unat (v_size v') \<le> max 10 (2 * Suc n)"
  proof (cases "v_size v = v_count v")
    case True
    have "length (elems v) = unat (v_count v)"
      using w by (auto elim: vector_invE)
    with True v'(4) sz assms(1) have "unat (v_size v') = 2 * unat (v_count v)" "unat (v_count v) \<le> n"
      by (simp_all add: vector_ready_def unat_double)
    then show ?thesis by (simp add: le_max_iff_disj)
  next
    case False
    with v'(4) assms(1) show ?thesis by (auto simp: vector_ready_def)
  qed
  with v' assms(1) show ?thesis
    by (auto simp: vector_insert_def vector_lock_def vector_ready_def)
qed

lemma vector_exec_remove:
  assumes "vector_ready n v" and "i < length (elems v)"
  shows "\<exists>v'. vector_exec v (Remove i) = Some (Inr v') \<and> vector_ready n v' \<and>
    elems v' = swap_remove i (elems v)"
proof -
  let ?w = "v\<lparr>v_lock := True\<rparr>"
  from assms have "vector_inv ?w" and "i < length (elems ?w)"
    by (auto simp: vector_ready_def)
  then obtain v' where v': "vector_remove_unsafe ?w (of_nat i) = Inr (v', Some (elems ?w ! i))"
      "vector_inv v'" "elems v' = swap_remove i (elems ?w)" "v_size v' = v_size ?w"
    by (metis vector_remove_ok)
  with assms show ?thesis
    by (auto simp: vector_remove_def vector_lock_def vector_ready_def)
qed

lemma vector_run_simulates:
  assumes "vector_ready n v" and "removals_valid (elems v) ops" and "n + length ops < 2 ^ 57"
  shows "\<exists>v'. vector_run v ops = Some (Inr v') \<and> vector_ready (n + length ops) v' \<and>
    elems v' = foldl list_exec (elems v) ops"
  using assms
proof (induction ops arbitrary: n v)
  case (Cons op ops)
  have "\<exists>v'. vector_exec v op = Some (Inr v') \<and> vector_ready (Suc n) v' \<and>
      elems v' = list_exec (elems v) op"
  proof (cases op)
    case (Insert x)
    with Cons.prems show ?thesis using vector_exec_insert [of n v x] by simp
  next
    case (Remove i)
    with Cons.prems show ?thesis
      using vector_exec_remove [of n v i] by (fastforce simp: vector_ready_def)
  qed
  then obtain v' where v': "vector_exec v op = Some (Inr v')" "vector_ready (Suc n) v'"
      "elems v' = list_exec (elems v) op" by blast
  moreover have "removals_valid (elems v') ops"
    using Cons.prems(2) v'(3) by (cases op) simp_all
  ultimately show ?case using Cons.IH [of "Suc n" v'] Cons.prems(3) by simp
qed simp

text \<open>
  C21. A vector created with the server's capacity 10 behaves, under any sequence of locked
  insertions and in-range removals, as the list of its elements: no operation blocks or
  faults, the invariant holds at the end, the lock is free, and the capacity is at most
  twice the number of operations (10 for short sequences).
\<close>

theorem vector_refines_list:
  assumes "removals_valid [] ops" and "length ops < 2 ^ 57"
  shows "\<exists>v v'. vector_create 10 True = Some v \<and> vector_run v ops = Some (Inr v') \<and>
    elems v' = foldl list_exec [] ops \<and> vector_inv v' \<and> \<not> v_lock v' \<and>
    unat (v_size v') \<le> max 10 (2 * length ops)"
proof -
  obtain v :: "'a vector" where v: "vector_create 10 True = Some v" "vector_inv v" "elems v = []"
      "v_size v = 10" "\<not> v_lock v"
    using vector_create_ok [of 10] by auto
  then have "vector_ready 0 v" by (simp add: vector_ready_def)
  with v vector_run_simulates [of 0 v ops] assms show ?thesis
    by (auto simp: vector_ready_def)
qed

theorem vector_refines_list_witness:
  "\<exists>v v'. vector_create 10 True = Some v \<and>
    vector_run v [Insert (1::nat), Insert 2, Insert 3, Remove 0] = Some (Inr v') \<and> elems v' = [3, 2]"
  using vector_refines_list [of "[Insert (1::nat), Insert 2, Insert 3, Remove 0]"]
  by (auto simp: swap_remove_def)

text \<open>
  Removal by position takes exactly that element out of the bag of elements.
\<close>

theorem vector_remove_mset:
  assumes "vector_inv v" and "i < length (elems v)"
  shows "\<exists>v'. vector_remove_unsafe v (of_nat i) = Inr (v', Some (elems v ! i)) \<and>
    vector_inv v' \<and> mset (elems v') = mset (elems v) - {#elems v ! i#}"
  using vec.del_law [OF assms] vec.del_mset(2) [OF assms] by metis

theorem vector_remove_mset_witness:
  "\<exists>v'. vector_remove_unsafe
      \<lparr>v_array = [Ptr (Some 7), Ptr (Some (8::nat))], v_size = 2, v_count = 2, v_lock = False\<rparr> (of_nat 0)
      = Inr (v', Some 7) \<and> mset (elems v') = {#8#}"
  using vector_remove_mset [of "\<lparr>v_array = [Ptr (Some 7), Ptr (Some (8::nat))], v_size = 2,
      v_count = 2, v_lock = False\<rparr>" 0]
  by (auto simp: vector_inv_def elems_def)

text \<open>
  When \<open>realloc\<close> fails, \<open>vector_insert_unsafe\<close> reports false but has already doubled
  the recorded capacity: the invariant is lost and the next insertion writes past the block.
\<close>

theorem vector_failed_insert_corrupts:
  assumes "vector_inv v" and "v_size v = v_count v" and "unat (v_size v) < 2 ^ 59"
  shows "\<exists>v'. vector_insert_unsafe False v p = Inr (v', False) \<and> \<not> vector_inv v' \<and>
    vector_insert_unsafe realloc_ok v' q = Inl OutOfBounds"
proof -
  have pos: "0 < unat (v_size v)" using assms(1) by (rule vector_inv_size_pos)
  have "unat (v_size v * 2 * 8) div 8 = 2 * unat (v_size v)" using assms(3) by (rule unat_cells)
  with pos have nz: "v_size v * 2 * 8 \<noteq> 0"
    by (metis unat_0 div_0 mult_is_0 neq0_conv zero_neq_numeral)
  have d: "unat (v_size v * 2) = 2 * unat (v_size v)" using assms(3) by (intro unat_double) simp
  then have ne: "v_size v * 2 \<noteq> v_count v" using pos assms(2) by auto
  have len: "length (v_array v) = unat (v_size v)" using assms(1) by (simp add: vector_inv_def)
  with d pos have "\<not> vector_inv (v\<lparr>v_size := v_size v * 2\<rparr>)" by (simp add: vector_inv_def)
  with nz ne len assms(2) show ?thesis
    by (simp add: vector_insert_unsafe_def wr_cell_def Let_def)
qed

theorem vector_failed_insert_corrupts_witness:
  "\<exists>v'. vector_insert_unsafe False
       \<lparr>v_array = [Ptr (Some (7::nat))], v_size = 1, v_count = 1, v_lock = False\<rparr> (Some 8)
       = Inr (v', False) \<and> vector_insert_unsafe True v' (Some 9) = Inl OutOfBounds"
  using vector_failed_insert_corrupts [of
      "\<lparr>v_array = [Ptr (Some (7::nat))], v_size = 1, v_count = 1, v_lock = False\<rparr>" "Some 8" True "Some 9"]
  by (auto simp: vector_inv_def)

end
