(* ===== verification/Utils.thy ===== *)
theory Utils
  imports C_Numbers
begin

text \<open>
  The string helpers of utils.h: escaping a string for the log, the syntax checks of
  decimal and real arguments, and the search for a substring in a received block. The lemmas
  show what escaping prints and when it writes past its buffer, which strings the syntax
  checks accept, and that the search returns the first occurrence.
\<close>

section \<open>Writing into a heap block\<close>

text \<open>
  A block together with the number of bytes that were written past its end. Such a write is
  an error of the program; what it destroys lies in other blocks and is not modelled, the
  block itself keeps the bytes that are inside.
\<close>

type_synonym heap_block = "string \<times> nat"

definition calloc_block :: "nat \<Rightarrow> heap_block" where
  "calloc_block n = (replicate n NUL, 0)"

fun put_bytes :: "nat \<Rightarrow> string \<Rightarrow> heap_block \<Rightarrow> heap_block" where
  "put_bytes i xs (b, over) = (write_at i xs b, max over (i + length xs - length b))"

lemma put_bytes_fits:
  "i + length xs \<le> length b \<Longrightarrow> put_bytes i xs (b, n) = (take i b @ xs @ drop (i + length xs) b, n)"
  by (simp add: write_at_fits)

lemma take_put_bytes:
  "i + n \<le> length b \<Longrightarrow> n \<le> length xs \<Longrightarrow> take (i + n) (fst (put_bytes i xs (b, k))) = take i b @ take n xs"
  by (auto simp: write_at_def min_absorb1 min_absorb2)

lemma length_put_bytes: "i \<le> length b \<Longrightarrow> length (fst (put_bytes i xs (b, k))) = length b"
  by (simp add: length_write_at)

section \<open>Escaping\<close>

definition printable :: "char \<Rightarrow> bool" where
  "printable c \<longleftrightarrow> 31 < schar c \<and> schar c < 127"

text \<open>What \<open>sprintf (p, "\\x%02x", (int)c)\<close> writes, its terminator included.\<close>

definition escaped :: "char \<Rightarrow> string" where
  "escaped c = CHR 0x5C # CHR ''x'' # fmt_02x (word_of_int (schar c)) @ [NUL]"

text \<open>The loop: the rest of the string, the write position, the buffer.\<close>

fun str_escape_loop :: "string \<Rightarrow> nat \<Rightarrow> heap_block \<Rightarrow> nat \<times> heap_block" where
  "str_escape_loop [] p h = (p, h)"
| "str_escape_loop (c # s) p h =
     (if printable c then str_escape_loop s (p + 1) (put_bytes p [c] h)
      else str_escape_loop s (p + 4) (put_bytes p (escaped c) h))"

text \<open>The escaped string, and how far past the end of its buffer it was written.\<close>

definition str_escape :: "string \<Rightarrow> string \<times> nat" where
  "str_escape str =
     (let s = cstr str;
          (p, h) = str_escape_loop s 0 (calloc_block (length s * 5 + 1));
          (b, over) = put_bytes p [NUL] h
      in (cstr b, over))"

section \<open>Syntax checks\<close>

definition is_decimal_string :: "string \<Rightarrow> bool" where
  "is_decimal_string str =
     (case cstr str of
        [] \<Rightarrow> False
      | c # s \<Rightarrow> list_all isdigit (if c = CHR ''+'' \<or> c = CHR ''-'' then s else c # s))"

fun real_chars :: "bool \<Rightarrow> string \<Rightarrow> bool" where
  "real_chars dot [] = True"
| "real_chars dot (c # s) =
     (if c = CHR ''.'' then (if dot then False else real_chars True s)
      else if \<not> isdigit c then False
      else real_chars dot s)"

definition is_real_string :: "string \<Rightarrow> bool" where
  "is_real_string str =
     (case cstr str of
        [] \<Rightarrow> False
      | c # s \<Rightarrow>
          if c = CHR ''.'' then False
          else real_chars False (if c = CHR ''+'' \<or> c = CHR ''-'' then s else c # s))"

section \<open>Searching\<close>

text \<open>\<open>strncmp (a, b, n) == 0\<close>.\<close>

fun strncmp_eq :: "string \<Rightarrow> string \<Rightarrow> nat \<Rightarrow> bool" where
  "strncmp_eq a b 0 = True"
| "strncmp_eq (x # a) (y # b) (Suc n) = (x = y \<and> (x = NUL \<or> strncmp_eq a b n))"
| "strncmp_eq [] (y # b) (Suc n) = (y = NUL)"
| "strncmp_eq (x # a) [] (Suc n) = (x = NUL)"
| "strncmp_eq [] [] (Suc n) = True"

function sstrstr_loop :: "string \<Rightarrow> string \<Rightarrow> nat \<Rightarrow> nat \<Rightarrow> nat option" where
  "sstrstr_loop haystack needle len i =
     (if i < len then
        if len < i + length needle then None
        else if strncmp_eq (drop i haystack) needle (length needle) then Some i
        else sstrstr_loop haystack needle len (i + 1)
      else None)"
  by pat_completeness auto

termination by (relation "measure (\<lambda>(h, n, len, i). len - i)") auto

declare sstrstr_loop.simps [simp del]

text \<open>The position of the first occurrence in the first \<open>len\<close> bytes; \<open>None\<close> is \<open>NULL\<close>.\<close>

definition sstrstr :: "string \<Rightarrow> string \<Rightarrow> nat \<Rightarrow> nat option" where
  "sstrstr haystack needle len = sstrstr_loop haystack (cstr needle) len 0"

section \<open>Properties of escaping\<close>

lemma hex_digits_snoc: "0 < n \<Longrightarrow> d < 16 \<Longrightarrow> hex_digits (16 * n + d) = hex_digits n @ [hex_char d]"
  by (subst hex_digits.simps) simp

lemma hex_digits_snoc2:
  "0 < n \<Longrightarrow> c < 16 \<Longrightarrow> d < 16 \<Longrightarrow>
    hex_digits (16 * (16 * n + c) + d) = hex_digits n @ [hex_char c, hex_char d]"
  by (subst hex_digits_snoc) (simp_all add: hex_digits_snoc)

lemma hex_digits_digit: "d < 16 \<Longrightarrow> hex_digits d = [hex_char d]"
  by (subst hex_digits.simps) simp

definition hex2 :: "nat \<Rightarrow> string" where
  "hex2 n = [hex_char (n div 16), hex_char (n mod 16)]"

lemma hex_digits_two:
  assumes "n < 256"
  shows "hex_digits n = (if n < 16 then [hex_char n] else hex2 n)"
proof (cases "n < 16")
  case False
  then have "0 < n div 16" by (simp add: div_greater_zero_iff)
  then have "hex_digits (16 * (n div 16) + n mod 16) = hex_digits (n div 16) @ [hex_char (n mod 16)]"
    by (rule hex_digits_snoc) simp
  with assms False show ?thesis by (simp add: hex2_def hex_digits_digit)
qed (simp add: hex_digits_digit)

lemma hex_char_consts: "hex_char 0 = CHR ''0''" "hex_char 15 = CHR ''f''"
  by code_simp+

lemma fmt_02x_byte:
  assumes "n < 256"
  shows "fmt_02x (word_of_int (int n)) = hex2 n"
proof -
  have u: "unat (word_of_nat n :: 32 word) = n" using assms by (simp add: unat_of_nat)
  show ?thesis using assms hex_char_consts by (simp add: fmt_02x_def u hex_digits_two hex2_def Let_def)
qed

lemma fmt_02x_negative:
  assumes "0 < n" "n \<le> 128"
  shows "fmt_02x (word_of_int (- int n)) = ''ffffff'' @ hex2 (256 - n)"
proof -
  let ?m = "256 - n"
  have "uint (word_of_int (- int n) :: 32 word) = (- int n) mod 2 ^ 32"
    by (simp only: uint_word_of_int) simp
  also have "\<dots> = 2 ^ 32 - int n"
    using assms by (simp add: zmod_zminus1_eq_if)
  finally have "int (unat (word_of_int (- int n) :: 32 word)) = 2 ^ 32 - int n"
    by (simp only: uint_nat)
  moreover have "int (2 ^ 32 - n) = 2 ^ 32 - int n" using assms by (simp add: of_nat_diff)
  ultimately have "int (unat (word_of_int (- int n) :: 32 word)) = int (2 ^ 32 - n)" by (simp only:)
  then have "unat (word_of_int (- int n) :: 32 word) = 2 ^ 32 - n" by (rule of_nat_eq_iff [THEN iffD1])
  also have "2 ^ 32 - n = 16 * (16 * 16777215 + ?m div 16) + ?m mod 16"
    using assms by simp
  finally have u: "unat (word_of_int (- int n) :: 32 word) = 16 * (16 * 16777215 + ?m div 16) + ?m mod 16" .
  have "hex_digits 16777215 = ''ffffff''" by (simp add: hex_digits.simps hex_char_consts)
  moreover have "?m div 16 < 16" using assms by auto
  ultimately have "hex_digits (16 * (16 * 16777215 + ?m div 16) + ?m mod 16) = ''ffffff'' @ hex2 ?m"
    using hex_digits_snoc2 [of 16777215 "?m div 16" "?m mod 16"] by (simp only: hex2_def)
  with u show ?thesis by (simp add: fmt_02x_def)
qed

text \<open>What a byte looks like in the log: every byte of 128 and more prints as \<open>\xff\<close>.\<close>

definition shown :: "char \<Rightarrow> string" where
  "shown c =
     (if printable c then [c]
      else CHR 0x5C # CHR ''x'' # (if schar c < 0 then ''ff'' else hex2 (of_char c)))"

lemma of_char_int: "(of_char c :: int) = int (of_char c)"
  by (cases c) (simp add: of_char_Char)

lemma of_char_byte: "(of_char c :: nat) < 256"
  using of_char_bounds(2) [of c] unfolding of_char_int by simp

lemma schar_nonneg: "0 \<le> schar c \<Longrightarrow> schar c = int (of_char c)"
  by (cases "(of_char c :: int) < 128")
    (use of_char_bounds(2) [of c] in \<open>simp_all add: schar_def Let_def del: of_nat_of_char, simp_all add: of_char_int\<close>)

lemma escaped_eq:
  "escaped c = CHR 0x5C # CHR ''x'' #
     (if schar c < 0 then ''ffffff'' @ hex2 (of_char c) else hex2 (of_char c)) @ [NUL]"
proof (cases "schar c < 0")
  case True
  then have c: "schar c = int (of_char c) - 256" "128 \<le> (of_char c :: nat)"
    using of_char_bounds [of c] by (auto simp: schar_def Let_def of_char_int split: if_splits)
  then have "schar c = - int (256 - of_char c)" using of_char_byte [of c] by linarith
  moreover have "(0::nat) < 256 - of_char c" "256 - of_char c \<le> (128::nat)"
    "256 - (256 - of_char c) = (of_char c :: nat)"
    using c(2) of_char_byte [of c] by linarith+
  ultimately have "fmt_02x (word_of_int (schar c)) = ''ffffff'' @ hex2 (of_char c)"
    using fmt_02x_negative [of "256 - of_char c"] by metis
  with True show ?thesis by (simp add: escaped_def)
next
  case False
  then have "schar c = int (of_char c)" "(of_char c :: nat) < 256"
    by (simp_all add: schar_nonneg of_char_byte)
  then have "fmt_02x (word_of_int (schar c)) = hex2 (of_char c)" using fmt_02x_byte by metis
  with False show ?thesis by (simp add: escaped_def)
qed

lemma length_escaped: "length (escaped c) = (if schar c < 0 then 11 else 5)"
  by (simp add: escaped_eq hex2_def)

lemma take_escaped: "\<not> printable c \<Longrightarrow> take 4 (escaped c) = shown c"
  by (simp add: escaped_eq shown_def hex2_def)

lemma hex_char_not_NUL: "d < 16 \<Longrightarrow> hex_char d \<noteq> NUL"
  by (auto simp: hex_char_def dest!: arg_cong [where f = "of_char :: char \<Rightarrow> nat"])

lemma is_cstr_shown: "is_cstr (shown c)"
proof -
  have "(of_char c :: nat) < 256" by (rule of_char_byte)
  then show ?thesis
    by (auto simp: shown_def printable_def schar_def hex2_def hex_char_not_NUL less_mult_imp_div_less)
qed

lemma is_cstr_concat: "(\<And>c. is_cstr (f c)) \<Longrightarrow> is_cstr (concat (map f s))"
  by (induction s) simp_all

lemma str_escape_loop_text:
  assumes "p + 4 * length s \<le> length b"
  shows "\<exists>p' b' k'. str_escape_loop s p (b, k) = (p', b', k') \<and> length b' = length b \<and>
    p' \<le> p + 4 * length s \<and> take p' b' = take p b @ concat (map shown s)"
  using assms
proof (induction s arbitrary: p b k)
  case (Cons c s)
  show ?case
  proof (cases "printable c")
    case True
    obtain b' k' where put: "put_bytes p [c] (b, k) = (b', k')" by fastforce
    then have b': "length b' = length b" "take (p + 1) b' = take p b @ [c]"
      using length_put_bytes [of p b "[c]" k] take_put_bytes [of p 1 b "[c]" k] Cons.prems by simp_all
    from Cons.IH [of "p + 1" b' k'] Cons.prems b' True put show ?thesis
      by (auto simp: shown_def)
  next
    case False
    obtain b' k' where put: "put_bytes p (escaped c) (b, k) = (b', k')" by fastforce
    then have b': "length b' = length b" "take (p + 4) b' = take p b @ shown c"
      using length_put_bytes [of p b "escaped c" k] take_put_bytes [of p 4 b "escaped c" k] Cons.prems
        length_escaped [of c] take_escaped [OF False] by (simp_all split: if_splits)
    from Cons.IH [of "p + 4" b' k'] Cons.prems b' False put show ?thesis
      by auto
  qed
qed simp

lemma str_escape_loop_fits:
  assumes "\<forall>c\<in>set s. printable c \<or> length (escaped c) \<le> r" and "1 \<le> r"
    and "p + 4 * (length s - 1) + r \<le> length b"
  shows "snd (snd (str_escape_loop s p (b, k))) = k"
  using assms(1,3)
proof (induction s arbitrary: p b)
  case (Cons c s)
  show ?case
  proof (cases "s = []")
    case True
    with Cons.prems assms(2) show ?thesis by (auto simp: max_def)
  next
    case False
    define n where "n = (if printable c then 1 else 4 :: nat)"
    define e where "e = (if printable c then [c] else escaped c)"
    have e: "length e \<le> r" using Cons.prems(1) assms(2) by (auto simp: e_def)
    have room: "p + n + 4 * (length s - 1) + r \<le> length b"
      using Cons.prems(2) False by (cases s) (simp_all add: n_def)
    then have put: "put_bytes p e (b, k) = (write_at p e b, k)" "length (write_at p e b) = length b"
      using e by (simp_all add: max_def length_write_at)
    have "snd (snd (str_escape_loop s (p + n) (write_at p e b, k))) = k"
      using Cons.prems(1) room put(2) by (intro Cons.IH) simp_all
    then show ?thesis using put(1) by (simp add: n_def e_def split: if_splits)
  qed
qed simp

lemma str_escape_run:
  assumes "is_cstr s"
  shows "str_escape s = (concat (map shown s), snd (snd (str_escape_loop s 0 (replicate (length s * 5 + 1) NUL, 0))))"
proof -
  let ?b = "replicate (length s * 5 + 1) NUL"
  obtain p b k where run: "str_escape_loop s 0 (?b, 0) = (p, b, k)" "length b = length ?b"
      "p \<le> 4 * length s" "take p b = concat (map shown s)"
    using str_escape_loop_text [of 0 s ?b 0] by auto
  then have p: "p + length [NUL] \<le> length b" by simp
  have "str_escape s = (cstr (take p b @ NUL # drop (p + 1) b), k)"
    using run put_bytes_fits [OF p] assms by (simp add: str_escape_def cstr_id calloc_block_def del: put_bytes.simps)
  then show ?thesis
    using run(1,4) cstr_append_NUL is_cstr_concat [of shown s] is_cstr_shown by simp
qed

text \<open>
  C39. Escaping a string for the log gives the concatenation of what its bytes look like. It
  stays inside the buffer for strings of at least six bytes and for strings without bytes of
  128 and more.
\<close>

theorem str_escape_correct:
  assumes "is_cstr s"
  shows "fst (str_escape s) = concat (map shown s) \<and>
    (6 \<le> length s \<or> (\<forall>c\<in>set s. 0 \<le> schar c) \<longrightarrow> snd (str_escape s) = 0)"
proof -
  let ?b = "replicate (length s * 5 + 1) NUL"
  let ?k = "snd (snd (str_escape_loop s 0 (?b, 0)))"
  have "?k = 0" if c: "6 \<le> length s \<or> (\<forall>c\<in>set s. 0 \<le> schar c)"
  proof -
    from c consider "6 \<le> length s" | "\<forall>c\<in>set s. 0 \<le> schar c" by blast
    then show ?thesis
    proof cases
      case 1
      then show ?thesis by (intro str_escape_loop_fits [where r = 11]) (simp_all add: length_escaped)
    next
      case 2
      then have c5: "\<forall>c\<in>set s. printable c \<or> length (escaped c) \<le> 5" by (auto simp: length_escaped)
      show ?thesis
      proof (cases "s = []")
        case False
        then have "0 + 4 * (length s - 1) + 5 \<le> length ?b" by (cases s) simp_all
        with c5 show ?thesis by (intro str_escape_loop_fits [where r = 5]) simp_all
      qed simp
    qed
  qed
  then show ?thesis using str_escape_run [OF assms] by simp
qed

theorem str_escape_correct_witness:
  "fst (str_escape ''GET a'') = ''GET a'' \<and> snd (str_escape ''GET a'') = 0"
proof -
  have "concat (map shown ''GET a'') = ''GET a''"
    by (simp add: shown_def printable_def schar_def)
  with str_escape_correct [of "''GET a''"] show ?thesis by (simp add: schar_def)
qed

text \<open>
  Shorter strings with such bytes overflow it: the single byte 0x80 is given six bytes, and
  eleven are written.
\<close>

theorem str_escape_overflow:
  "str_escape [CHR 0x80] = (CHR 0x5C # ''xff'', 5)"
proof -
  have "escaped (CHR 0x80) = CHR 0x5C # ''xffffff80'' @ [NUL]"
  proof -
    have "hex2 128 = ''80''" by code_simp
    then show ?thesis by (simp add: escaped_eq schar_def)
  qed
  then show ?thesis
    by (simp add: str_escape_def calloc_block_def printable_def schar_def write_at_def)
qed

section \<open>Properties of the syntax checks\<close>

definition sign_of :: "string \<Rightarrow> bool" where
  "sign_of sg \<longleftrightarrow> sg = [] \<or> sg = ''+'' \<or> sg = ''-''"

lemma real_chars_True: "real_chars True s \<longleftrightarrow> list_all isdigit s"
  by (induction s) auto

lemma real_chars_False:
  "real_chars False s \<longleftrightarrow> list_all isdigit s \<or>
    (\<exists>ip fp. s = ip @ CHR ''.'' # fp \<and> list_all isdigit ip \<and> list_all isdigit fp)"
proof (induction s)
  case (Cons c s)
  show ?case
  proof (cases "c = CHR ''.''")
    case True
    have "list_all isdigit s \<longleftrightarrow> (\<exists>ip fp. c # s = ip @ CHR ''.'' # fp \<and> list_all isdigit ip \<and> list_all isdigit fp)"
      (is "?l \<longleftrightarrow> ?r")
    proof
      assume ?l
      with True show ?r by (intro exI [of _ "[]"] exI [of _ s]) simp
    next
      assume ?r
      with True show ?l by (auto simp: Cons_eq_append_conv)
    qed
    with True show ?thesis by (simp add: real_chars_True)
  next
    case False
    have "(\<exists>ip fp. c # s = ip @ CHR ''.'' # fp \<and> list_all isdigit ip \<and> list_all isdigit fp) \<longleftrightarrow>
        isdigit c \<and> (\<exists>ip fp. s = ip @ CHR ''.'' # fp \<and> list_all isdigit ip \<and> list_all isdigit fp)"
      (is "?l \<longleftrightarrow> ?r")
    proof
      assume ?l
      with False obtain ip fp where "s = ip @ CHR ''.'' # fp" "isdigit c" "list_all isdigit ip" "list_all isdigit fp"
        by (auto simp: Cons_eq_append_conv)
      then show ?r by blast
    next
      assume ?r
      then obtain ip fp where "isdigit c" "s = ip @ CHR ''.'' # fp" "list_all isdigit ip" "list_all isdigit fp"
        by blast
      then show ?l by (intro exI [of _ "c # ip"] exI [of _ fp]) simp
    qed
    with Cons False show ?thesis by auto
  qed
qed simp

lemma signed_ex:
  "(\<exists>sg r. c # t = sg @ r \<and> sign_of sg \<and> P sg r) \<longleftrightarrow>
    P [] (c # t) \<or> ((c = CHR ''+'' \<or> c = CHR ''-'') \<and> P [c] t)" (is "?l \<longleftrightarrow> ?r")
proof
  assume ?l
  then show ?r by (auto simp: sign_of_def Cons_eq_append_conv)
next
  assume ?r
  then consider "P [] (c # t)" | "c = CHR ''+'' \<or> c = CHR ''-''" "P [c] t" by blast
  then show ?l
  proof cases
    case 1
    then show ?thesis by (intro exI [of _ "[]"] exI [of _ "c # t"]) (simp add: sign_of_def)
  next
    case 2
    then show ?thesis by (intro exI [of _ "[c]"] exI [of _ t]) (auto simp: sign_of_def)
  qed
qed

text \<open>
  C38. The syntax checks accept exactly an optional sign followed by digits, and an optional sign
  followed by digits with at most one point among them, the string not starting with a point.
  A sign alone passes both.
\<close>

theorem syntax_checks:
  "(is_decimal_string s \<longleftrightarrow> cstr s \<noteq> [] \<and>
      (\<exists>sg ds. cstr s = sg @ ds \<and> sign_of sg \<and> list_all isdigit ds)) \<and>
   (is_real_string s \<longleftrightarrow> cstr s \<noteq> [] \<and> hd (cstr s) \<noteq> CHR ''.'' \<and>
      (\<exists>sg r. cstr s = sg @ r \<and> sign_of sg \<and>
        (list_all isdigit r \<or>
          (\<exists>ip fp. r = ip @ CHR ''.'' # fp \<and> list_all isdigit ip \<and> list_all isdigit fp))))"
proof (cases "cstr s")
  case (Cons c t)
  have "\<not> list_all isdigit (c # t) \<and> (\<forall>ip fp. c # t \<noteq> ip @ CHR ''.'' # fp \<or> \<not> list_all isdigit ip)"
    if "c = CHR ''+'' \<or> c = CHR ''-''"
    using that by (auto simp: Cons_eq_append_conv)
  with Cons show ?thesis
    unfolding is_decimal_string_def is_real_string_def Cons signed_ex
    by (auto simp: real_chars_False)
qed (simp add: is_decimal_string_def is_real_string_def)

section \<open>Properties of searching\<close>

lemma strncmp_eq_take:
  "is_cstr n \<Longrightarrow> strncmp_eq h n (length n) \<longleftrightarrow> take (length n) h = n"
proof (induction n arbitrary: h)
  case (Cons c n)
  then show ?case by (cases h) auto
qed simp

lemma sstrstr_loop_Some:
  assumes "is_cstr n"
  shows "sstrstr_loop h n len i = Some j \<longleftrightarrow>
    i \<le> j \<and> j < len \<and> j + length n \<le> len \<and> take (length n) (drop j h) = n \<and>
    (\<forall>k. i \<le> k \<and> k < j \<longrightarrow> take (length n) (drop k h) \<noteq> n)"
proof (induction "len - i" arbitrary: i rule: less_induct)
  case less
  have eq: "sstrstr_loop h n len i =
      (if i < len \<and> i + length n \<le> len then
         (if take (length n) (drop i h) = n then Some i else sstrstr_loop h n len (i + 1)) else None)"
    by (subst sstrstr_loop.simps) (simp add: strncmp_eq_take [OF assms])
  show ?case
  proof (cases "i < len \<and> i + length n \<le> len \<and> take (length n) (drop i h) \<noteq> n")
    case True
    have split: "(\<forall>k. i \<le> k \<and> k < j \<longrightarrow> Q k) \<longleftrightarrow> (i < j \<longrightarrow> Q i) \<and> (\<forall>k. Suc i \<le> k \<and> k < j \<longrightarrow> Q k)" for Q
      by (metis Suc_leD Suc_leI le_eq_less_or_eq)
    from True have "len - Suc i < len - i" by (auto intro: diff_less_mono2)
    from True eq less [OF this] show ?thesis
      unfolding split by (cases "i = j") (auto simp: Suc_le_eq)
  next
    case False
    with eq show ?thesis by (auto simp: not_less not_le)
  qed
qed

text \<open>
  The search returns the first position at which the whole needle lies inside the
  \<open>len\<close> bytes of the block, and \<open>NULL\<close> exactly when there is none.
\<close>

theorem sstrstr_first:
  assumes "is_cstr n" and "n \<noteq> []" and "len \<le> length h"
  shows "(sstrstr h n len = Some j \<longleftrightarrow>
      j + length n \<le> len \<and> take (length n) (drop j h) = n \<and>
      (\<forall>k<j. take (length n) (drop k h) \<noteq> n)) \<and>
    (sstrstr h n len = None \<longleftrightarrow> (\<forall>u v. take len h \<noteq> u @ n @ v))"
proof -
  have some: "sstrstr h n len = Some j \<longleftrightarrow> j + length n \<le> len \<and> take (length n) (drop j h) = n \<and>
      (\<forall>k<j. take (length n) (drop k h) \<noteq> n)" for j
  proof -
    have "j < len" if "j + length n \<le> len" using assms(2) that by (cases n) simp_all
    then show ?thesis using assms(1) by (auto simp: sstrstr_def cstr_id sstrstr_loop_Some)
  qed
  have "(\<exists>j. sstrstr h n len = Some j) \<longleftrightarrow> (\<exists>u v. take len h = u @ n @ v)"
  proof
    assume "\<exists>j. sstrstr h n len = Some j"
    then obtain j where j: "j + length n \<le> len" "take (length n) (drop j h) = n" using some by blast
    then have "take (length n) (drop j (take len h)) = n" by (simp add: drop_take min_absorb1)
    then have "take len h = take j (take len h) @ n @ drop (length n) (drop j (take len h))"
      by (metis append_take_drop_id)
    then show "\<exists>u v. take len h = u @ n @ v" by blast
  next
    assume "\<exists>u v. take len h = u @ n @ v"
    then obtain u v where uv: "take len h = u @ n @ v" by blast
    let ?P = "\<lambda>j. j + length n \<le> len \<and> take (length n) (drop j h) = n"
    have l: "length u + length n \<le> len" using arg_cong [OF uv, of length] assms(3) by simp
    have "take (length n) (drop (length u) (take len h)) = n" using uv by simp
    with l have "?P (length u)" by (simp add: drop_take min_absorb1)
    then have "?P (LEAST j. ?P j)" by (rule LeastI)
    moreover have "take (length n) (drop k h) \<noteq> n" if "k < (LEAST j. ?P j)" for k
      using not_less_Least [OF that] that \<open>?P (LEAST j. ?P j)\<close> by simp
    ultimately show "\<exists>j. sstrstr h n len = Some j" using some by blast
  qed
  then have "sstrstr h n len = None \<longleftrightarrow> (\<forall>u v. take len h \<noteq> u @ n @ v)"
    by (cases "sstrstr h n len") simp_all
  with some [of j] show ?thesis by (rule conjI)
qed

theorem sstrstr_first_witness:
  "sstrstr ''VER; VER!'' ''VER'' 9 = Some 0"
  using sstrstr_first [of "''VER''" 9 "''VER; VER!''" 0] by simp

end
