(* ===== verification/Protocol.thy ===== *)
theory Protocol
  imports Hash_Table Vector Utils
begin

text \<open>
  What a connection handler works on: the socket of its client, its own record, and the
  table and the list of clients it shares with the other threads. Then the macros of
  connection.h that write the replies. The lemmas show the shape of a reply, and that the
  bytes read from a socket are, in order, the bytes the peer sent.
\<close>

section \<open>Sockets\<close>

text \<open>
  What the peer does, as \<open>recv\<close> sees it: bytes that arrive together, or a failure of the
  call. The end of the list is the peer closing the connection.
\<close>

datatype event = Data string | Failure

record sock =
  sk_in :: "event list"
  sk_out :: string

text \<open>
  One \<open>recv\<close> of at most \<open>n\<close> bytes: \<open>None\<close> is the result -1, \<open>Some []\<close> the result 0. A call
  returns bytes of one segment only, so every division of the stream into short reads is
  some list of events.
\<close>

fun recv :: "nat \<Rightarrow> event list \<Rightarrow> string option \<times> event list" where
  "recv n [] = (Some [], [])"
| "recv n (Failure # es) = (None, es)"
| "recv n (Data s # es) =
     (if s = [] then recv n es
      else (Some (take n s), if length s \<le> n then es else Data (drop n s) # es))"

definition send :: "string \<Rightarrow> sock \<Rightarrow> sock" where
  "send bytes sk = sk\<lparr>sk_out := sk_out sk @ bytes\<rparr>"

text \<open>The bytes still to come, and how many there are with the events.\<close>

fun incoming :: "event list \<Rightarrow> string" where
  "incoming [] = []"
| "incoming (Failure # es) = incoming es"
| "incoming (Data s # es) = s @ incoming es"

fun pending :: "event list \<Rightarrow> nat" where
  "pending [] = 0"
| "pending (Failure # es) = Suc (pending es)"
| "pending (Data s # es) = Suc (length s) + pending es"

definition reliable :: "event list \<Rightarrow> bool" where
  "reliable es \<longleftrightarrow> Failure \<notin> set es"

section \<open>State of a handler\<close>

record client_connection =
  cc_socket_fd :: int32
  cc_addr :: string
  cc_port :: int32
  cc_thread_id :: "64 word"
  cc_is_thread_running :: bool

text \<open>
  The state of one handler: \<open>table\<close> and \<open>clients\<close> of server.c, the record \<open>*client\<close>, its
  socket, and the heap writes past the end of a block that have happened, each with its
  number of bytes.
\<close>

record world =
  w_table :: hash_table
  w_clients :: "nat vector"
  w_client :: client_connection
  w_sock :: sock
  w_overruns :: "nat list"

definition overrun :: "nat \<Rightarrow> world \<Rightarrow> world" where
  "overrun n w = (if n = 0 then w else w\<lparr>w_overruns := w_overruns w @ [n]\<rparr>)"

definition write_client :: "string \<Rightarrow> world \<Rightarrow> world" where
  "write_client bytes w = w\<lparr>w_sock := send bytes (w_sock w)\<rparr>"

section \<open>Constants\<close>

definition MEMUNCACHED_VERSION :: string where "MEMUNCACHED_VERSION = ''1.0''"
definition MEMUNCACHED_TABLE_INITIAL_SIZE :: size_t where "MEMUNCACHED_TABLE_INITIAL_SIZE = 1000"
definition MEMUNCACHED_COMPILER :: string where "MEMUNCACHED_COMPILER = ''gcc''"
definition MEMUNCACHED_OS :: string where "MEMUNCACHED_OS = ''linux''"
definition MEMUNCACHED_HEADER :: string where
  "MEMUNCACHED_HEADER =
     ''Memuncached v'' @ MEMUNCACHED_VERSION @ '' ('' @ MEMUNCACHED_COMPILER @ '' on '' @ MEMUNCACHED_OS @ '')''"

text \<open>The length of the welcome message counts the terminator of the literal.\<close>

definition CLIENT_WELCOME_MESSAGE :: string where
  "CLIENT_WELCOME_MESSAGE = MEMUNCACHED_HEADER @ [LF, NUL]"

definition CONNECTION_RECV_LENGTH :: nat where "CONNECTION_RECV_LENGTH = 10"

definition RESPONSE_200_OK :: string where "RESPONSE_200_OK = ''200 OK''"
definition RESPONSE_400_BAD_REQUEST :: string where "RESPONSE_400_BAD_REQUEST = ''400 BAD REQUEST''"
definition RESPONSE_404_NOT_FOUND :: string where "RESPONSE_404_NOT_FOUND = ''404 NOT FOUND''"
definition RESPONSE_409_KEY_EXISTS :: string where "RESPONSE_409_KEY_EXISTS = ''409 KEY EXISTS''"
definition RESPONSE_500_SERVER_ERROR :: string where "RESPONSE_500_SERVER_ERROR = ''500 SERVER ERROR''"

lemmas response_codes = RESPONSE_200_OK_def RESPONSE_400_BAD_REQUEST_def RESPONSE_404_NOT_FOUND_def
  RESPONSE_409_KEY_EXISTS_def RESPONSE_500_SERVER_ERROR_def

section \<open>Replies\<close>

text \<open>\<open>RESPONSE_WRITE\<close>: the formatted data, preceded by its length, followed by a zero byte.\<close>

definition response_text :: "string \<Rightarrow> string \<Rightarrow> string" where
  "response_text code payload =
     code @ [CR, LF] @ fmt_d (int (length payload)) @ [CR, LF] @ payload @ [NUL, CR, LF]"

definition RESPONSE_WRITE :: "string \<Rightarrow> string \<Rightarrow> world \<Rightarrow> world" where
  "RESPONSE_WRITE code payload w = write_client (response_text code payload) w"

definition REPLY_BAD_REQUEST :: "string \<Rightarrow> world \<Rightarrow> world" where
  "REPLY_BAD_REQUEST message w = RESPONSE_WRITE RESPONSE_400_BAD_REQUEST message w"

definition REPLY_SERVER_ERROR :: "string \<Rightarrow> world \<Rightarrow> world" where
  "REPLY_SERVER_ERROR message w = RESPONSE_WRITE RESPONSE_500_SERVER_ERROR message w"

definition REPLY_NOT_FOUND :: "world \<Rightarrow> world" where
  "REPLY_NOT_FOUND w = RESPONSE_WRITE RESPONSE_404_NOT_FOUND [] w"

definition REPLY_SUCCESS :: "string \<Rightarrow> world \<Rightarrow> world" where
  "REPLY_SUCCESS payload w = RESPONSE_WRITE RESPONSE_200_OK payload w"

definition REPLY_KEY_EXISTS :: "world \<Rightarrow> world" where
  "REPLY_KEY_EXISTS w = RESPONSE_WRITE RESPONSE_409_KEY_EXISTS [] w"

lemmas reply_defs = RESPONSE_WRITE_def REPLY_BAD_REQUEST_def REPLY_SERVER_ERROR_def
  REPLY_NOT_FOUND_def REPLY_SUCCESS_def REPLY_KEY_EXISTS_def write_client_def

section \<open>Reading a socket\<close>

lemma recv_pending:
  "recv n es = (r, es') \<Longrightarrow> 0 < n \<Longrightarrow> r \<noteq> Some [] \<Longrightarrow> pending es' < pending es"
  by (induction n es arbitrary: r es' rule: recv.induct) (auto split: if_splits)

lemma recv_bound: "recv n es = (Some s, es') \<Longrightarrow> length s \<le> n"
  by (induction n es arbitrary: s es' rule: recv.induct) (auto split: if_splits)

lemma incoming_append: "incoming (es @ es') = incoming es @ incoming es'"
  by (induction es rule: incoming.induct) simp_all

lemma reliable_append: "reliable (es @ es') \<longleftrightarrow> reliable es \<and> reliable es'"
  by (auto simp: reliable_def)

lemma recv_incoming: "recv n es = (Some s, es') \<Longrightarrow> incoming es = s @ incoming es'"
  by (induction n es arbitrary: s es' rule: recv.induct) (auto split: if_splits)

lemma recv_reliable:
  assumes "reliable es"
  shows "\<exists>s es'. recv n es = (Some s, es') \<and> reliable es' \<and> (0 < n \<longrightarrow> incoming es \<noteq> [] \<longrightarrow> s \<noteq> [])"
  using assms
  by (induction n es rule: recv.induct) (auto simp: reliable_def)

lemma recv_end: "incoming es = [] \<Longrightarrow> reliable es \<Longrightarrow> recv n es = (Some [], [])"
  by (induction n es rule: recv.induct) (auto simp: reliable_def)

text \<open>
  What the reading loops rely on: as long as bytes are to come, a read of a positive number
  of bytes returns the next of them, at least one and at most as many as asked for; when
  none is, it returns none and nothing changes any more.
\<close>

locale byte_stream =
  fixes rd :: "nat \<Rightarrow> 's \<Rightarrow> string option \<times> 's"
    and rest :: "'s \<Rightarrow> string"
    and good :: "'s \<Rightarrow> bool"
  assumes rd_more: "good s \<Longrightarrow> 0 < n \<Longrightarrow> rest s \<noteq> [] \<Longrightarrow>
      \<exists>c s'. rd n s = (Some c, s') \<and> good s' \<and> c \<noteq> [] \<and> length c \<le> n \<and> rest s = c @ rest s'"
    and rd_end: "good s \<Longrightarrow> rest s = [] \<Longrightarrow> \<exists>s'. rd n s = (Some [], s') \<and> good s' \<and> rest s' = []"
begin

lemma rd_good: "good s \<Longrightarrow> 0 < n \<Longrightarrow> rd n s = (r, s') \<Longrightarrow> good s' \<and> r \<noteq> None"
  using rd_more [of s n] rd_end [of s n] by (cases "rest s = []") auto

lemma rd_prefix:
  assumes "good s" "0 < n" "rd n s = (Some c, s')"
  shows "rest s = c @ rest s'" "length c \<le> n" "c = [] \<longleftrightarrow> rest s = []"
  using rd_more [OF assms(1,2)] rd_end [OF assms(1), of n] assms(3) by (cases "rest s = []"; auto)+

lemma rd_shorter:
  assumes "good s" "0 < n" "rest s \<noteq> []" "rd n s = (r, s')"
  shows "length (rest s') < length (rest s)"
  using rd_more [OF assms(1-3)] assms(4) by auto

end

interpretation socket: byte_stream recv incoming reliable
proof unfold_locales
  fix es n
  assume es: "reliable es" "(0::nat) < n" "incoming es \<noteq> []"
  then obtain s es' where r: "recv n es = (Some s, es')" "reliable es'" "s \<noteq> []"
    using recv_reliable [OF es(1), of n] by auto
  then show "\<exists>c s'. recv n es = (Some c, s') \<and> reliable s' \<and> c \<noteq> [] \<and> length c \<le> n \<and>
      incoming es = c @ incoming s'"
    using recv_bound recv_incoming by blast
next
  fix es n
  assume "reliable es" "incoming es = []"
  then show "\<exists>s'. recv n es = (Some [], s') \<and> reliable s' \<and> incoming s' = []"
    by (simp add: recv_end reliable_def)
qed

text \<open>Frame rules: what a reply leaves alone.\<close>

lemma write_client_simps [simp]:
  "w_table (write_client b w) = w_table w" "w_clients (write_client b w) = w_clients w"
  "w_client (write_client b w) = w_client w" "w_overruns (write_client b w) = w_overruns w"
  "sk_in (w_sock (write_client b w)) = sk_in (w_sock w)"
  "sk_out (w_sock (write_client b w)) = sk_out (w_sock w) @ b"
  by (simp_all add: write_client_def send_def)

lemma overrun_simps [simp]:
  "overrun 0 w = w" "w_table (overrun n w) = w_table w" "w_clients (overrun n w) = w_clients w"
  "w_client (overrun n w) = w_client w" "w_sock (overrun n w) = w_sock w"
  by (simp_all add: overrun_def)

end
