(* ===== verification/Commands.thy ===== *)
theory Commands
  imports Protocol
begin

text \<open>
  The commands of connection.c, from \<open>memuncached_bye\<close> to \<open>memuncached_add\<close>: each works on
  the table and writes one reply. The lemmas show the reply and the table after each command,
  on every branch.
\<close>

section \<open>Arithmetic of int\<close>

definition to_int :: "'a :: len word \<Rightarrow> int" where
  "to_int w = sint (word_of_int (sint w) :: int32)"

definition int_ok :: "int \<Rightarrow> bool" where
  "int_ok i \<longleftrightarrow> - (2 ^ 31) \<le> i \<and> i < 2 ^ 31"

section \<open>Commands without arguments\<close>

definition memuncached_bye :: "world \<Rightarrow> world" where
  "memuncached_bye w =
     (let w = REPLY_SUCCESS ''bye.'' w
      in w\<lparr>w_client := (w_client w)\<lparr>cc_is_thread_running := False\<rparr>\<rparr>)"

text \<open>Both counts are of type \<open>size_t\<close> and printed with \<open>%d\<close>.\<close>

definition memuncached_stt :: "world \<Rightarrow> world" where
  "memuncached_stt w =
     REPLY_SUCCESS
       (''Client-Count: '' @ fmt_d (to_int (v_count (w_clients w))) @ [LF] @
        ''Key-Count: '' @ fmt_d (to_int (ht_count (w_table w)))) w"

definition memuncached_ver :: "world \<Rightarrow> world" where
  "memuncached_ver w = REPLY_SUCCESS MEMUNCACHED_VERSION w"

section \<open>GET and DEL\<close>

text \<open>The first two lines of the reply that carries a value: the code, the length and the type.\<close>

definition value_header :: "int \<Rightarrow> cache_value_type \<Rightarrow> string" where
  "value_header payload_len type =
     RESPONSE_200_OK @ [CR, LF] @ fmt_d payload_len @ [SP] @ fmt_d (uint type) @ [CR, LF]"

definition value_reply :: "cache_value_type \<Rightarrow> string \<Rightarrow> string" where
  "value_reply type payload = value_header (int (length payload)) type @ payload @ [NUL, CR, LF]"

text \<open>
  The reply for a string is put together in a block of \<open>header_len + payload_len + 3\<close> bytes.
  The last \<open>sprintf\<close> writes the zero byte, the line break and a terminator.
\<close>

definition string_reply :: "cache_value \<Rightarrow> heap_block res" where
  "string_reply cv =
     (let payload_len = to_int (cv_length cv);
          header = value_header payload_len (cv_type cv);
          header_len = int (length header);
          buffer_len = header_len + payload_len + 3
      in case cv_value cv of
           VString s \<Rightarrow>
             if \<not> int_ok buffer_len then Inl SignedOverflow
             else if payload_len < 0 \<or> int (length s) < payload_len then Inl OutOfBounds
             else
               Inr (put_bytes (nat (header_len + payload_len)) [NUL, CR, LF, NUL]
                     (put_bytes (nat header_len) (take (nat payload_len) s)
                       (put_bytes 0 (header @ [NUL]) (calloc_block (nat buffer_len)))))
         | v \<Rightarrow> Inl (bad_read v))"

definition memuncached_get :: "string \<Rightarrow> world \<Rightarrow> world res" where
  "memuncached_get key w =
     bind_res (hash_table_get (w_table w) key) (\<lambda>cache_value.
       case cache_value of
         None \<Rightarrow> Inr (REPLY_NOT_FOUND w)
       | Some cv \<Rightarrow>
           if cv_type cv = CACHE_VALUE_DECIMAL then
             (case cv_value cv of
                VDecimal d \<Rightarrow> Inr (write_client (value_reply (cv_type cv) (fmt_d (sint d))) w)
              | v \<Rightarrow> Inl (bad_read v))
           else if cv_type cv = CACHE_VALUE_REAL then
             (case cv_value cv of
                VReal r \<Rightarrow> Inr (write_client (value_reply (cv_type cv) (fmt_lf r)) w)
              | v \<Rightarrow> Inl (bad_read v))
           else if cv_type cv = CACHE_VALUE_STRING then
             map_res (\<lambda>(buffer, over). write_client buffer (overrun over w)) (string_reply cv)
           else Inr (REPLY_SUCCESS [] w))"

definition memuncached_del :: "string \<Rightarrow> world \<Rightarrow> world res" where
  "memuncached_del key w =
     bind_res (memuncached_get key w) (\<lambda>w.
       map_res (\<lambda>(t, _). w\<lparr>w_table := t\<rparr>) (hash_table_del (w_table w) key))"

section \<open>INC and DEC\<close>

text \<open>The character at an index of a string, its terminator included.\<close>

definition char_at :: "string \<Rightarrow> nat \<Rightarrow> char" where
  "char_at s i = (if i < length s then s ! i else NUL)"

text \<open>
  The two commands differ in the table operation. Optional arguments are \<open>NULL\<close> when absent.
\<close>

definition memuncached_count ::
    "(hash_table \<Rightarrow> string \<Rightarrow> double \<Rightarrow> (hash_table \<times> cache_value option) res) \<Rightarrow>
      string \<Rightarrow> string option \<Rightarrow> string option \<Rightarrow> world \<Rightarrow> world res" where
  "memuncached_count table_op key offset initial w =
     (let v_offset = (case offset of None \<Rightarrow> int_to_double 1 | Some s \<Rightarrow> atof s)
      in bind_res (table_op (w_table w) key v_offset) (\<lambda>(t, cache_value).
         bind_res
           (if cache_value = None then
              let initial_d = (case initial of None \<Rightarrow> 1 | Some s \<Rightarrow> atoll s);
                  initial_r = (case initial of None \<Rightarrow> int_to_double 1 | Some s \<Rightarrow> atof s);
                  decimal = (case initial of None \<Rightarrow> True
                    | Some s \<Rightarrow> char_at s 0 \<noteq> NUL \<and> char_at s 1 \<noteq> CHR ''.'')
              in map_res fst
                   (if decimal then hash_table_set t key CACHE_VALUE_DECIMAL (VDecimal initial_d) 0
                    else hash_table_set t key CACHE_VALUE_REAL (VReal initial_r) 0)
            else Inr t)
           (\<lambda>t. memuncached_get key (w\<lparr>w_table := t\<rparr>))))"

definition memuncached_dec :: "string \<Rightarrow> string option \<Rightarrow> string option \<Rightarrow> world \<Rightarrow> world res" where
  "memuncached_dec key offset initial w = memuncached_count hash_table_dec key offset initial w"

definition memuncached_inc :: "string \<Rightarrow> string option \<Rightarrow> string option \<Rightarrow> world \<Rightarrow> world res" where
  "memuncached_inc key offset initial w = memuncached_count hash_table_inc key offset initial w"

section \<open>SET and ADD\<close>

text \<open>
  Reading the rest of the payload: \<open>need\<close> is \<open>v_length + 2\<close>, \<open>v_len\<close> what is missing. The loop
  does not end when \<open>recv\<close> keeps returning 0; then there is no result.
\<close>

partial_function (option) recv_payload ::
    "int \<Rightarrow> int \<Rightarrow> heap_block \<Rightarrow> event list \<Rightarrow> (bool \<times> heap_block \<times> event list) option" where
  "recv_payload need v_len h es =
     (if 0 < v_len then
        (case recv (nat v_len) es of
           (None, es) \<Rightarrow> Some (False, h, es)
         | (Some s, es) \<Rightarrow>
             recv_payload need (v_len - int (length s)) (put_bytes (nat (need - v_len)) s h) es)
      else Some (True, h, es))"

text \<open>
  \<open>memcpy (payload, payload_chunk, payload_chunk_size)\<close>, where \<open>chunk\<close> is the command block from
  \<open>payload_chunk\<close> to its end.
\<close>

definition copy_chunk :: "heap_block option \<Rightarrow> string \<Rightarrow> int \<Rightarrow> heap_block option res" where
  "copy_chunk payload chunk chunk_size =
     (if chunk_size \<le> 0 then Inr payload
      else case payload of
             None \<Rightarrow> Inl NullDeref
           | Some h \<Rightarrow>
               if int (length chunk) < chunk_size then Inl OutOfBounds
               else Inr (Some (put_bytes 0 (take (nat chunk_size) chunk) h)))"

text \<open>What follows the reading of the payload.\<close>

definition store_payload ::
    "string \<Rightarrow> string \<Rightarrow> int \<Rightarrow> string option \<Rightarrow> bool \<Rightarrow> world \<Rightarrow> world res" where
  "store_payload key type v_length payload overwrite w =
     bind_res (if overwrite then Inr None else hash_table_get (w_table w) key) (\<lambda>old.
       if \<not> overwrite \<and> old \<noteq> None then Inr (REPLY_KEY_EXISTS w)
       else
         bind_res (hash_table_del (w_table w) key) (\<lambda>(t, _).
         case payload of
           None \<Rightarrow> Inl NullDeref
         | Some p \<Rightarrow>
             if v_length < 0 then Inl OutOfBounds
             else
               let p = p[nat v_length := NUL, nat v_length + 1 := NUL];
                   v_type = word_of_int (schar (char_at type 0) - schar (CHR ''0''));
                   store = (\<lambda>v sz. map_res (\<lambda>(t, _). REPLY_SUCCESS [] (w\<lparr>w_table := t\<rparr>))
                     (hash_table_set t key v_type v sz))
               in if v_type = CACHE_VALUE_DECIMAL then store (VDecimal (atoll p)) 0
                  else if v_type = CACHE_VALUE_REAL then store (VReal (atof p)) 0
                  else if v_type = CACHE_VALUE_STRING then store (VString p) (word_of_int v_length)
                  else Inr (REPLY_BAD_REQUEST ''The argument LENGTH must be 0, 1, or 2.''
                    (w\<lparr>w_table := t\<rparr>))))"

text \<open>
  \<open>calloc_ok\<close> is the outcome of \<open>calloc\<close>, which fails in any case when the size is
  negative and so becomes a huge \<open>size_t\<close>. \<open>None\<close> is a command that does not return.
\<close>

definition memuncached_set ::
    "bool \<Rightarrow> string \<Rightarrow> string \<Rightarrow> string \<Rightarrow> string \<Rightarrow> int \<Rightarrow> bool \<Rightarrow> world \<Rightarrow> world res option" where
  "memuncached_set calloc_ok key type len payload_chunk payload_chunk_size overwrite w =
     (let v_length = to_int (atol len);
          need = v_length + 2;
          v_len = need - payload_chunk_size
      in if \<not> int_ok need then Some (Inl SignedOverflow)
         else
           let payload = (if calloc_ok \<and> 0 \<le> need then Some (calloc_block (nat need)) else None);
               w = (if payload = None then REPLY_SERVER_ERROR ''Calloc failed.'' w else w)
           in case copy_chunk payload payload_chunk payload_chunk_size of
                Inl e \<Rightarrow> Some (Inl e)
              | Inr None \<Rightarrow>
                  if \<not> int_ok v_len then Some (Inl SignedOverflow)
                  else if 0 < v_len then Some (Inl NullDeref)
                  else Some (store_payload key type v_length None overwrite w)
              | Inr (Some h) \<Rightarrow>
                  if \<not> int_ok v_len then Some (Inl SignedOverflow)
                  else map_option
                    (\<lambda>(ok, (p, over), es).
                       let w = overrun over (w\<lparr>w_sock := (w_sock w)\<lparr>sk_in := es\<rparr>\<rparr>)
                       in if ok then store_payload key type v_length (Some p) overwrite w
                          else Inr (REPLY_SERVER_ERROR ''Read failed.'' w))
                    (recv_payload need v_len h (sk_in (w_sock w))))"

definition memuncached_add ::
    "bool \<Rightarrow> string \<Rightarrow> string \<Rightarrow> string \<Rightarrow> string \<Rightarrow> int \<Rightarrow> world \<Rightarrow> world res option" where
  "memuncached_add calloc_ok key type len payload_chunk payload_chunk_size w =
     memuncached_set calloc_ok key type len payload_chunk payload_chunk_size False w"

section \<open>Reading the payload\<close>

lemma to_int_small:
  assumes "unat (w :: size_t) < 2 ^ 31"
  shows "to_int w = int (unat w)"
proof -
  have "sint w = int (unat w)" using assms by (intro sint_small64) simp
  moreover have "int (unat w) < int (2 ^ 31)" using assms by (simp only: of_nat_less_iff)
  moreover have "- (2 ^ 31) \<le> int (unat w)" by (rule order_trans [of _ 0]) simp_all
  ultimately show ?thesis unfolding to_int_def
    using sint_word_of_int32 [of "int (unat w)"] by simp
qed

lemma put_bytes_append:
  "length p = i \<Longrightarrow> put_bytes i xs (p @ q, k) =
    (p @ take (length q) (xs @ drop (length xs) q), max k (length xs - length q))"
  by (auto simp: write_at_def)

lemmas recv_payload_simps = recv_payload.simps [of _ _ "(b, k)" for b k]

lemma recv_payload_done [simp]: "v_len \<le> 0 \<Longrightarrow> recv_payload need v_len h es = Some (True, h, es)"
  by (subst recv_payload.simps) simp

text \<open>The loop returns once the peer has sent the missing bytes, however they are divided.\<close>

lemma recv_payload_ok:
  assumes "reliable es" and "v_len \<le> length (incoming es)" and "length q = v_len"
    and "need = int (length p + v_len)"
  shows "\<exists>es'. recv_payload need (int v_len) (p @ q, k) es =
      Some (True, (p @ take v_len (incoming es), k), es') \<and>
    reliable es' \<and> incoming es' = drop v_len (incoming es)"
  using assms
proof (induction v_len arbitrary: p q es rule: less_induct)
  case (less v)
  show ?case
  proof (cases "v = 0")
    case False
    then have v: "0 < v" "incoming es \<noteq> []" using less.prems(2) by auto
    obtain c es1 where c: "recv v es = (Some c, es1)" "reliable es1" "c \<noteq> []" "length c \<le> v"
        "incoming es = c @ incoming es1"
      using socket.rd_more [OF less.prems(1) v] by blast
    define v' where "v' = v - length c"
    have v': "v' < v" "int v - int (length c) = int v'" using c(3,4) v(1)
      by (simp_all add: v'_def of_nat_diff)
    have put: "put_bytes (length p) c (p @ q, k) = ((p @ c) @ drop (length c) q, k)"
      using c(4) less.prems(3) by (simp add: put_bytes_append del: put_bytes.simps)
    have n: "need = int (length (p @ c) + v')" "nat (need - int v) = length p"
      using less.prems(4) c(4) by (simp_all add: v'_def)
    have step: "recv_payload need (int v) (p @ q, k) es =
        recv_payload need (int v') ((p @ c) @ drop (length c) q, k) es1"
      using v(1) c(1) v'(2) put n(2)
      by (subst recv_payload.simps) (simp del: put_bytes.simps)
    have "length (drop (length c) q) = v'" "v' \<le> length (incoming es1)"
      using less.prems(2,3) c(4,5) by (auto simp: v'_def)
    from less.IH [OF v'(1) c(2) this(2,1) n(1)] show ?thesis
      unfolding step using c(4,5) by (auto simp: v'_def)
  qed (use less.prems in simp)
qed

text \<open>And only then: without them it has no result.\<close>

lemma recv_payload_needs:
  "recv_payload need v_len h es = Some r \<Longrightarrow> reliable es \<Longrightarrow> v_len \<le> int (length (incoming es))"
proof (induction need v_len h es r rule: recv_payload.raw_induct [rotated 1, consumes 1])
  case (1 f need v_len h es r)
  show ?case
  proof (cases "0 < v_len")
    case True
    obtain c es1 where c: "recv (nat v_len) es = (Some c, es1)" "reliable es1" "incoming es = c @ incoming es1"
      using recv_reliable [OF 1(3), of "nat v_len"] recv_incoming by blast
    from 1(2) True c(1) have "f need (v_len - int (length c)) (put_bytes (nat (need - v_len)) c h) es1 = Some r"
      by simp
    from 1(1) [OF this c(2)] c(3) show ?thesis by simp
  qed simp
qed

lemma recv_payload_None_iff:
  assumes "reliable es" and "length b = need" and "v_len \<le> need"
  shows "recv_payload (int need) (int v_len) (b, k) es = None \<longleftrightarrow> length (incoming es) < v_len"
proof
  assume none: "recv_payload (int need) (int v_len) (b, k) es = None"
  show "length (incoming es) < v_len"
  proof (rule ccontr)
    assume "\<not> length (incoming es) < v_len"
    then have "v_len \<le> length (incoming es)" by simp
    from recv_payload_ok [OF assms(1) this, of "drop (need - v_len) b" "int need" "take (need - v_len) b" k]
      none assms(2,3) show False by simp
  qed
next
  assume "length (incoming es) < v_len"
  then show "recv_payload (int need) (int v_len) (b, k) es = None"
    using recv_payload_needs [OF _ assms(1), of "int need" "int v_len" "(b, k)"]
    by (cases "recv_payload (int need) (int v_len) (b, k) es") fastforce+
qed

section \<open>The reply to GET\<close>

lemma length_dec_digits: "0 < k \<Longrightarrow> n < 10 ^ k \<Longrightarrow> length (dec_digits n) \<le> k"
proof (induction k arbitrary: n)
  case (Suc k)
  show ?case
  proof (cases "n < 10")
    case True
    then show ?thesis by (simp add: dec_digits.simps)
  next
    case False
    then have "0 < k" using Suc.prems(2) by (cases k) auto
    moreover have "n div 10 < 10 ^ k" using Suc.prems(2) by (simp add: less_mult_imp_div_less mult.commute)
    ultimately have "length (dec_digits (n div 10)) \<le> k" by (rule Suc.IH)
    with False show ?thesis by (subst dec_digits.simps) simp
  qed
qed simp

lemma length_value_header:
  assumes "n < 2 ^ 31"
  shows "length (value_header (int n) CACHE_VALUE_STRING) \<le> 22"
proof -
  have "(2::nat) ^ 31 < 10 ^ 10" by simp
  with assms have "n < 10 ^ 10" by (rule less_trans)
  then have "length (dec_digits n) \<le> 10" by (intro length_dec_digits) simp_all
  then show ?thesis
    by (simp add: value_header_def RESPONSE_200_OK_def fmt_d_def CACHE_VALUE_STRING_def dec_digits.simps [of 2])
qed

lemma string_reply_ok:
  assumes "cv_type cv = CACHE_VALUE_STRING" "cv_value cv = VString s" "length s = unat (cv_length cv)"
    and "length s < 2 ^ 31 - 25"
  shows "string_reply cv = Inr (value_reply CACHE_VALUE_STRING s, 1)"
proof -
  define n h where "n = length s" and "h = value_header (int n) CACHE_VALUE_STRING"
  have n: "to_int (cv_length cv) = int n" "n < 2 ^ 31" using assms(3,4) by (simp_all add: to_int_small n_def)
  have "length h + n + 3 < 2 ^ 31" using length_value_header [OF n(2)] assms(4) by (simp add: h_def n_def)
  then have "int (length h + n + 3) < int (2 ^ 31)" by (simp only: of_nat_less_iff)
  then have ok: "int_ok (int (length h) + int n + 3)" by (simp add: int_ok_def)
  have sums: "nat (int (length h) + int n + 3) = length h + n + 3" "nat (int (length h) + int n) = length h + n"
    by simp_all
  have "string_reply cv =
      Inr (put_bytes (length h + n) [NUL, CR, LF, NUL] (put_bytes (length h) s
        (put_bytes 0 (h @ [NUL]) (calloc_block (length h + n + 3)))))"
    using ok by (simp add: string_reply_def Let_def assms(1,2) n(1) sums flip: h_def n_def del: put_bytes.simps)
  also have "put_bytes 0 (h @ [NUL]) (calloc_block (length h + n + 3)) = (h @ replicate (n + 3) NUL, 0)"
  proof -
    have "replicate (n + 3) NUL = NUL # replicate (n + 2) NUL" by (simp add: numeral_3_eq_3)
    then show ?thesis by (simp add: calloc_block_def write_at_def)
  qed
  also have "put_bytes (length h) s (h @ replicate (n + 3) NUL, 0) = ((h @ s) @ replicate 3 NUL, 0)"
    by (simp add: put_bytes_append n_def del: put_bytes.simps)
  also have "put_bytes (length h + n) [NUL, CR, LF, NUL] ((h @ s) @ replicate 3 NUL, 0) =
      ((h @ s) @ [NUL, CR, LF], 1)"
    by (subst put_bytes_append) (simp_all add: n_def numeral_3_eq_3)
  finally show ?thesis by (simp add: value_reply_def h_def n_def)
qed

text \<open>The specification of a lookup: what is sent, and the overrun of a string reply.\<close>

definition lookup :: "world \<Rightarrow> string \<Rightarrow> cache_value option" where
  "lookup w key = entries (w_table w) (bucket (w_table w) key)"

fun value_text :: "heap_value \<Rightarrow> string" where
  "value_text (VDecimal d) = fmt_d (sint d)"
| "value_text (VReal r) = fmt_lf r"
| "value_text (VString s) = s"
| "value_text _ = []"

definition entry_reply :: "cache_value option \<Rightarrow> string" where
  "entry_reply e =
     (case e of None \<Rightarrow> response_text RESPONSE_404_NOT_FOUND []
      | Some cv \<Rightarrow> value_reply (cv_type cv) (value_text (cv_value cv)))"

fun is_string :: "heap_value \<Rightarrow> bool" where
  "is_string (VString _) = True"
| "is_string _ = False"

definition entry_overrun :: "cache_value option \<Rightarrow> nat" where
  "entry_overrun e = (case e of None \<Rightarrow> 0 | Some cv \<Rightarrow> if is_string (cv_value cv) then 1 else 0)"

definition sendable :: "cache_value option \<Rightarrow> bool" where
  "sendable e \<longleftrightarrow> (\<forall>cv s. e = Some cv \<longrightarrow> cv_value cv = VString s \<longrightarrow> length s < 2 ^ 31 - 25)"

lemma memuncached_get_eq:
  assumes "ht_inv (w_table w)" and "sendable (lookup w key)"
  shows "memuncached_get key w =
    Inr (write_client (entry_reply (lookup w key)) (overrun (entry_overrun (lookup w key)) w))"
proof (cases "lookup w key")
  case None
  with assms show ?thesis
    by (simp add: memuncached_get_def hash_table_get_eq lookup_def entry_reply_def entry_overrun_def reply_defs)
next
  case (Some cv)
  then have e: "entries (w_table w) (bucket (w_table w) key) = Some cv" by (simp add: lookup_def)
  have ok: "entry_ok cv" using ht_entry_ok [OF assms(1) e] .
  show ?thesis
  proof (cases "cv_value cv")
    case (VString s)
    with ok have s: "cv_type cv = CACHE_VALUE_STRING" "length s = unat (cv_length cv)"
      by (simp_all add: entry_ok_def)
    moreover have "length s < 2 ^ 31 - 25" using assms(2) Some VString unfolding sendable_def by blast
    ultimately show ?thesis using e assms Some VString string_reply_ok [OF s(1) VString s(2)]
      by (simp add: memuncached_get_def hash_table_get_eq entry_reply_def entry_overrun_def cache_types)
  qed (use ok e assms Some in \<open>simp_all add: memuncached_get_def hash_table_get_eq entry_reply_def
      entry_overrun_def entry_ok_def cache_types\<close>)
qed

section \<open>SET and ADD\<close>

text \<open>Reading: a chunk that fits, then the missing bytes from the socket.\<close>

definition after_read :: "event list \<Rightarrow> world \<Rightarrow> world" where
  "after_read es w = w\<lparr>w_sock := (w_sock w)\<lparr>sk_in := es\<rparr>\<rparr>"

lemma after_read_simps [simp]:
  "w_table (after_read es w) = w_table w" "w_clients (after_read es w) = w_clients w"
  "w_client (after_read es w) = w_client w" "w_overruns (after_read es w) = w_overruns w"
  "sk_in (w_sock (after_read es w)) = es" "sk_out (w_sock (after_read es w)) = sk_out (w_sock w)"
  by (simp_all add: after_read_def)

lemma int_ok_nat: "n < 2 ^ 31 \<Longrightarrow> int_ok (int n)"
proof -
  assume "n < 2 ^ 31"
  then have "int n < int (2 ^ 31)" by (simp only: of_nat_less_iff)
  then show ?thesis by (simp add: int_ok_def order_trans [of _ 0])
qed

lemma copy_chunk_ok:
  assumes "cs \<le> m" and "cs \<le> length chunk"
  shows "copy_chunk (Some (calloc_block m)) chunk (int cs) =
    Inr (Some (take cs chunk @ replicate (m - cs) NUL, 0))"
  using assms put_bytes_append [of "[]" 0 "take cs chunk" "replicate m NUL" 0]
  by (auto simp: copy_chunk_def calloc_block_def simp del: put_bytes.simps)

lemma memuncached_set_reads:
  assumes "reliable (sk_in (w_sock w))" and "to_int (atol len) = int n" and "n + 2 < 2 ^ 31"
    and "cs \<le> n + 2" and "cs \<le> length chunk" and "n + 2 \<le> cs + length (incoming (sk_in (w_sock w)))"
  shows "\<exists>es'. memuncached_set True key type len chunk (int cs) overwrite w =
      Some (store_payload key type (int n)
        (Some (take cs chunk @ take (n + 2 - cs) (incoming (sk_in (w_sock w))))) overwrite (after_read es' w)) \<and>
    reliable es' \<and> incoming es' = drop (n + 2 - cs) (incoming (sk_in (w_sock w)))"
proof -
  let ?es = "sk_in (w_sock w)" and ?c = "take cs chunk" and ?v = "n + 2 - cs"
  have c: "length ?c = cs" using assms(5) by simp
  have need: "int n + 2 = int (n + 2)" "nat (int (n + 2)) = n + 2" "int (n + 2) - int cs = int ?v"
    using assms(4) by simp_all
  have ok: "int_ok (int (n + 2))" "int_ok (int ?v)" using assms(3) by (intro int_ok_nat; simp)+
  have block: "copy_chunk (Some (calloc_block (n + 2))) chunk (int cs) = Inr (Some (?c @ replicate ?v NUL, 0))"
    using assms(4,5) by (rule copy_chunk_ok)
  obtain es' where es': "recv_payload (int (n + 2)) (int ?v) (?c @ replicate ?v NUL, 0) ?es =
      Some (True, (?c @ take ?v (incoming ?es), 0), es')" "reliable es'"
      "incoming es' = drop ?v (incoming ?es)"
  proof -
    have "?v \<le> length (incoming ?es)" "int (n + 2) = int (length ?c + ?v)" using assms(4,6) c by linarith+
    from recv_payload_ok [OF assms(1) this(1) length_replicate this(2)] that show thesis by blast
  qed
  have "memuncached_set True key type len chunk (int cs) overwrite w =
      Some (store_payload key type (int n) (Some (?c @ take ?v (incoming ?es))) overwrite (after_read es' w))"
    unfolding memuncached_set_def assms(2) need Let_def
    using ok block es'(1) by (simp add: after_read_def)
  with es'(2,3) show ?thesis by blast
qed

text \<open>Storing: the value the payload stands for.\<close>

definition type_arg :: "string \<Rightarrow> cache_value_type" where
  "type_arg type = word_of_int (schar (char_at type 0) - schar (CHR ''0''))"

definition payload_value :: "cache_value_type \<Rightarrow> string \<Rightarrow> heap_value" where
  "payload_value ty data =
     (if ty = CACHE_VALUE_DECIMAL then VDecimal (atoll (data @ [NUL, NUL]))
      else if ty = CACHE_VALUE_REAL then VReal (atof (data @ [NUL, NUL]))
      else VString data)"

definition payload_entry :: "string \<Rightarrow> cache_value_type \<Rightarrow> string \<Rightarrow> cache_value" where
  "payload_entry key ty data =
     \<lparr>cv_key = key, cv_type = ty, cv_value = payload_value ty data,
      cv_length = (if ty = CACHE_VALUE_STRING then word_of_nat (length data) else 0)\<rparr>"

lemma byte_le_2: "(x :: 8 word) \<le> 2 \<Longrightarrow> x = 0 \<or> x = 1 \<or> x = 2"
  by (auto simp: word_le_nat_alt word_unat_eq_iff)

lemma terminate_block:
  assumes "length p = n + 2"
  shows "p[n := NUL, n + 1 := NUL] = take n p @ [NUL, NUL]"
proof (rule nth_equalityI)
  fix i assume "i < length (p[n := NUL, n + 1 := NUL])"
  then consider "i < n" | "i = n" | "i = Suc n" using assms by fastforce
  then show "p[n := NUL, n + 1 := NUL] ! i = (take n p @ [NUL, NUL]) ! i"
    by cases (use assms in \<open>simp_all add: nth_append min_absorb2\<close>)
qed (use assms in simp)

lemma store_payload_ok:
  assumes inv: "ht_inv (w_table w)" and free: "overwrite \<or> lookup w key = None"
    and p: "length p = n + 2" and n: "n < 2 ^ 31" and ty: "type_arg type \<le> 2"
  obtains t where
    "store_payload key type (int n) (Some p) overwrite w = Inr (REPLY_SUCCESS [] (w\<lparr>w_table := t\<rparr>))"
    "ht_inv t" "bucket t = bucket (w_table w)"
    "entries t = (entries (w_table w))(bucket (w_table w) key \<mapsto> payload_entry key (type_arg type) (take n p))"
proof -
  let ?b = "bucket (w_table w) key" and ?ty = "type_arg type"
  define q where "q = take n p @ [NUL, NUL]"
  have q: "p[n := NUL, n + 1 := NUL] = q" "take n q = take n p"
  proof -
    show "p[n := NUL, n + 1 := NUL] = q" using p unfolding q_def by (rule terminate_block)
    show "take n q = take n p" using p by (simp add: q_def)
  qed
  obtain t1 where t1: "hash_table_del (w_table w) key = Inr (t1, entries (w_table w) ?b \<noteq> None)"
      "ht_inv t1" "entries t1 = (entries (w_table w))(?b := None)" "bucket t1 = bucket (w_table w)"
    using hash_table_del_ok [OF inv] by metis
  define v sz where "v = (if ?ty = CACHE_VALUE_STRING then VString q else payload_value ?ty (take n p))"
    and "sz = (if ?ty = CACHE_VALUE_STRING then word_of_nat n else 0 :: size_t)"
  have types: "?ty = 0 \<or> ?ty = 1 \<or> ?ty = 2"
    using ty by (rule byte_le_2)
  have u: "unat (word_of_nat n :: size_t) = n" using n by (simp add: unat_of_nat)
  have st: "storable ?ty v sz" using types p u
    by (auto simp: v_def sz_def payload_value_def cache_types q_def)
  have e: "entry_of key ?ty v sz = payload_entry key ?ty (take n p)"
    using types p u q by (auto simp: v_def sz_def payload_value_def cache_types entry_of_def payload_entry_def)
  obtain t where t: "hash_table_set t1 key ?ty v sz = Inr (t, True)" "ht_inv t"
      "entries t = (entries t1)(bucket t1 key \<mapsto> entry_of key ?ty v sz)" "bucket t = bucket t1"
    using hash_table_set_ok [OF t1(2) st] by metis
  have "store_payload key type (int n) (Some p) overwrite w = Inr (REPLY_SUCCESS [] (w\<lparr>w_table := t\<rparr>))"
  proof -
    have old: "(if overwrite then Inr None else hash_table_get (w_table w) key) = Inr None"
      using free inv by (auto simp: hash_table_get_eq lookup_def)
    have "\<not> int n < 0" "nat (int n) = n" "(word_of_int (int n) :: size_t) = word_of_nat n" by simp_all
    with types t(1) show ?thesis
      unfolding store_payload_def old t1(1) type_arg_def [symmetric] v_def sz_def
      by (elim disjE) (simp_all add: q(1) [unfolded Suc_eq_plus1 [symmetric]] payload_value_def cache_types,
        simp_all add: q_def)
  qed
  then show ?thesis using that [of t] t t1 e by simp
qed

lemma memuncached_del_ok:
  assumes "ht_inv (w_table w)" and "sendable (lookup w key)"
  shows "\<exists>t. memuncached_del key w =
      Inr (write_client (entry_reply (lookup w key)) (overrun (entry_overrun (lookup w key)) w)\<lparr>w_table := t\<rparr>) \<and>
    ht_inv t \<and> entries t = (entries (w_table w))(bucket (w_table w) key := None) \<and> bucket t = bucket (w_table w) \<and>
    unat (ht_count t) = unat (ht_count (w_table w)) - (if lookup w key = None then 0 else 1)"
proof -
  obtain t where t: "hash_table_del (w_table w) key = Inr (t, lookup w key \<noteq> None)" "ht_inv t"
      "entries t = (entries (w_table w))(bucket (w_table w) key := None)" "bucket t = bucket (w_table w)"
      "unat (ht_count t) = unat (ht_count (w_table w)) - (if lookup w key = None then 0 else 1)"
    using hash_table_del_ok [OF assms(1), of key] unfolding lookup_def by metis
  then show ?thesis
    by (intro exI [of _ t]) (simp add: memuncached_del_def memuncached_get_eq [OF assms])
qed

section \<open>Properties\<close>

text \<open>A handler at the start of a connection, for the concrete cases below.\<close>

definition fresh_world :: "hash_table \<Rightarrow> event list \<Rightarrow> world" where
  "fresh_world t es =
     \<lparr>w_table = t,
      w_clients = \<lparr>v_array = replicate 10 (Ptr None), v_size = 10, v_count = 0, v_lock = False\<rparr>,
      w_client = \<lparr>cc_socket_fd = 4, cc_addr = ''127.0.0.1'', cc_port = 40000, cc_thread_id = 1,
        cc_is_thread_running = True\<rparr>,
      w_sock = \<lparr>sk_in = es, sk_out = []\<rparr>, w_overruns = []\<rparr>"

lemma fresh_world_simps [simp]:
  "w_table (fresh_world t es) = t" "sk_in (w_sock (fresh_world t es)) = es"
  "sk_out (w_sock (fresh_world t es)) = []" "w_overruns (fresh_world t es) = []"
  by (simp_all add: fresh_world_def)

text \<open>
  C23. GET of a well-formed table answers 404 with an empty payload for an empty bucket, and
  otherwise 200 with the length, the type and the text of the entry's value. It changes
  nothing, but the reply for a string overflows its buffer by exactly one byte.
\<close>

theorem get_replies:
  assumes "ht_inv (w_table w)" and "sendable (lookup w key)"
  shows "memuncached_get key w =
    Inr (write_client (entry_reply (lookup w key)) (overrun (entry_overrun (lookup w key)) w))"
  using assms by (rule memuncached_get_eq)

theorem get_replies_witness:
  "memuncached_get ''n'' (fresh_world (one_counter 42) []) =
    Inr (write_client (''200 OK'' @ [CR, LF] @ ''2 0'' @ [CR, LF] @ ''42'' @ [NUL, CR, LF])
      (fresh_world (one_counter 42) []))"
proof -
  have l: "lookup (fresh_world (one_counter 42) []) ''n'' =
      Some \<lparr>cv_key = ''n'', cv_type = CACHE_VALUE_DECIMAL, cv_value = VDecimal 42, cv_length = 0\<rparr>"
    by (simp add: lookup_def one_counter_inv)
  have d: "fmt_d 42 = ''42''" "fmt_d 2 = ''2''" "fmt_d 0 = ''0''" by code_simp+
  show ?thesis using get_replies [of "fresh_world (one_counter 42) []" "''n''"]
    by (simp add: l d one_counter_inv sendable_def entry_reply_def entry_overrun_def value_reply_def
        value_header_def RESPONSE_200_OK_def cache_types)
qed

text \<open>
  DEL answers like GET, with the value the entry had, and then empties the bucket: the
  count drops by one when there was an entry.
\<close>

theorem del_replies:
  assumes "ht_inv (w_table w)" and "sendable (lookup w key)"
  shows "\<exists>t. memuncached_del key w =
      Inr (write_client (entry_reply (lookup w key)) (overrun (entry_overrun (lookup w key)) w)\<lparr>w_table := t\<rparr>) \<and>
    ht_inv t \<and> entries t = (entries (w_table w))(bucket (w_table w) key := None) \<and>
    unat (ht_count t) = unat (ht_count (w_table w)) - (if lookup w key = None then 0 else 1)"
  using memuncached_del_ok [OF assms] by blast

theorem del_replies_witness:
  "\<exists>w. memuncached_del ''n'' (fresh_world (one_counter 42) []) = Inr w \<and> entries (w_table w) 0 = None"
proof -
  have "sendable (lookup (fresh_world (one_counter 42) []) ''n'')"
    by (simp add: sendable_def lookup_def one_counter_inv)
  with del_replies [of "fresh_world (one_counter 42) []" "''n''"] show ?thesis
    by (auto simp: one_counter_inv)
qed

text \<open>What INC and DEC store when there is nothing to count.\<close>

definition initial_value :: "string option \<Rightarrow> cache_value_type \<times> heap_value" where
  "initial_value initial =
     (case initial of
        None \<Rightarrow> (CACHE_VALUE_DECIMAL, VDecimal 1)
      | Some s \<Rightarrow> if char_at s 0 \<noteq> NUL \<and> char_at s 1 \<noteq> CHR ''.'' then (CACHE_VALUE_DECIMAL, VDecimal (atoll s))
          else (CACHE_VALUE_REAL, VReal (atof s)))"

lemma count_stores_initial:
  assumes op: "table_op (w_table w) key (case offset of None \<Rightarrow> int_to_double 1 | Some s \<Rightarrow> atof s) =
      Inr (w_table w, None)"
    and inv: "ht_inv (w_table w)"
  shows "\<exists>t. memuncached_count table_op key offset initial w =
      Inr (write_client (value_reply (fst (initial_value initial)) (value_text (snd (initial_value initial))))
        (w\<lparr>w_table := t\<rparr>)) \<and> ht_inv t \<and>
    entries t = (entries (w_table w))(bucket (w_table w) key \<mapsto>
      \<lparr>cv_key = key, cv_type = fst (initial_value initial), cv_value = snd (initial_value initial), cv_length = 0\<rparr>) \<and>
    bucket t = bucket (w_table w)"
proof -
  let ?ty = "fst (initial_value initial)" and ?v = "snd (initial_value initial)"
  have st: "storable ?ty ?v 0" "stored ?v 0 = ?v" "\<not> is_string ?v"
    by (auto simp: initial_value_def split: option.splits)
  obtain t where t: "hash_table_set (w_table w) key ?ty ?v 0 = Inr (t, True)" "ht_inv t"
      "entries t = (entries (w_table w))(bucket (w_table w) key \<mapsto> entry_of key ?ty ?v 0)"
      "bucket t = bucket (w_table w)"
    using hash_table_set_ok [OF inv st(1), of key] by metis
  let ?w = "w\<lparr>w_table := t\<rparr>"
  have l: "lookup ?w key = Some \<lparr>cv_key = key, cv_type = ?ty, cv_value = ?v, cv_length = 0\<rparr>"
    using t(3,4) st(2) by (simp add: lookup_def entry_of_def)
  have "memuncached_count table_op key offset initial w = memuncached_get key ?w"
    using op t(1) by (auto simp: memuncached_count_def initial_value_def Let_def split: option.splits if_splits)
  also have "\<dots> = Inr (write_client (value_reply ?ty (value_text ?v)) ?w)"
  proof -
    have "sendable (lookup ?w key)" using st(3) l by (auto simp: sendable_def)
    with t(2) st(3) memuncached_get_eq [of ?w key] l show ?thesis
      by (simp add: entry_reply_def entry_overrun_def)
  qed
  finally show ?thesis using t(2,3,4) st(2) by (auto simp: entry_of_def)
qed

definition countable_key :: "cache_value option \<Rightarrow> bool" where
  "countable_key e \<longleftrightarrow> (\<exists>cv. e = Some cv \<and> cv_type cv \<noteq> CACHE_VALUE_STRING)"

lemma adjust_not_countable:
  assumes "ht_inv (w_table w)" and "\<not> countable_key (lookup w key)"
  shows "hash_table_adjust f (w_table w) key x = Inr (w_table w, None)"
  using assms
  by (auto simp: hash_table_adjust_eq lookup_def countable_key_def adjust_value_def split: option.split)

text \<open>
  INC and DEC of a missing key, and of a key that holds a string, store the initial value:
  as a real when its second character is a point, otherwise as a decimal, and 1 without an
  argument. Then they answer with the value stored; an old string is gone.
\<close>

theorem counters_start:
  assumes "ht_inv (w_table w)" and "\<not> countable_key (lookup w key)"
    and "command = memuncached_inc \<or> command = memuncached_dec"
  shows "\<exists>t. command key offset initial w =
      Inr (write_client (value_reply (fst (initial_value initial)) (value_text (snd (initial_value initial))))
        (w\<lparr>w_table := t\<rparr>)) \<and> ht_inv t \<and>
    entries t = (entries (w_table w))(bucket (w_table w) key \<mapsto>
      \<lparr>cv_key = key, cv_type = fst (initial_value initial), cv_value = snd (initial_value initial), cv_length = 0\<rparr>)"
proof -
  have "\<exists>f. command = memuncached_count (hash_table_adjust f)"
    using assms(3) unfolding memuncached_inc_def [abs_def] memuncached_dec_def [abs_def]
      hash_table_inc_def [abs_def] hash_table_dec_def [abs_def] by blast
  then obtain f where "command = memuncached_count (hash_table_adjust f)" by blast
  then show ?thesis
    using count_stores_initial [where table_op = "hash_table_adjust f", OF adjust_not_countable [OF assms(1,2)] assms(1)]
    by blast
qed

theorem counters_start_witness:
  "\<exists>t. memuncached_inc ''hits'' None (Some ''2.5'') (fresh_world (hash_table_create 1000) []) =
      Inr (write_client (''200 OK'' @ [CR, LF] @ ''8 1'' @ [CR, LF] @ ''2.500000'' @ [NUL, CR, LF])
        (fresh_world t []))"
proof -
  have inv: "ht_inv (hash_table_create 1000)" "entries (hash_table_create 1000) = Map.empty"
    by (rule ht_create_inv; simp)+
  then have l: "\<not> countable_key (lookup (fresh_world (hash_table_create 1000) []) ''hits'')"
    by (simp add: lookup_def countable_key_def)
  have "initial_value (Some ''2.5'') = (CACHE_VALUE_REAL, VReal (atof ''2.5''))"
    by (simp add: initial_value_def char_at_def)
  moreover have "fmt_lf (atof ''2.5'') = ''2.500000''" by code_simp
  moreover have "fmt_d 8 = ''8''" "fmt_d 1 = ''1''" by code_simp+
  moreover have "fresh_world (hash_table_create 1000) [] \<lparr>w_table := t\<rparr> = fresh_world t []" for t
    by (simp add: fresh_world_def)
  ultimately show ?thesis
    using counters_start [of "fresh_world (hash_table_create 1000) []" "''hits''" memuncached_inc None "Some ''2.5''"]
      inv l by (auto simp: value_reply_def value_header_def RESPONSE_200_OK_def cache_types)
qed

text \<open>
  INC of a decimal answers with the sum and stores it, in the range in which counters are
  exact: without an offset the sum with one.
\<close>

theorem inc_replies_sum:
  assumes "ht_inv (w_table w)" and "lookup w key = Some cv" and "cv_value cv = VDecimal d"
    and "\<bar>sint d\<bar> \<le> 2 ^ 53" and "\<bar>n\<bar> \<le> 2 ^ 53" and "\<bar>sint d + n\<bar> \<le> 2 ^ 53"
    and "case offset of None \<Rightarrow> n = 1 | Some s \<Rightarrow> atof s = int_to_double n"
  shows "\<exists>t. memuncached_inc key offset initial w =
      Inr (write_client (value_reply CACHE_VALUE_DECIMAL (fmt_d (sint d + n))) (w\<lparr>w_table := t\<rparr>)) \<and>
    ht_inv t \<and> entries t = (entries (w_table w))(bucket (w_table w) key \<mapsto>
      cv\<lparr>cv_value := VDecimal (word_of_int (sint d + n))\<rparr>)"
proof -
  let ?cv = "cv\<lparr>cv_value := VDecimal (word_of_int (sint d + n))\<rparr>"
  have e: "entries (w_table w) (bucket (w_table w) key) = Some cv" using assms(2) by (simp add: lookup_def)
  have x: "(case offset of None \<Rightarrow> int_to_double 1 | Some s \<Rightarrow> atof s) = int_to_double n"
    using assms(7) by (auto split: option.splits)
  have ty: "cv_type cv = CACHE_VALUE_DECIMAL"
    using ht_entry_ok [OF assms(1) e] assms(3) by (simp add: entry_ok_def)
  then have ok: "entry_ok ?cv" by (simp add: entry_ok_def)
  let ?t = "(w_table w)\<lparr>ht_table := (ht_table (w_table w))[bucket (w_table w) key := Some ?cv]\<rparr>"
  note st = ht_adjust_state [OF assms(1) e ok]
  let ?w = "w\<lparr>w_table := ?t\<rparr>"
  have l: "lookup ?w key = Some ?cv" using st(2,3) by (simp add: lookup_def)
  have bounds: "- (2 ^ 63) \<le> sint d + n" "sint d + n < 2 ^ 63" using assms(6) by simp_all
  have "memuncached_inc key offset initial w = memuncached_get key ?w"
    using counters_add [OF assms(1) e assms(3-6)]
    by (simp add: memuncached_inc_def memuncached_count_def x)
  also have "\<dots> = Inr (write_client (value_reply CACHE_VALUE_DECIMAL (fmt_d (sint d + n))) ?w)"
    using memuncached_get_eq [of ?w key] st(1) ty l sint_word_of_int64 [OF bounds]
    by (simp add: sendable_def entry_reply_def entry_overrun_def)
  finally show ?thesis using st(1,2) by blast
qed

theorem inc_replies_sum_witness:
  "\<exists>t. memuncached_inc ''n'' (Some ''2'') None (fresh_world (one_counter 40) []) =
      Inr (write_client (value_reply CACHE_VALUE_DECIMAL ''42'') (fresh_world t []))"
proof -
  have "atof ''2'' = int_to_double 2" "fmt_d 42 = ''42''" by code_simp+
  moreover have "fresh_world (one_counter 40) [] \<lparr>w_table := t\<rparr> = fresh_world t []" for t
    by (simp add: fresh_world_def)
  ultimately show ?thesis
    using inc_replies_sum [of "fresh_world (one_counter 40) []" "''n''" _ 40 2 "Some ''2''" None]
    by (auto simp: one_counter_inv lookup_def)
qed

section \<open>Properties of SET and ADD\<close>

lemma set_finds_existing:
  assumes "ht_inv (w_table w)" and "reliable (sk_in (w_sock w))"
    and "to_int (atol len) = int n" and "n + 2 < 2 ^ 31"
    and "cs \<le> n + 2" and "cs \<le> length chunk" and "n + 2 \<le> cs + length (incoming (sk_in (w_sock w)))"
    and "lookup w key \<noteq> None"
  shows "\<exists>es'. memuncached_set True key type len chunk (int cs) False w =
      Some (Inr (REPLY_KEY_EXISTS (after_read es' w))) \<and> reliable es' \<and>
    incoming es' = drop (n + 2 - cs) (incoming (sk_in (w_sock w)))"
proof -
  let ?in = "incoming (sk_in (w_sock w))"
  let ?p = "take cs chunk @ take (n + 2 - cs) ?in"
  obtain es' where set: "memuncached_set True key type len chunk (int cs) False w =
      Some (store_payload key type (int n) (Some ?p) False (after_read es' w))" "reliable es'"
      "incoming es' = drop (n + 2 - cs) ?in"
    using memuncached_set_reads [OF assms(2-7)] by blast
  have "store_payload key type (int n) (Some ?p) False (after_read es' w) =
      Inr (REPLY_KEY_EXISTS (after_read es' w))"
    using assms(1,8) by (simp add: store_payload_def hash_table_get_eq lookup_def)
  with set show ?thesis by auto
qed

lemma set_stores_entry:
  assumes "ht_inv (w_table w)" and "reliable (sk_in (w_sock w))"
    and "to_int (atol len) = int n" and "n + 2 < 2 ^ 31"
    and "cs \<le> n + 2" and "cs \<le> length chunk" and "n + 2 \<le> cs + length (incoming (sk_in (w_sock w)))"
    and "type_arg type \<le> 2" and "overwrite \<or> lookup w key = None"
  shows "\<exists>t es'. memuncached_set True key type len chunk (int cs) overwrite w =
      Some (Inr (REPLY_SUCCESS [] (after_read es' w\<lparr>w_table := t\<rparr>))) \<and>
    ht_inv t \<and> bucket t = bucket (w_table w) \<and>
    entries t = (entries (w_table w))(bucket (w_table w) key \<mapsto>
      payload_entry key (type_arg type) (take n (take cs chunk @ incoming (sk_in (w_sock w))))) \<and>
    reliable es' \<and> incoming es' = drop (n + 2 - cs) (incoming (sk_in (w_sock w)))"
proof -
  let ?in = "incoming (sk_in (w_sock w))"
  let ?p = "take cs chunk @ take (n + 2 - cs) ?in"
  obtain es' where set: "memuncached_set True key type len chunk (int cs) overwrite w =
      Some (store_payload key type (int n) (Some ?p) overwrite (after_read es' w))"
      "reliable es'" "incoming es' = drop (n + 2 - cs) ?in"
    using memuncached_set_reads [OF assms(2-7)] by blast
  have p: "length ?p = n + 2" "take n ?p = take n (take cs chunk @ ?in)" using assms(5-7) by simp_all
  have pre: "ht_inv (w_table (after_read es' w))" "overwrite \<or> lookup (after_read es' w) key = None"
      "n < 2 ^ 31"
    using assms(1,4,9) by (simp_all add: lookup_def)
  obtain t where
    "store_payload key type (int n) (Some ?p) overwrite (after_read es' w) =
       Inr (REPLY_SUCCESS [] (after_read es' w\<lparr>w_table := t\<rparr>))" "ht_inv t"
    "bucket t = bucket (w_table (after_read es' w))"
    "entries t = (entries (w_table (after_read es' w)))(bucket (w_table (after_read es' w)) key \<mapsto>
       payload_entry key (type_arg type) (take n ?p))"
    using store_payload_ok [OF pre(1,2) p(1) pre(3) assms(8)] by blast
  with set p(2) show ?thesis by auto
qed

text \<open>
  C19. SET, and ADD of a free bucket, store exactly the announced number of payload bytes: those
  of the chunk that came with the command and, after them, the next ones from the socket,
  however it divides them, and skip the two bytes of the line break. They answer 200 and
  leave the rest of the stream for the next command. Nothing is written outside the blocks.
\<close>

theorem set_stores:
  assumes "ht_inv (w_table w)" and "reliable (sk_in (w_sock w))"
    and "to_int (atol len) = int n" and "n + 2 < 2 ^ 31"
    and "cs \<le> n + 2" and "cs \<le> length chunk" and "n + 2 \<le> cs + length (incoming (sk_in (w_sock w)))"
    and "type_arg type \<le> 2" and "overwrite \<or> lookup w key = None"
  shows "\<exists>t es'. memuncached_set True key type len chunk (int cs) overwrite w =
      Some (Inr (REPLY_SUCCESS [] (after_read es' w\<lparr>w_table := t\<rparr>))) \<and>
    ht_inv t \<and> bucket t = bucket (w_table w) \<and>
    entries t = (entries (w_table w))(bucket (w_table w) key \<mapsto>
      payload_entry key (type_arg type) (take n (take cs chunk @ incoming (sk_in (w_sock w))))) \<and>
    reliable es' \<and> incoming es' = drop (n + 2 - cs) (incoming (sk_in (w_sock w)))"
  using assms by (rule set_stores_entry)

theorem set_stores_witness:
  "\<exists>t es'. memuncached_set True ''k'' ''2'' ''5'' ''he'' (int 2) True
        (fresh_world (hash_table_create 1000) [Data ''l'', Data (''lo'' @ [CR]), Data (LF # ''VER'')]) =
      Some (Inr (REPLY_SUCCESS [] (fresh_world t es'))) \<and>
    entries t (bucket (hash_table_create 1000) ''k'') = Some (payload_entry ''k'' 2 ''hello'') \<and>
    incoming es' = ''VER''"
proof -
  let ?w = "fresh_world (hash_table_create 1000) [Data ''l'', Data (''lo'' @ [CR]), Data (LF # ''VER'')]"
  have "to_int (atol ''5'') = int 5" "type_arg ''2'' = 2" by code_simp+
  moreover have "ht_inv (hash_table_create 1000)" by (rule ht_create_inv) simp_all
  moreover have "after_read es ?w\<lparr>w_table := t\<rparr> = fresh_world t es" for t es
    by (simp add: after_read_def fresh_world_def)
  ultimately obtain t es' where
    "memuncached_set True ''k'' ''2'' ''5'' ''he'' (int 2) True ?w = Some (Inr (REPLY_SUCCESS [] (fresh_world t es')))"
    "entries t = (entries (hash_table_create 1000))(bucket (hash_table_create 1000) ''k'' \<mapsto> payload_entry ''k'' 2 ''hello'')"
    "incoming es' = ''VER''"
    using set_stores [of ?w "''5''" 5 2 "''he''" "''2''" True "''k''"] by (auto simp: reliable_def)
  then show ?thesis by (intro exI [of _ t] exI [of _ es']) simp
qed

text \<open>
  ADD of a key whose bucket is taken reads the payload all the same, answers 409, and
  leaves the table alone.
\<close>

theorem add_existing:
  assumes "ht_inv (w_table w)" and "reliable (sk_in (w_sock w))"
    and "to_int (atol len) = int n" and "n + 2 < 2 ^ 31"
    and "cs \<le> n + 2" and "cs \<le> length chunk" and "n + 2 \<le> cs + length (incoming (sk_in (w_sock w)))"
    and "lookup w key \<noteq> None"
  shows "\<exists>es'. memuncached_add True key type len chunk (int cs) w =
      Some (Inr (REPLY_KEY_EXISTS (after_read es' w))) \<and>
    incoming es' = drop (n + 2 - cs) (incoming (sk_in (w_sock w)))"
  using set_finds_existing [OF assms] by (auto simp: memuncached_add_def)

theorem add_existing_witness:
  "\<exists>es'. memuncached_add True ''n'' ''0'' ''1'' (''7'' @ [CR, LF]) (int 3) (fresh_world (one_counter 5) []) =
      Some (Inr (REPLY_KEY_EXISTS (fresh_world (one_counter 5) es')))"
proof -
  have "to_int (atol ''1'') = int 1" by code_simp
  moreover have "after_read es (fresh_world t es0) = fresh_world t es" for t es es0
    by (simp add: after_read_def fresh_world_def)
  ultimately show ?thesis
    using add_existing [of "fresh_world (one_counter 5) []" "''1''" 1 3 "''7'' @ [CR, LF]" "''n''" "''0''"]
    by (auto simp: one_counter_inv lookup_def reliable_def)
qed



text \<open>
  SET with a type other than 0, 1 and 2 deletes the key before the type is looked at, and
  answers 400. Only the first character of the type counts.
\<close>

theorem set_unknown_type_deletes:
  assumes "ht_inv (w_table w)" and "reliable (sk_in (w_sock w))"
    and "to_int (atol len) = int n" and "n + 2 < 2 ^ 31"
    and "cs \<le> n + 2" and "cs \<le> length chunk" and "n + 2 \<le> cs + length (incoming (sk_in (w_sock w)))"
    and "2 < type_arg type"
  shows "\<exists>t es'. memuncached_set True key type len chunk (int cs) True w =
      Some (Inr (REPLY_BAD_REQUEST ''The argument LENGTH must be 0, 1, or 2.'' (after_read es' w\<lparr>w_table := t\<rparr>))) \<and>
    ht_inv t \<and> entries t = (entries (w_table w))(bucket (w_table w) key := None)"
proof -
  obtain p es' where set: "memuncached_set True key type len chunk (int cs) True w =
      Some (store_payload key type (int n) (Some p) True (after_read es' w))"
    using memuncached_set_reads [OF assms(2-7)] by blast
  obtain t where t: "hash_table_del (w_table w) key = Inr (t, entries (w_table w) (bucket (w_table w) key) \<noteq> None)"
      "ht_inv t" "entries t = (entries (w_table w))(bucket (w_table w) key := None)"
    using hash_table_del_ok [OF assms(1)] by metis
  have "type_arg type \<noteq> 0" "type_arg type \<noteq> 1" "type_arg type \<noteq> 2" using assms(8) by auto
  with t(1) have "store_payload key type (int n) (Some p) True (after_read es' w) =
      Inr (REPLY_BAD_REQUEST ''The argument LENGTH must be 0, 1, or 2.'' (after_read es' w\<lparr>w_table := t\<rparr>))"
    unfolding store_payload_def type_arg_def [symmetric] Let_def by (simp add: cache_types)
  with set t show ?thesis by auto
qed

theorem set_unknown_type_deletes_witness:
  "\<exists>t es'. memuncached_set True ''n'' ''7'' ''1'' (''7'' @ [CR, LF]) (int 3) True (fresh_world (one_counter 5) []) =
      Some (Inr (REPLY_BAD_REQUEST ''The argument LENGTH must be 0, 1, or 2.'' (fresh_world t es'))) \<and>
    entries t 0 = None"
proof -
  let ?w = "fresh_world (one_counter 5) []"
  have "to_int (atol ''1'') = int 1" "2 < type_arg ''7''" by code_simp+
  moreover have "after_read es ?w\<lparr>w_table := t\<rparr> = fresh_world t es" for t es
    by (simp add: after_read_def fresh_world_def)
  ultimately obtain t es' where
    "memuncached_set True ''n'' ''7'' ''1'' (''7'' @ [CR, LF]) (int 3) True ?w =
      Some (Inr (REPLY_BAD_REQUEST ''The argument LENGTH must be 0, 1, or 2.'' (fresh_world t es')))"
    "entries t = (entries (one_counter 5))(0 := None)"
    using set_unknown_type_deletes [of ?w "''1''" 1 3 "''7'' @ [CR, LF]" "''7''" "''n''"]
    by (auto simp: one_counter_inv reliable_def)
  then show ?thesis by (intro exI [of _ t] exI [of _ es']) simp
qed

text \<open>
  C32. When more bytes came with the command than the payload has room for, SET copies all of
  them and overflows the payload block by the difference; it stores the announced number.
\<close>

theorem set_chunk_overflow:
  assumes "ht_inv (w_table w)" and "to_int (atol len) = int n" and "n + 2 < cs" and "cs < 2 ^ 31"
    and "cs \<le> length chunk" and "type_arg type \<le> 2"
  shows "\<exists>t. memuncached_set True key type len chunk (int cs) True w =
      Some (Inr (REPLY_SUCCESS [] (overrun (cs - (n + 2)) w\<lparr>w_table := t\<rparr>))) \<and>
    ht_inv t \<and>
    entries t = (entries (w_table w))(bucket (w_table w) key \<mapsto> payload_entry key (type_arg type) (take n chunk))"
proof -
  let ?p = "take (n + 2) chunk"
  have need: "int n + 2 = int (n + 2)" "nat (int (n + 2)) = n + 2" by simp_all
  have "int_ok (int cs)" "int_ok (int (n + 2))" using assms(3,4) by (intro int_ok_nat; simp)+
  then have ok: "int_ok (int (n + 2))" "int_ok (int (n + 2) - int cs)" "int (n + 2) - int cs \<le> 0"
    using assms(3) by (auto simp: int_ok_def)
  have "copy_chunk (Some (calloc_block (n + 2))) chunk (int cs) = Inr (Some (?p, cs - (n + 2)))"
    using assms(3,5) put_bytes_append [of "[]" 0 "take cs chunk" "replicate (n + 2) NUL" 0]
    by (auto simp: copy_chunk_def calloc_block_def min_absorb1 min_absorb2 simp del: put_bytes.simps)
  then have set: "memuncached_set True key type len chunk (int cs) True w =
      Some (store_payload key type (int n) (Some ?p) True (overrun (cs - (n + 2)) w))"
    unfolding memuncached_set_def assms(2) need Let_def using ok by simp
  have pre: "ht_inv (w_table (overrun (cs - (n + 2)) w))" "True \<or> lookup (overrun (cs - (n + 2)) w) key = None"
      "length ?p = n + 2" "n < 2 ^ 31"
    using assms by simp_all
  obtain t where "store_payload key type (int n) (Some ?p) True (overrun (cs - (n + 2)) w) =
      Inr (REPLY_SUCCESS [] (overrun (cs - (n + 2)) w\<lparr>w_table := t\<rparr>))" "ht_inv t"
    "entries t = (entries (w_table w))(bucket (w_table w) key \<mapsto> payload_entry key (type_arg type) (take n ?p))"
    using store_payload_ok [OF pre assms(6)] by auto
  with set show ?thesis by auto
qed

theorem set_chunk_overflow_witness:
  "\<exists>t. memuncached_set True ''n'' ''2'' ''1'' ''abcdefg'' (int 7) True (fresh_world (one_counter 5) []) =
      Some (Inr (REPLY_SUCCESS [] (overrun 4 (fresh_world (one_counter 5) [])\<lparr>w_table := t\<rparr>)))"
proof -
  have "to_int (atol ''1'') = int 1" "type_arg ''2'' \<le> 2" by code_simp+
  then show ?thesis
    using set_chunk_overflow [of "fresh_world (one_counter 5) []" "''1''" 1 7 "''abcdefg''" "''2''" "''n''"]
    by (auto simp: one_counter_inv)
qed

text \<open>
  The length is narrowed to \<open>int\<close>. A length that becomes negative makes SET write in front
  of its block or through \<open>NULL\<close>, and one of the two largest values overflows.
\<close>

theorem set_bad_length:
  assumes "ht_inv (w_table w)" and "reliable (sk_in (w_sock w))" and "incoming (sk_in (w_sock w)) \<noteq> []"
    and len: "to_int (atol len) = v_length"
  shows "(2 ^ 31 - 2 \<le> v_length \<longrightarrow>
      memuncached_set True key type len chunk 0 True w = Some (Inl SignedOverflow)) \<and>
    (- 2 \<le> v_length \<and> v_length < 0 \<longrightarrow>
      memuncached_set True key type len chunk 0 True w = Some (Inl OutOfBounds)) \<and>
    (v_length < - 2 \<longrightarrow>
      memuncached_set True key type len chunk 0 True w = Some (Inl NullDeref))"
proof (intro conjI impI)
  have del: "\<exists>t. hash_table_del (w_table u) key = Inr t" if "w_table u = w_table w" for u
    using hash_table_del_ok [OF assms(1)] that by metis
  {
    assume "2 ^ 31 - 2 \<le> v_length"
    then show "memuncached_set True key type len chunk 0 True w = Some (Inl SignedOverflow)"
      by (simp add: memuncached_set_def int_ok_def len)
  next
    assume "- 2 \<le> v_length \<and> v_length < 0"
    then consider "v_length = - 1" | "v_length = - 2" by linarith
    then show "memuncached_set True key type len chunk 0 True w = Some (Inl OutOfBounds)"
    proof cases
      case 1
      have "1 \<le> length (incoming (sk_in (w_sock w)))" using assms(3) by (cases "incoming (sk_in (w_sock w))") simp_all
      from recv_payload_ok [OF assms(2) this, of "[NUL]" 1 "[]" 0] obtain p es where
        "recv_payload 1 1 ([NUL], 0) (sk_in (w_sock w)) = Some (True, (p, 0), es)" by auto
      with 1 del [of "after_read es w"] show ?thesis
        by (auto simp: memuncached_set_def int_ok_def copy_chunk_def calloc_block_def store_payload_def
            after_read_def len)
    next
      case 2
      with del [of "after_read (sk_in (w_sock w)) w"] show ?thesis
        by (auto simp: memuncached_set_def int_ok_def copy_chunk_def calloc_block_def store_payload_def
            after_read_def len)
    qed
  next
    assume neg: "v_length < - 2"
    have "- (2 ^ 31) \<le> v_length" unfolding len [symmetric] to_int_def by (rule sint32_bounds)
    then show "memuncached_set True key type len chunk 0 True w = Some (Inl NullDeref)"
      using neg del [of "REPLY_SERVER_ERROR ''Calloc failed.'' w"]
      by (auto simp: memuncached_set_def int_ok_def copy_chunk_def store_payload_def reply_defs len)
  }
qed

theorem set_bad_length_witness:
  "is_decimal_string ''4294967290'' \<and>
   memuncached_set True ''n'' ''2'' ''4294967290'' [] 0 True (fresh_world (one_counter 5) [Data ''x'']) =
     Some (Inl NullDeref)"
proof -
  have "to_int (atol ''4294967290'') = - 6" "is_decimal_string ''4294967290''" by code_simp+
  with set_bad_length [of "fresh_world (one_counter 5) [Data ''x'']" "''4294967290''" "- 6" "''n''" "''2''" "[]"]
  show ?thesis by (simp add: one_counter_inv reliable_def)
qed

end
