(* ===== verification/Dispatch.thy ===== *)
theory Dispatch
  imports Commands
begin

text \<open>
  The command line of connection.c: \<open>put_null_terminator_unknown_size\<close>, the macro
  \<open>GET_NEXT_ARG\<close> and \<open>handle_command\<close>. The line is the heap block that the connection
  thread filled; it is cut into arguments in place. The lemmas show that the cutting is the
  division into words, and what each command line is answered with.
\<close>

section \<open>Cutting the line\<close>

definition is_blank :: "char \<Rightarrow> bool" where
  "is_blank c \<longleftrightarrow> c = SP \<or> c = CR \<or> c = LF"

text \<open>The two loops walk from a position of the block; leaving the block is a fault.\<close>

function skip_word :: "string \<Rightarrow> nat \<Rightarrow> nat res" where
  "skip_word b i =
     (if length b \<le> i then Inl OutOfBounds
      else if b ! i \<noteq> NUL \<and> \<not> is_blank (b ! i) then skip_word b (i + 1)
      else Inr i)"
  by pat_completeness auto

termination by (relation "measure (\<lambda>(b, i). length b - i)") auto

function zero_blanks :: "string \<Rightarrow> nat \<Rightarrow> (string \<times> nat) res" where
  "zero_blanks b i =
     (if length b \<le> i then Inl OutOfBounds
      else if is_blank (b ! i) then zero_blanks (b[i := NUL]) (i + 1)
      else Inr (b, i))"
  by pat_completeness auto

termination by (relation "measure (\<lambda>(b, i). length b - i)") auto

declare skip_word.simps [simp del] zero_blanks.simps [simp del]

definition put_null_terminator_unknown_size :: "string \<Rightarrow> nat \<Rightarrow> (string \<times> nat) res" where
  "put_null_terminator_unknown_size b itr = bind_res (skip_word b itr) (\<lambda>i. zero_blanks b i)"

text \<open>
  \<open>GET_NEXT_ARG\<close>: the argument at the position, \<open>None\<close> for \<open>NULL\<close>, and the position of the
  next one. The argument is given as the string its pointer designates.
\<close>

definition GET_NEXT_ARG :: "string \<Rightarrow> nat \<Rightarrow> (string option \<times> string \<times> nat) res" where
  "GET_NEXT_ARG b itr =
     (if length b \<le> itr then Inl OutOfBounds
      else map_res
        (\<lambda>(b', itr'). (if b ! itr = NUL then None else Some (cstr (drop itr b')), b', itr'))
        (put_null_terminator_unknown_size b itr))"

section \<open>Checking the arguments\<close>

text \<open>The reply of the first check that fails; \<open>None\<close> when all pass.\<close>

definition key_error :: "string option \<Rightarrow> string option" where
  "key_error key = (if key = None then Some ''The argument KEY is mandatory.'' else None)"

definition natural_error :: "string \<Rightarrow> string \<Rightarrow> string option" where
  "natural_error name arg =
     (if char_at arg 0 = CHR ''-'' \<or> \<not> is_decimal_string arg
      then Some (''The argument '' @ name @ '' must be positive integer.'') else None)"

definition store_args_error :: "string option \<Rightarrow> string option \<Rightarrow> string option \<Rightarrow> string option" where
  "store_args_error key type len =
     (case key_error key of Some e \<Rightarrow> Some e
      | None \<Rightarrow>
     (case type of None \<Rightarrow> Some ''The argument TYPE is mandatory.''
      | Some type \<Rightarrow>
     (case natural_error ''TYPE'' type of Some e \<Rightarrow> Some e
      | None \<Rightarrow>
     (case len of None \<Rightarrow> Some ''The argument LENGTH is mandatory.''
      | Some len \<Rightarrow> natural_error ''LENGTH'' len))))"

definition count_args_error :: "string option \<Rightarrow> string option \<Rightarrow> string option \<Rightarrow> string option" where
  "count_args_error key offset initial =
     (case key_error key of Some e \<Rightarrow> Some e
      | None \<Rightarrow>
        if (case offset of None \<Rightarrow> False
            | Some offset \<Rightarrow> char_at offset 0 = CHR ''-'' \<or> \<not> is_real_string offset)
        then Some ''The argument OFFSET must be positive real number.''
        else if (case initial of None \<Rightarrow> False | Some initial \<Rightarrow> \<not> is_real_string initial)
        then Some ''The argument INITIAL must be real number.''
        else None)"

section \<open>Dispatch\<close>

text \<open>\<open>strcasecmp (a, b) == 0\<close>.\<close>

definition strcasecmp_eq :: "string \<Rightarrow> string \<Rightarrow> bool" where
  "strcasecmp_eq a b \<longleftrightarrow> map to_lower a = map to_lower b"

text \<open>
  ADD and SET: three arguments and then the payload chunk, which is the block from the
  position reached on.
\<close>

definition handle_store ::
    "bool \<Rightarrow> bool \<Rightarrow> string \<Rightarrow> nat \<Rightarrow> int \<Rightarrow> world \<Rightarrow> world res option" where
  "handle_store calloc_ok overwrite b itr payload_chunk_size w =
     (case bind_res (GET_NEXT_ARG b itr) (\<lambda>(key, b, itr).
           bind_res (GET_NEXT_ARG b itr) (\<lambda>(type, b, itr).
           map_res (\<lambda>(len, b, itr). (key, type, len, b, itr)) (GET_NEXT_ARG b itr))) of
        Inl e \<Rightarrow> Some (Inl e)
      | Inr (key, type, len, b, itr) \<Rightarrow>
          (case store_args_error key type len of
             Some e \<Rightarrow> Some (Inr (REPLY_BAD_REQUEST e w))
           | None \<Rightarrow>
               if overwrite then
                 memuncached_set calloc_ok (the key) (the type) (the len) (drop itr b) payload_chunk_size True w
               else
                 memuncached_add calloc_ok (the key) (the type) (the len) (drop itr b) payload_chunk_size w))"

text \<open>INC and DEC: a key and two optional arguments.\<close>

definition handle_count ::
    "(string \<Rightarrow> string option \<Rightarrow> string option \<Rightarrow> world \<Rightarrow> world res) \<Rightarrow> string \<Rightarrow> nat \<Rightarrow> world \<Rightarrow> world res" where
  "handle_count command b itr w =
     bind_res (GET_NEXT_ARG b itr) (\<lambda>(key, b, itr).
     bind_res (GET_NEXT_ARG b itr) (\<lambda>(offset, b, itr).
     bind_res (GET_NEXT_ARG b itr) (\<lambda>(initial, b, itr).
       case count_args_error key offset initial of
         Some e \<Rightarrow> Inr (REPLY_BAD_REQUEST e w)
       | None \<Rightarrow> command (the key) offset initial w)))"

text \<open>GET and DEL: a key.\<close>

definition handle_key ::
    "(string \<Rightarrow> world \<Rightarrow> world res) \<Rightarrow> string \<Rightarrow> nat \<Rightarrow> world \<Rightarrow> world res" where
  "handle_key command b itr w =
     bind_res (GET_NEXT_ARG b itr) (\<lambda>(key, b, itr).
       case key_error key of
         Some e \<Rightarrow> Inr (REPLY_BAD_REQUEST e w)
       | None \<Rightarrow> command (the key) w)"

text \<open>BYE, STT and VER: no arguments.\<close>

definition handle_plain :: "(world \<Rightarrow> world) \<Rightarrow> string \<Rightarrow> nat \<Rightarrow> world \<Rightarrow> world res" where
  "handle_plain command b itr w =
     (if length b \<le> itr then Inl OutOfBounds
      else if b ! itr \<noteq> NUL then Inr (REPLY_BAD_REQUEST ''The command does not take arguments.'' w)
      else Inr (command w))"

text \<open>
  The whole line is escaped for the log first, an unknown command a second time. \<open>None\<close> is a
  command that does not return.
\<close>

definition handle_command :: "bool \<Rightarrow> string \<Rightarrow> int \<Rightarrow> world \<Rightarrow> world res option" where
  "handle_command calloc_ok command payload_chunk_size w =
     (if is_cstr command then Some (Inl OutOfBounds)
      else
        let w = overrun (snd (str_escape command)) w
        in case GET_NEXT_ARG command 0 of
             Inl e \<Rightarrow> Some (Inl e)
           | Inr (None, b, itr) \<Rightarrow> Some (Inr w)
           | Inr (Some cmd, b, itr) \<Rightarrow>
               if strcasecmp_eq cmd ''ADD'' then handle_store calloc_ok False b itr payload_chunk_size w
               else if strcasecmp_eq cmd ''BYE'' then Some (handle_plain memuncached_bye b itr w)
               else if strcasecmp_eq cmd ''DEC'' then Some (handle_count memuncached_dec b itr w)
               else if strcasecmp_eq cmd ''DEL'' then Some (handle_key memuncached_del b itr w)
               else if strcasecmp_eq cmd ''INC'' then Some (handle_count memuncached_inc b itr w)
               else if strcasecmp_eq cmd ''GET'' then Some (handle_key memuncached_get b itr w)
               else if strcasecmp_eq cmd ''SET'' then handle_store calloc_ok True b itr payload_chunk_size w
               else if strcasecmp_eq cmd ''STT'' then Some (handle_plain memuncached_stt b itr w)
               else if strcasecmp_eq cmd ''VER'' then Some (handle_plain memuncached_ver b itr w)
               else Some (Inr (REPLY_BAD_REQUEST ''Invalid command.'' (overrun (snd (str_escape cmd)) w))))"

section \<open>Cutting is division into words\<close>

definition next_word :: "string \<Rightarrow> string" where
  "next_word s = takeWhile (\<lambda>c. \<not> is_blank c) s"

definition after_word :: "string \<Rightarrow> string" where
  "after_word s = dropWhile is_blank (dropWhile (\<lambda>c. \<not> is_blank c) s)"

text \<open>Argument number \<open>k\<close> of a line: \<open>None\<close> past the last.\<close>

definition nth_arg :: "string \<Rightarrow> nat \<Rightarrow> string option" where
  "nth_arg s k = (let r = (after_word ^^ k) s in if r = [] then None else Some (next_word r))"

lemma is_blank_NUL [simp]: "\<not> is_blank NUL"
  by (simp add: is_blank_def)

lemma skip_word_append:
  "is_cstr s \<Longrightarrow> list_all (\<lambda>c. \<not> is_blank c) s \<Longrightarrow> x = NUL \<or> is_blank x \<Longrightarrow>
    skip_word (p @ s @ x # t) (length p) = Inr (length p + length s)"
proof (induction s arbitrary: p)
  case Nil
  then show ?case by (subst skip_word.simps) (auto simp: nth_append)
next
  case (Cons c s)
  from Cons.IH [of "p @ [c]"] Cons.prems show ?case
    by (subst skip_word.simps) (simp add: nth_append)
qed

lemma zero_blanks_append:
  "list_all is_blank s \<Longrightarrow> \<not> is_blank x \<Longrightarrow>
    zero_blanks (p @ s @ x # t) (length p) = Inr (p @ replicate (length s) NUL @ x # t, length p + length s)"
proof (induction s arbitrary: p)
  case Nil
  then show ?case by (subst zero_blanks.simps) (auto simp: nth_append)
next
  case (Cons c s)
  from Cons.IH [of "p @ [NUL]"] Cons.prems show ?case
    by (subst zero_blanks.simps) (simp add: nth_append list_update_append replicate_append_same)
qed

lemma is_cstr_takeWhile: "is_cstr s \<Longrightarrow> is_cstr (takeWhile P s)"
  by (auto simp: is_cstr_def dest: set_takeWhileD)

lemma takeWhile_all: "list_all P (takeWhile P s)"
  by (induction s) auto

lemma after_word_hd: "after_word s = c # r \<Longrightarrow> \<not> is_blank c"
  unfolding after_word_def by (metis hd_dropWhile list.distinct(1) list.sel(1))

lemma blanks_hd: "dropWhile (\<lambda>c. \<not> is_blank c) s = c # r \<Longrightarrow> is_blank c"
  by (metis (mono_tags, lifting) hd_dropWhile list.distinct(1) list.sel(1))

lemma GET_NEXT_ARG_append:
  assumes "is_cstr s"
  defines "n \<equiv> length s - length (after_word s)"
  shows "\<exists>b'. GET_NEXT_ARG (p @ s @ NUL # t) (length p) =
      Inr (nth_arg s 0, b', length p + n) \<and>
    (\<exists>q. length q = length p + n \<and> b' = q @ after_word s @ NUL # t)"
proof -
  define u v where "u = takeWhile (\<lambda>c. \<not> is_blank c) s"
    and "v = takeWhile is_blank (dropWhile (\<lambda>c. \<not> is_blank c) s)"
  let ?r = "after_word s"
  have s: "s = u @ v @ ?r" by (simp add: u_def v_def after_word_def)
  have n: "n = length u + length v" unfolding n_def using arg_cong [OF s, of length] by simp
  have u: "is_cstr u" "list_all (\<lambda>c. \<not> is_blank c) u" "list_all is_blank v"
    using assms(1) by (simp_all add: u_def v_def is_cstr_takeWhile takeWhile_all)
  obtain x t' where x: "?r @ NUL # t = x # t'" "\<not> is_blank x"
    by (cases ?r) (auto dest: after_word_hd)
  have vx: "\<exists>y t''. v @ x # t' = y # t'' \<and> (y = NUL \<or> is_blank y)"
  proof (cases v)
    case Nil
    then have "dropWhile (\<lambda>c. \<not> is_blank c) s = []"
      unfolding v_def using blanks_hd [of s] by (metis list.distinct(1) neq_Nil_conv takeWhile.simps(2))
    then have "?r = []" unfolding after_word_def by (simp only: dropWhile.simps)
    with Nil x show ?thesis by auto
  next
    case (Cons y t'')
    with u(3) show ?thesis by auto
  qed
  then obtain y t'' where y: "v @ x # t' = y # t''" "y = NUL \<or> is_blank y" by blast
  have line: "s @ NUL # t = u @ v @ ?r @ NUL # t" using arg_cong [OF s, of "\<lambda>l. l @ NUL # t"] by simp
  then have lines: "s @ NUL # t = u @ y # t''" "s @ NUL # t = u @ v @ x # t'" using x(1) y(1) by simp_all
  have skip: "skip_word (p @ s @ NUL # t) (length p) = Inr (length p + length u)"
    unfolding lines(1) by (rule skip_word_append [OF u(1,2) y(2)])
  have zero: "zero_blanks (p @ s @ NUL # t) (length p + length u) =
      Inr ((p @ u @ replicate (length v) NUL) @ ?r @ NUL # t, length p + n)"
    unfolding lines(2) x(1) n using zero_blanks_append [OF u(3) x(2), of "p @ u" t'] by simp
  let ?b = "(p @ u @ replicate (length v) NUL) @ ?r @ NUL # t"
  have "cstr (drop (length p) ?b) = u"
  proof (cases v)
    case Nil
    with y x have "?r @ NUL # t = y # t''" by simp
    then have "?r = [] \<or> y = hd ?r" by (cases ?r) auto
    with y(2) x Nil have "?r = []" using assms(1) s
      by (cases ?r) (auto simp: is_cstr_def)
    with Nil u(1) show ?thesis by (simp add: cstr_append_NUL)
  next
    case (Cons z v')
    with u(1) show ?thesis by (simp add: cstr_append_NUL)
  qed
  moreover have "(p @ s @ NUL # t) ! length p = NUL \<longleftrightarrow> s = []"
    using assms(1) by (cases s) (auto simp: nth_append)
  moreover have "u = next_word s" by (simp add: u_def next_word_def)
  ultimately have "GET_NEXT_ARG (p @ s @ NUL # t) (length p) = Inr (nth_arg s 0, ?b, length p + n)"
    using skip zero
    by (simp add: GET_NEXT_ARG_def put_null_terminator_unknown_size_def nth_arg_def Let_def)
  moreover have "length (p @ u @ replicate (length v) NUL) = length p + n" by (simp add: n)
  ultimately show ?thesis by blast
qed

lemma is_cstr_after_word: "is_cstr s \<Longrightarrow> is_cstr (after_word s)"
  by (auto simp: is_cstr_def after_word_def dest!: set_dropWhileD)

lemma GET_NEXT_ARG_obtain:
  assumes "is_cstr s"
  obtains q where "GET_NEXT_ARG (p @ s @ NUL # t) (length p) =
      Inr (nth_arg s 0, q @ after_word s @ NUL # t, length q)"
  using GET_NEXT_ARG_append [OF assms, of p t] by auto

lemma nth_arg_Suc: "nth_arg s (Suc k) = nth_arg (after_word s) k"
  by (simp add: nth_arg_def funpow_swap1)

section \<open>What a line means\<close>

text \<open>
  The specification: the words of a line decide. \<open>s\<close> is the line after the command word, and
  \<open>t\<close> what follows its terminator in the block.
\<close>

definition store_line ::
    "bool \<Rightarrow> bool \<Rightarrow> string \<Rightarrow> string \<Rightarrow> int \<Rightarrow> world \<Rightarrow> world res option" where
  "store_line calloc_ok overwrite s t chunk_size w =
     (case store_args_error (nth_arg s 0) (nth_arg s 1) (nth_arg s 2) of
        Some e \<Rightarrow> Some (Inr (REPLY_BAD_REQUEST e w))
      | None \<Rightarrow> memuncached_set calloc_ok (the (nth_arg s 0)) (the (nth_arg s 1)) (the (nth_arg s 2))
          ((after_word ^^ 3) s @ NUL # t) chunk_size overwrite w)"

definition count_line ::
    "(string \<Rightarrow> string option \<Rightarrow> string option \<Rightarrow> world \<Rightarrow> world res) \<Rightarrow> string \<Rightarrow> world \<Rightarrow> world res" where
  "count_line command s w =
     (case count_args_error (nth_arg s 0) (nth_arg s 1) (nth_arg s 2) of
        Some e \<Rightarrow> Inr (REPLY_BAD_REQUEST e w)
      | None \<Rightarrow> command (the (nth_arg s 0)) (nth_arg s 1) (nth_arg s 2) w)"

definition key_line :: "(string \<Rightarrow> world \<Rightarrow> world res) \<Rightarrow> string \<Rightarrow> world \<Rightarrow> world res" where
  "key_line command s w =
     (case nth_arg s 0 of
        None \<Rightarrow> Inr (REPLY_BAD_REQUEST ''The argument KEY is mandatory.'' w)
      | Some key \<Rightarrow> command key w)"

definition plain_line :: "(world \<Rightarrow> world) \<Rightarrow> string \<Rightarrow> world \<Rightarrow> world res" where
  "plain_line command s w =
     Inr (if s = [] then command w else REPLY_BAD_REQUEST ''The command does not take arguments.'' w)"

definition answer_line :: "bool \<Rightarrow> string \<Rightarrow> string \<Rightarrow> int \<Rightarrow> world \<Rightarrow> world res option" where
  "answer_line calloc_ok s t chunk_size w =
     (let w = overrun (snd (str_escape s)) w; r = after_word s
      in case nth_arg s 0 of
           None \<Rightarrow> Some (Inr w)
         | Some cmd \<Rightarrow>
            (let c = map to_lower cmd
             in if c = ''add'' then store_line calloc_ok False r t chunk_size w
                else if c = ''set'' then store_line calloc_ok True r t chunk_size w
                else if c = ''inc'' then Some (count_line memuncached_inc r w)
                else if c = ''dec'' then Some (count_line memuncached_dec r w)
                else if c = ''get'' then Some (key_line memuncached_get r w)
                else if c = ''del'' then Some (key_line memuncached_del r w)
                else if c = ''bye'' then Some (plain_line memuncached_bye r w)
                else if c = ''stt'' then Some (plain_line memuncached_stt r w)
                else if c = ''ver'' then Some (plain_line memuncached_ver r w)
                else Some (Inr (REPLY_BAD_REQUEST ''Invalid command.'' (overrun (snd (str_escape cmd)) w)))))"

lemma three_args:
  assumes "is_cstr s"
  obtains q1 q2 q3 where
    "GET_NEXT_ARG (p @ s @ NUL # t) (length p) = Inr (nth_arg s 0, q1 @ after_word s @ NUL # t, length q1)"
    "GET_NEXT_ARG (q1 @ after_word s @ NUL # t) (length q1) =
       Inr (nth_arg s 1, q2 @ after_word (after_word s) @ NUL # t, length q2)"
    "GET_NEXT_ARG (q2 @ after_word (after_word s) @ NUL # t) (length q2) =
       Inr (nth_arg s 2, q3 @ (after_word ^^ 3) s @ NUL # t, length q3)"
proof -
  note c = assms is_cstr_after_word [OF assms] is_cstr_after_word [OF is_cstr_after_word [OF assms]]
  obtain q1 where q1: "GET_NEXT_ARG (p @ s @ NUL # t) (length p) =
      Inr (nth_arg s 0, q1 @ after_word s @ NUL # t, length q1)"
    using GET_NEXT_ARG_obtain [OF c(1)] .
  obtain q2 where q2: "GET_NEXT_ARG (q1 @ after_word s @ NUL # t) (length q1) =
      Inr (nth_arg s 1, q2 @ after_word (after_word s) @ NUL # t, length q2)"
    using GET_NEXT_ARG_obtain [OF c(2), of q1 t] by (auto simp: nth_arg_Suc)
  obtain q3 where "GET_NEXT_ARG (q2 @ after_word (after_word s) @ NUL # t) (length q2) =
      Inr (nth_arg s 2, q3 @ (after_word ^^ 3) s @ NUL # t, length q3)"
    using GET_NEXT_ARG_obtain [OF c(3), of q2 t] by (auto simp: nth_arg_Suc numeral_2_eq_2 numeral_3_eq_3)
  with q1 q2 show thesis by (rule that)
qed

lemma handle_store_eq:
  assumes "is_cstr s"
  shows "handle_store calloc_ok ov (p @ s @ NUL # t) (length p) n w = store_line calloc_ok ov s t n w"
  by (rule three_args [OF assms, of p t])
    (simp add: handle_store_def store_line_def memuncached_add_def split: option.split)

lemma handle_count_eq:
  assumes "is_cstr s"
  shows "handle_count command (p @ s @ NUL # t) (length p) w = count_line command s w"
  by (rule three_args [OF assms, of p t]) (simp add: handle_count_def count_line_def split: option.split)

lemma handle_key_eq:
  assumes "is_cstr s"
  shows "handle_key command (p @ s @ NUL # t) (length p) w = key_line command s w"
proof -
  obtain q1 where "GET_NEXT_ARG (p @ s @ NUL # t) (length p) =
      Inr (nth_arg s 0, q1 @ after_word s @ NUL # t, length q1)"
    using GET_NEXT_ARG_obtain [OF assms] .
  then show ?thesis by (simp add: handle_key_def key_line_def key_error_def split: option.split)
qed

lemma handle_plain_eq:
  assumes "is_cstr s"
  shows "handle_plain command (p @ s @ NUL # t) (length p) w = plain_line command s w"
  using assms by (cases s) (auto simp: handle_plain_def plain_line_def nth_append)

lemma strcasecmp_lower:
  "strcasecmp_eq cmd ''ADD'' \<longleftrightarrow> map to_lower cmd = ''add''"
  "strcasecmp_eq cmd ''SET'' \<longleftrightarrow> map to_lower cmd = ''set''"
  "strcasecmp_eq cmd ''INC'' \<longleftrightarrow> map to_lower cmd = ''inc''"
  "strcasecmp_eq cmd ''DEC'' \<longleftrightarrow> map to_lower cmd = ''dec''"
  "strcasecmp_eq cmd ''GET'' \<longleftrightarrow> map to_lower cmd = ''get''"
  "strcasecmp_eq cmd ''DEL'' \<longleftrightarrow> map to_lower cmd = ''del''"
  "strcasecmp_eq cmd ''BYE'' \<longleftrightarrow> map to_lower cmd = ''bye''"
  "strcasecmp_eq cmd ''STT'' \<longleftrightarrow> map to_lower cmd = ''stt''"
  "strcasecmp_eq cmd ''VER'' \<longleftrightarrow> map to_lower cmd = ''ver''"
proof -
  have "map to_lower ''ADD'' = ''add''" "map to_lower ''SET'' = ''set''" "map to_lower ''INC'' = ''inc''"
    "map to_lower ''DEC'' = ''dec''" "map to_lower ''GET'' = ''get''" "map to_lower ''DEL'' = ''del''"
    "map to_lower ''BYE'' = ''bye''" "map to_lower ''STT'' = ''stt''" "map to_lower ''VER'' = ''ver''"
    by code_simp+
  then show "strcasecmp_eq cmd ''ADD'' \<longleftrightarrow> map to_lower cmd = ''add''"
    "strcasecmp_eq cmd ''SET'' \<longleftrightarrow> map to_lower cmd = ''set''"
    "strcasecmp_eq cmd ''INC'' \<longleftrightarrow> map to_lower cmd = ''inc''"
    "strcasecmp_eq cmd ''DEC'' \<longleftrightarrow> map to_lower cmd = ''dec''"
    "strcasecmp_eq cmd ''GET'' \<longleftrightarrow> map to_lower cmd = ''get''"
    "strcasecmp_eq cmd ''DEL'' \<longleftrightarrow> map to_lower cmd = ''del''"
    "strcasecmp_eq cmd ''BYE'' \<longleftrightarrow> map to_lower cmd = ''bye''"
    "strcasecmp_eq cmd ''STT'' \<longleftrightarrow> map to_lower cmd = ''stt''"
    "strcasecmp_eq cmd ''VER'' \<longleftrightarrow> map to_lower cmd = ''ver''"
    by (simp_all add: strcasecmp_eq_def)
qed

lemma str_escape_line: "is_cstr s \<Longrightarrow> str_escape (s @ NUL # t) = str_escape s"
  by (simp add: str_escape_def cstr_append_NUL cstr_id)

lemma handle_command_line:
  assumes "is_cstr s"
  shows "handle_command calloc_ok (s @ NUL # t) n w = answer_line calloc_ok s t n w"
proof -
  obtain q where q: "GET_NEXT_ARG (s @ NUL # t) 0 = Inr (nth_arg s 0, q @ after_word s @ NUL # t, length q)"
    using GET_NEXT_ARG_obtain [OF assms, of "[]" t] by auto
  note eqs = handle_store_eq handle_count_eq handle_key_eq handle_plain_eq
  note c = is_cstr_after_word [OF assms]
  have "\<not> is_cstr (s @ NUL # t)" by simp
  then show ?thesis
    unfolding handle_command_def answer_line_def q str_escape_line [OF assms]
    by (simp add: Let_def strcasecmp_lower eqs [OF c] split: option.split)
qed

lemma handle_command_words:
  "handle_command calloc_ok b n w =
    (if is_cstr b then Some (Inl OutOfBounds)
     else answer_line calloc_ok (cstr b) (drop (Suc (length (cstr b))) b) n w)"
proof (cases "is_cstr b")
  case True
  then show ?thesis by (simp add: handle_command_def)
next
  case False
  then have "dropWhile (\<lambda>c. c \<noteq> NUL) b \<noteq> []" by (auto simp: is_cstr_def dropWhile_eq_Nil_conv)
  then obtain c t where ct: "dropWhile (\<lambda>c. c \<noteq> NUL) b = c # t" by (meson neq_Nil_conv)
  moreover have "c = NUL" using hd_dropWhile [of "\<lambda>c. c \<noteq> NUL" b] ct by simp
  ultimately have b: "b = cstr b @ NUL # t" unfolding cstr_def by (metis takeWhile_dropWhile_id)
  have "drop (Suc (length (cstr b))) (cstr b @ NUL # t) = t" by simp
  then have "drop (Suc (length (cstr b))) b = t" by (simp only: b [symmetric])
  moreover have "handle_command calloc_ok b n w = answer_line calloc_ok (cstr b) t n w"
    using handle_command_line [OF is_cstr_cstr, of calloc_ok b t n w] by (simp only: b [symmetric])
  ultimately show ?thesis using False by simp
qed

text \<open>
  C15. Handling a command line, which cuts the heap block in place and checks argument by
  argument, is the same as dividing the line into words and deciding by the words: the
  first, in any case, selects the command; too few or ill-formed arguments are answered with
  400; what follows the arguments of SET and ADD in the block is their payload chunk. A
  block without a terminator is read past its end.
\<close>

theorem handle_command_by_words:
  "handle_command calloc_ok b n w =
    (if is_cstr b then Some (Inl OutOfBounds)
     else answer_line calloc_ok (cstr b) (drop (Suc (length (cstr b))) b) n w)"
  by (rule handle_command_words)

section \<open>Every command keeps the table well formed\<close>

lemma hash_table_set_inv:
  assumes "ht_inv t" and "hash_table_set t key ty v sz = Inr (t', b)" and "ty \<le> 2"
  shows "ht_inv t'"
proof -
  have ty: "ty = 0 \<or> ty = 1 \<or> ty = 2" using assms(3) by (rule byte_le_2)
  have "\<exists>old u. store_value ty v sz old = Inr u"
    using assms(2)
    by (auto simp: hash_table_set_def Let_def bind_res_Inr_iff map_res_Inr_iff split: option.splits) blast+
  then have "storable ty v sz"
    using ty by (auto simp: store_value_def cache_types split: heap_value.splits if_splits)
  then show ?thesis using hash_table_set_ok [OF assms(1), of ty v sz key] assms(2) by (metis Inr_inject prod.inject)
qed

lemma hash_table_adjust_inv:
  assumes "ht_inv t" and "hash_table_adjust f t key x = Inr (t', r)"
  shows "ht_inv t'"
proof (cases "entries t (bucket t key)")
  case None
  with assms show ?thesis by (simp add: hash_table_adjust_eq)
next
  case (Some cv)
  then have "entry_ok cv" using ht_entry_ok assms(1) by blast
  with assms Some adjust_value_ok [of cv f x] ht_adjust_state(1) [OF assms(1) Some] show ?thesis
    by (auto simp: hash_table_adjust_eq map_res_Inr_iff split: option.splits)
qed

lemma hash_table_del_inv: "ht_inv t \<Longrightarrow> hash_table_del t key = Inr (t', b) \<Longrightarrow> ht_inv t'"
  using hash_table_del_ok by (metis Inr_inject prod.inject)

lemma reply_table [simp]:
  "w_table (REPLY_BAD_REQUEST m w) = w_table w" "w_table (REPLY_SERVER_ERROR m w) = w_table w"
  "w_table (REPLY_NOT_FOUND w) = w_table w" "w_table (REPLY_SUCCESS m w) = w_table w"
  "w_table (REPLY_KEY_EXISTS w) = w_table w"
  by (simp_all add: reply_defs)

lemma reply_clients [simp]:
  "w_clients (REPLY_BAD_REQUEST m w) = w_clients w" "w_clients (REPLY_SERVER_ERROR m w) = w_clients w"
  "w_clients (REPLY_NOT_FOUND w) = w_clients w" "w_clients (REPLY_SUCCESS m w) = w_clients w"
  "w_clients (REPLY_KEY_EXISTS w) = w_clients w"
  by (simp_all add: reply_defs)

lemma reply_client [simp]:
  "w_client (REPLY_BAD_REQUEST m w) = w_client w" "w_client (REPLY_SERVER_ERROR m w) = w_client w"
  "w_client (REPLY_NOT_FOUND w) = w_client w" "w_client (REPLY_SUCCESS m w) = w_client w"
  "w_client (REPLY_KEY_EXISTS w) = w_client w"
  by (simp_all add: reply_defs)

text \<open>
  What a handler may do to the state it shares: keep the table well formed, leave the list of
  clients and the identity of its own client alone.
\<close>

definition keeps_shared :: "world \<Rightarrow> world \<Rightarrow> bool" where
  "keeps_shared w w' \<longleftrightarrow> (ht_inv (w_table w) \<longrightarrow> ht_inv (w_table w')) \<and> w_clients w' = w_clients w \<and>
     cc_thread_id (w_client w') = cc_thread_id (w_client w) \<and> cc_socket_fd (w_client w') = cc_socket_fd (w_client w)"

lemma keeps_shared_trans: "keeps_shared w w' \<Longrightarrow> keeps_shared w' w'' \<Longrightarrow> keeps_shared w w''"
  by (simp add: keeps_shared_def)

lemma keeps_shared_table:
  "(ht_inv (w_table w) \<Longrightarrow> ht_inv t) \<Longrightarrow> keeps_shared w (w\<lparr>w_table := t\<rparr>)"
  by (simp add: keeps_shared_def)

lemma keeps_shared_refl [simp]: "keeps_shared w w"
  by (simp add: keeps_shared_def)

text \<open>GET sends something, and may overrun its buffer; nothing else.\<close>

lemma get_effect:
  assumes "memuncached_get key w = Inr w'"
  shows "\<exists>bytes n. w' = write_client bytes (overrun n w)"
proof -
  obtain e where e: "hash_table_get (w_table w) key = Inr e"
    using assms by (cases "hash_table_get (w_table w) key") (simp_all add: memuncached_get_def)
  have sends: "\<exists>bytes n. write_client x w = write_client bytes (overrun n w)" for x
    by (intro exI [of _ x] exI [of _ "0 :: nat"]) simp
  show ?thesis
  proof (cases e)
    case None
    with e assms sends show ?thesis by (auto simp: memuncached_get_def reply_defs)
  next
    case (Some cv)
    with e assms sends show ?thesis
      by (cases "cv_value cv"; cases "string_reply cv")
        (auto simp: memuncached_get_def reply_defs split: if_splits)
  qed
qed

lemma memuncached_get_keeps [inv_intros]: "memuncached_get key w = Inr w' \<Longrightarrow> keeps_shared w w'"
  by (auto simp: keeps_shared_def dest!: get_effect)

lemma memuncached_del_keeps [inv_intros]:
  assumes "memuncached_del key w = Inr w'"
  shows "keeps_shared w w'"
proof -
  obtain u t b where u: "memuncached_get key w = Inr u" "hash_table_del (w_table u) key = Inr (t, b)"
    "w' = u\<lparr>w_table := t\<rparr>"
    using assms by (auto simp: memuncached_del_def bind_res_Inr_iff map_res_Inr_iff)
  have "keeps_shared u w'" unfolding u(3) using hash_table_del_inv [OF _ u(2)] by (rule keeps_shared_table)
  with memuncached_get_keeps [OF u(1)] show ?thesis by (rule keeps_shared_trans)
qed

lemma memuncached_count_alt:
  "memuncached_count table_op key offset initial w =
    bind_res (table_op (w_table w) key (case offset of None \<Rightarrow> int_to_double 1 | Some s \<Rightarrow> atof s)) (\<lambda>(t, r).
    bind_res
      (if r = None
       then map_res fst (hash_table_set t key (fst (initial_value initial)) (snd (initial_value initial)) 0)
       else Inr t)
      (\<lambda>t. memuncached_get key (w\<lparr>w_table := t\<rparr>)))"
  by (cases initial) (auto simp: memuncached_count_def initial_value_def Let_def intro!: bind_res_cong)

lemma count_keeps:
  assumes "memuncached_count (hash_table_adjust f) key offset initial w = Inr w'"
  shows "keeps_shared w w'"
proof -
  obtain t r where adj: "hash_table_adjust f (w_table w) key
      (case offset of None \<Rightarrow> int_to_double 1 | Some s \<Rightarrow> atof s) = Inr (t, r)"
    and rest: "bind_res
      (if r = None
       then map_res fst (hash_table_set t key (fst (initial_value initial)) (snd (initial_value initial)) 0)
       else Inr t)
      (\<lambda>t. memuncached_get key (w\<lparr>w_table := t\<rparr>)) = Inr w'"
    using assms by (auto simp: memuncached_count_alt bind_res_Inr_iff)
  have ty: "fst (initial_value initial) \<le> 2"
    by (auto simp: initial_value_def cache_types split: option.split)
  from rest obtain t' where get: "memuncached_get key (w\<lparr>w_table := t'\<rparr>) = Inr w'"
    and t': "t' = t \<or> (\<exists>b. hash_table_set t key (fst (initial_value initial)) (snd (initial_value initial)) 0 = Inr (t', b))"
    by (auto simp: bind_res_Inr_iff map_res_Inr_iff split: if_splits)
  have "ht_inv (w_table w) \<Longrightarrow> ht_inv t'"
    using t' hash_table_adjust_inv [OF _ adj] hash_table_set_inv [OF _ _ ty] by blast
  then show ?thesis by (rule keeps_shared_trans [OF keeps_shared_table memuncached_get_keeps [OF get]])
qed

lemma inc_dec_keeps [inv_intros]:
  "memuncached_inc key offset initial w = Inr w' \<Longrightarrow> keeps_shared w w'"
  "memuncached_dec key offset initial w = Inr w' \<Longrightarrow> keeps_shared w w'"
  using count_keeps [of "(+)"] count_keeps [of "(-)"]
  by (simp_all add: memuncached_inc_def memuncached_dec_def hash_table_inc_def [abs_def] hash_table_dec_def [abs_def])

lemma store_keeps:
  assumes "store_payload key type n p overwrite w = Inr w'"
  shows "keeps_shared w w'"
proof (cases "overwrite \<or> hash_table_get (w_table w) key = Inr None")
  case False
  then obtain cv where "hash_table_get (w_table w) key = Inr (Some cv)" "\<not> overwrite"
    using assms by (cases "hash_table_get (w_table w) key") (auto simp: store_payload_def)
  with assms show ?thesis by (auto simp: store_payload_def keeps_shared_def)
next
  case True
  then have old: "(if overwrite then Inr None else hash_table_get (w_table w) key) = Inr None" by auto
  obtain t b where t: "hash_table_del (w_table w) key = Inr (t, b)"
    using assms unfolding store_payload_def old by (cases "hash_table_del (w_table w) key") auto
  obtain q where q: "p = Some q" "\<not> n < 0"
    using assms unfolding store_payload_def old t by (cases p) (auto split: if_splits)
  have "\<exists>t'. (ht_inv t \<longrightarrow> ht_inv t') \<and> w_table w' = t' \<and> w_clients w' = w_clients w \<and> w_client w' = w_client w"
    using assms hash_table_set_inv [of t key] unfolding store_payload_def old t q(1)
    by (auto simp: Let_def q(2) map_res_Inr_iff cache_types split: if_splits)
  then show ?thesis using hash_table_del_inv [OF _ t] by (auto simp: keeps_shared_def)
qed

lemma set_keeps [inv_intros]:
  assumes "memuncached_set calloc_ok key type len chunk n overwrite w = Some (Inr w')"
  shows "keeps_shared w w'"
proof -
  have *: "keeps_shared u w'" if "store_payload key type l p overwrite u = Inr w'" for u l p
    using that by (rule store_keeps)
  show ?thesis
    using assms unfolding memuncached_set_def Let_def
    by (auto split: if_splits sum.splits option.splits prod.splits dest!: * simp: keeps_shared_def)
qed

lemma plain_keeps [inv_intros]:
  "keeps_shared w (memuncached_bye w)" "keeps_shared w (memuncached_stt w)" "keeps_shared w (memuncached_ver w)"
  by (simp_all add: keeps_shared_def memuncached_bye_def memuncached_stt_def memuncached_ver_def Let_def)

lemma keeps_shared_replies [simp]:
  "keeps_shared w (REPLY_BAD_REQUEST m w)" "keeps_shared w (overrun n w)"
  by (simp_all add: keeps_shared_def overrun_def)

lemma lines_keep:
  "store_line calloc_ok ov s t n w = Some (Inr w') \<Longrightarrow> keeps_shared w w'"
  "count_line memuncached_inc s w = Inr w' \<Longrightarrow> keeps_shared w w'"
  "count_line memuncached_dec s w = Inr w' \<Longrightarrow> keeps_shared w w'"
  "key_line memuncached_get s w = Inr w' \<Longrightarrow> keeps_shared w w'"
  "key_line memuncached_del s w = Inr w' \<Longrightarrow> keeps_shared w w'"
  "plain_line memuncached_bye s w = Inr w' \<Longrightarrow> keeps_shared w w'"
  "plain_line memuncached_stt s w = Inr w' \<Longrightarrow> keeps_shared w w'"
  "plain_line memuncached_ver s w = Inr w' \<Longrightarrow> keeps_shared w w'"
  by (auto simp: store_line_def count_line_def key_line_def plain_line_def
      split: option.splits if_splits intro: inv_intros)

lemma answer_keeps:
  assumes "answer_line calloc_ok s t n w = Some (Inr w')"
  shows "keeps_shared w w'"
proof (cases "nth_arg s 0")
  case None
  with assms show ?thesis by (auto simp: answer_line_def)
next
  case (Some cmd)
  let ?w = "overrun (snd (str_escape s)) w"
  have "keeps_shared ?w w'"
    using assms Some keeps_shared_trans [OF keeps_shared_replies(2) keeps_shared_replies(1)]
    by (auto simp: answer_line_def Let_def split: if_splits dest: lines_keep)
  then show ?thesis by (rule keeps_shared_trans [OF keeps_shared_replies(2)])
qed

lemma handle_command_keeps:
  assumes "handle_command calloc_ok b n w = Some (Inr w')"
  shows "keeps_shared w w'"
proof -
  have "answer_line calloc_ok (cstr b) (drop (Suc (length (cstr b))) b) n w = Some (Inr w')"
    using assms unfolding handle_command_words by (auto split: if_splits)
  then show ?thesis by (rule answer_keeps)
qed

text \<open>
  C20. Whatever bytes a client sends as a command line, when the handler returns and has not run
  into undefined behaviour the table is still well formed, and the list of clients is the
  same.
\<close>

theorem handle_command_invariant:
  assumes "handle_command calloc_ok b n w = Some (Inr w')" and "ht_inv (w_table w)"
  shows "ht_inv (w_table w') \<and> w_clients w' = w_clients w"
  using handle_command_keeps [OF assms(1)] assms(2) by (simp add: keeps_shared_def)

text \<open>Lines of words separated by single spaces, with a line break at the end.\<close>

definition is_word :: "string \<Rightarrow> bool" where
  "is_word s \<longleftrightarrow> s \<noteq> [] \<and> is_cstr s \<and> list_all (\<lambda>c. \<not> is_blank c) s"

lemma next_word_append:
  assumes "is_word u" and "s = [] \<or> is_blank (hd s)"
  shows "next_word (u @ s) = u" "after_word (u @ s) = dropWhile is_blank s" "u @ s \<noteq> []"
proof -
  have u: "\<And>c. c \<in> set u \<Longrightarrow> \<not> is_blank c" "u \<noteq> []"
    using assms(1) by (simp_all add: is_word_def list_all_iff)
  have s: "takeWhile (\<lambda>c. \<not> is_blank c) s = []" "dropWhile (\<lambda>c. \<not> is_blank c) s = s"
    using assms(2) by (cases s; simp)+
  show "next_word (u @ s) = u" unfolding next_word_def using u(1) s(1) by (simp add: takeWhile_append2)
  show "after_word (u @ s) = dropWhile is_blank s"
    unfolding after_word_def using u(1) s(2) by (simp add: dropWhile_append2)
  show "u @ s \<noteq> []" using u(2) by simp
qed

lemma nth_arg_word: "is_word u \<Longrightarrow> s = [] \<or> is_blank (hd s) \<Longrightarrow> nth_arg (u @ s) 0 = Some u"
  using next_word_append [of u s] by (simp add: nth_arg_def)

lemma after_word_word: "is_word u \<Longrightarrow> after_word (u @ SP # v @ s) = v @ s" if "is_word v" for u v s
  using that next_word_append(2) [of u "SP # v @ s"]
  by (cases v) (auto simp: is_word_def is_blank_def)

theorem handle_command_invariant_witness:
  "\<exists>w'. handle_command True (''ver'' @ [NUL]) 0 (fresh_world (one_counter 5) []) = Some (Inr w') \<and> ht_inv (w_table w')"
proof -
  have w: "is_word ''ver''" by (simp add: is_word_def is_blank_def)
  have "map to_lower ''ver'' = ''ver''" by code_simp
  then have "answer_line True ''ver'' [] 0 (fresh_world (one_counter 5) []) =
      Some (Inr (memuncached_ver (overrun (snd (str_escape ''ver'')) (fresh_world (one_counter 5) []))))"
    using nth_arg_word [OF w, of "[]"] next_word_append(2) [OF w, of "[]"]
    by (simp add: answer_line_def plain_line_def Let_def)
  then have "\<exists>w'. handle_command True (''ver'' @ [NUL]) 0 (fresh_world (one_counter 5) []) = Some (Inr w')"
    using handle_command_line [of "''ver''" True "[]" 0 "fresh_world (one_counter 5) []"] by simp
  then obtain w' where "handle_command True (''ver'' @ [NUL]) 0 (fresh_world (one_counter 5) []) = Some (Inr w')" ..
  with handle_command_invariant [OF this] show ?thesis by (simp add: one_counter_inv)
qed

end
