(* ===== verification/Connection.thy ===== *)
theory Connection
  imports Dispatch
begin

text \<open>
  The connection thread of connection.c: \<open>handle_connection\<close>. One step of the model is one
  test of the outer loop, or one round of the inner loop with its \<open>recv\<close>; the step that
  receives the end of a line also runs \<open>handle_command\<close>. The lemmas show the state of the
  command buffer, what a line is, and which inputs keep the thread busy for ever.
\<close>

section \<open>State of the thread\<close>

text \<open>
  The locals of the loops: the heap block \<open>command\<close>, its size \<open>command_len\<close> and the number
  \<open>command_free_len\<close> of bytes at its end that are still free.
\<close>

record line_buffer =
  lb_command :: string
  lb_command_len :: nat
  lb_command_free_len :: int

text \<open>
  Where the thread is: at the test of the outer loop, at the test of the inner loop, or behind
  both. The environment of a thread: the outcomes of \<open>realloc\<close> and \<open>calloc\<close>, and the bytes
  that a block grown by \<open>realloc\<close> has at its positions before they are written.
\<close>

datatype thread_pc = Outer | Reading line_buffer | Finished

record environment =
  env_realloc_ok :: bool
  env_calloc_ok :: bool
  env_junk :: "nat \<Rightarrow> char"

section \<open>Reading\<close>

definition new_line_buffer :: line_buffer where
  "new_line_buffer =
     \<lparr>lb_command = replicate CONNECTION_RECV_LENGTH NUL, lb_command_len = CONNECTION_RECV_LENGTH,
      lb_command_free_len = int CONNECTION_RECV_LENGTH\<rparr>"

text \<open>
  Making room for \<open>read_size\<close> bytes; \<open>None\<close> is the failure of \<open>realloc\<close>.
\<close>

definition make_room :: "environment \<Rightarrow> nat \<Rightarrow> line_buffer \<Rightarrow> line_buffer option" where
  "make_room env read_size l =
     (let free = lb_command_free_len l - int read_size;
          len = lb_command_len l
      in if free \<le> 0 then
           if env_realloc_ok env then
             Some \<lparr>lb_command = lb_command l @ map (env_junk env) [len..<2 * len],
                   lb_command_len = 2 * len, lb_command_free_len = free + int len\<rparr>
           else None
         else Some (l\<lparr>lb_command_free_len := free\<rparr>))"

text \<open>\<open>memcpy (command + command_len - command_free_len - read_size, buffer, read_size)\<close>.\<close>

definition append_chunk :: "string \<Rightarrow> line_buffer \<Rightarrow> line_buffer res" where
  "append_chunk chunk l =
     (let pos = int (lb_command_len l) - lb_command_free_len l - int (length chunk)
      in if pos < 0 \<or> int (length (lb_command l)) < pos + int (length chunk) then Inl OutOfBounds
         else Inr (l\<lparr>lb_command := write_at (nat pos) chunk (lb_command l)\<rparr>))"

text \<open>
  Overwriting the line breaks at the end: \<open>i\<close> counts down from the number of bytes received.
  When all of them are line breaks the loop goes on to read in front of the block.
\<close>

fun strip_line_end :: "string \<Rightarrow> nat \<Rightarrow> string res" where
  "strip_line_end b 0 = Inl OutOfBounds"
| "strip_line_end b (Suc i) =
     (if length b \<le> i then Inl OutOfBounds
      else if b ! i = CR \<or> b ! i = LF then strip_line_end (b[i := NUL]) i
      else Inr b)"

text \<open>
  The part behind the inner loop, when it has seen the end of a line.
\<close>

definition finish_line ::
    "environment \<Rightarrow> line_buffer \<Rightarrow> int \<Rightarrow> world \<Rightarrow> world res option" where
  "finish_line env l payload_chunk_size w =
     (case strip_line_end (lb_command l) (nat (int (lb_command_len l) - lb_command_free_len l)) of
        Inl e \<Rightarrow> Some (Inl e)
      | Inr command \<Rightarrow> handle_command (env_calloc_ok env) command payload_chunk_size w)"

section \<open>Steps\<close>

definition continue_outer :: "world res option \<Rightarrow> (thread_pc \<times> world) res option" where
  "continue_outer r = map_option (map_res (\<lambda>w. (Outer, w))) r"

text \<open>One round of the inner loop after a \<open>recv\<close> that returned the bytes \<open>chunk\<close>.\<close>

definition receive_chunk ::
    "environment \<Rightarrow> string \<Rightarrow> line_buffer \<Rightarrow> world \<Rightarrow> (thread_pc \<times> world) res option" where
  "receive_chunk env chunk l w =
     (let read_size = length chunk; line_end = sstrstr chunk [LF] read_size
      in case make_room env read_size l of
           None \<Rightarrow> Some (Inr (Outer, REPLY_SERVER_ERROR ''Realloc failed.'' w))
         | Some l \<Rightarrow>
             (case append_chunk chunk l of
                Inl e \<Rightarrow> Some (Inl e)
              | Inr l \<Rightarrow>
                  (case line_end of
                     None \<Rightarrow> Some (Inr (Reading l, w))
                   | Some i \<Rightarrow> continue_outer (finish_line env l (int read_size - (int i + 1)) w))))"

text \<open>
  A step of the thread while \<open>is_running\<close> has the given value. A \<open>recv\<close> that fails or returns
  0 ends the inner loop with \<open>is_end\<close> false, and the outer loop goes on. \<open>None\<close> is a step that
  does not return.
\<close>

definition connection_step ::
    "environment \<Rightarrow> bool \<Rightarrow> thread_pc \<Rightarrow> world \<Rightarrow> (thread_pc \<times> world) res option" where
  "connection_step env is_running pc w =
     (case pc of
        Outer \<Rightarrow>
          Some (Inr (if is_running \<and> cc_is_thread_running (w_client w) then Reading new_line_buffer else Finished, w))
      | Reading l \<Rightarrow>
          if \<not> is_running then Some (Inr (Outer, w))
          else (case recv CONNECTION_RECV_LENGTH (sk_in (w_sock w)) of
                  (None, es) \<Rightarrow> Some (Inr (Outer, w\<lparr>w_sock := (w_sock w)\<lparr>sk_in := es\<rparr>\<rparr>))
                | (Some chunk, es) \<Rightarrow>
                    (let w = w\<lparr>w_sock := (w_sock w)\<lparr>sk_in := es\<rparr>\<rparr>
                     in if chunk = [] then Some (Inr (Outer, w)) else receive_chunk env chunk l w))
      | Finished \<Rightarrow> Some (Inr (Finished, w)))"

text \<open>The thread starts by greeting its client.\<close>

definition connection_start :: "64 word \<Rightarrow> world \<Rightarrow> thread_pc \<times> world" where
  "connection_start self w =
     (Outer, write_client CLIENT_WELCOME_MESSAGE
        (w\<lparr>w_client := (w_client w)\<lparr>cc_thread_id := self\<rparr>\<rparr>))"

text \<open>
  A number of steps, and all steps up to the end of the loops; the latter has no value when the
  thread never ends.
\<close>

fun connection_steps ::
    "environment \<Rightarrow> nat \<Rightarrow> thread_pc \<times> world \<Rightarrow> (thread_pc \<times> world) res option" where
  "connection_steps env 0 s = Some (Inr s)"
| "connection_steps env (Suc n) s =
     (case connection_step env True (fst s) (snd s) of
        Some (Inr s) \<Rightarrow> connection_steps env n s
      | r \<Rightarrow> r)"

partial_function (option) connection_run ::
    "environment \<Rightarrow> thread_pc \<Rightarrow> world \<Rightarrow> world res option" where
  "connection_run env pc w =
     (case connection_step env True pc w of
        None \<Rightarrow> None
      | Some (Inl e) \<Rightarrow> Some (Inl e)
      | Some (Inr s) \<Rightarrow>
          (case s of (pc', w') \<Rightarrow> if pc' = Finished then Some (Inr w') else connection_run env pc' w'))"

text \<open>
  The rounds that read one line: all but the last end in the inner loop, and \<open>r\<close> is the result
  of the last, in which the line is handled.
\<close>

inductive line_rounds ::
    "environment \<Rightarrow> nat \<Rightarrow> thread_pc \<times> world \<Rightarrow> (thread_pc \<times> world) res option \<Rightarrow> bool" for env where
  handled: "connection_step env True pc w = continue_outer r \<Longrightarrow> line_rounds env 1 (pc, w) (continue_outer r)"
| more: "connection_step env True pc w = Some (Inr (Reading l, w')) \<Longrightarrow> line_rounds env n (Reading l, w') r \<Longrightarrow>
    line_rounds env (Suc n) (pc, w) r"

lemma line_rounds_steps: "line_rounds env n s r \<Longrightarrow> connection_steps env n s = r"
  by (induction rule: line_rounds.induct) (auto simp: continue_outer_def split: option.splits sum.splits)

section \<open>The command buffer\<close>

text \<open>
  After the bytes \<open>got\<close>: they are at the start of the block, and at least one byte behind them
  is free.
\<close>

definition lb_inv :: "environment \<Rightarrow> string \<Rightarrow> line_buffer \<Rightarrow> bool" where
  "lb_inv env got l \<longleftrightarrow>
     (\<exists>t. lb_command l = got @ t \<and> t \<noteq> [] \<and> lb_command_free_len l = int (length t) \<and>
       lb_command_len l = length got + length t \<and> CONNECTION_RECV_LENGTH \<le> lb_command_len l \<and>
       ((\<forall>i. env_junk env i = NUL) \<longrightarrow> set t \<subseteq> {NUL}))"

lemma new_line_buffer_inv: "lb_inv env [] new_line_buffer"
  by (simp add: lb_inv_def new_line_buffer_def CONNECTION_RECV_LENGTH_def)

lemma write_at_append:
  "length c \<le> length t \<Longrightarrow> write_at (length p) c (p @ t) = p @ c @ drop (length c) t"
  by (simp add: write_at_fits)

lemma receive_inv:
  assumes "lb_inv env got l" and "length c \<le> CONNECTION_RECV_LENGTH" and "env_realloc_ok env"
  shows "\<exists>l1 l2. make_room env (length c) l = Some l1 \<and> append_chunk c l1 = Inr l2 \<and> lb_inv env (got @ c) l2"
proof -
  obtain t where t: "lb_command l = got @ t" "t \<noteq> []" "lb_command_free_len l = int (length t)"
      "lb_command_len l = length got + length t" "CONNECTION_RECV_LENGTH \<le> lb_command_len l"
      "(\<forall>i. env_junk env i = NUL) \<longrightarrow> set t \<subseteq> {NUL}"
    using assms(1) unfolding lb_inv_def by blast
  have tpos: "0 < length t" using t(2) by simp
  define more where "more = (if length t \<le> length c then
      map (env_junk env) [lb_command_len l..<2 * lb_command_len l] else [])"
  let ?t = "t @ more"
  have len: "length more = (if length t \<le> length c then lb_command_len l else 0)" by (simp add: more_def)
  have room: "length c < length ?t" 
    using len assms(2) t(5) tpos unfolding length_append by (auto split: if_splits simp del: length_greater_0_conv)
  define l1 where "l1 = \<lparr>lb_command = got @ ?t, lb_command_len = length got + length ?t,
      lb_command_free_len = int (length ?t) - int (length c)\<rparr>"
  have l1: "make_room env (length c) l = Some l1"
    using t assms(3) len by (auto simp: make_room_def Let_def l1_def more_def)
  have pos: "int (length got + length ?t) - (int (length ?t) - int (length c)) - int (length c) = int (length got)"
    by simp
  have "append_chunk c l1 = Inr (l1\<lparr>lb_command := (got @ c) @ drop (length c) ?t\<rparr>)"
    using room unfolding append_chunk_def l1_def
    by (simp add: pos Let_def write_at_append del: drop_append)
  moreover have "lb_inv env (got @ c) (l1\<lparr>lb_command := (got @ c) @ drop (length c) ?t\<rparr>)"
    unfolding lb_inv_def
  proof (intro exI [of _ "drop (length c) ?t"] conjI impI)
    have "length (drop (length c) ?t) \<noteq> 0" using room unfolding length_drop by linarith
    then show "drop (length c) ?t \<noteq> []" by (simp only: length_0_conv not_False_eq_True)
    show "CONNECTION_RECV_LENGTH \<le> lb_command_len (l1\<lparr>lb_command := (got @ c) @ drop (length c) ?t\<rparr>)"
      using t(4,5) by (simp add: l1_def)
    assume junk: "\<forall>i. env_junk env i = NUL"
    have "set (drop (length c) ?t) \<subseteq> set ?t" by (rule set_drop_subset)
    also have "\<dots> \<subseteq> {NUL}" using junk t(6) by (auto simp: more_def)
    finally show "set (drop (length c) ?t) \<subseteq> {NUL}" .
  qed (use room in \<open>simp_all add: l1_def of_nat_diff\<close>)
  ultimately show ?thesis using l1 by blast
qed

lemma sstrstr_LF:
  "sstrstr c [LF] (length c) = (if LF \<in> set c then Some (length (takeWhile (\<lambda>x. x \<noteq> LF) c)) else None)"
proof (cases "LF \<in> set c")
  case True
  then obtain u v where c: "c = u @ LF # v" "LF \<notin> set u" by (blast dest: split_list_first)
  have u: "\<And>x. x \<in> set u \<Longrightarrow> x \<noteq> LF" using c(2) by blast
  have "takeWhile (\<lambda>x. x \<noteq> LF) c = u" by (simp add: c(1) takeWhile_append2 u)
  moreover have "take 1 (drop k c) \<noteq> [LF]" if "k < length u" for k
  proof -
    have "take 1 (drop k c) = [u ! k]"
      using that c(1) by (simp add: take_Suc_conv_app_nth Cons_nth_drop_Suc [symmetric] nth_append)
    moreover have "u ! k \<noteq> LF" using that c(2) nth_mem by fastforce
    ultimately show ?thesis by simp
  qed
  ultimately show ?thesis using True c(1) by (simp add: sstrstr_def cstr_def sstrstr_loop_Some)
next
  case False
  have "sstrstr c [LF] (length c) \<noteq> Some j" for j
  proof
    assume "sstrstr c [LF] (length c) = Some j"
    then have "take 1 (drop j c) = [LF]" by (simp add: sstrstr_def cstr_def sstrstr_loop_Some)
    then show False using False by (metis in_set_dropD in_set_takeD list.set_intros(1))
  qed
  then show ?thesis using False by (cases "sstrstr c [LF] (length c)") auto
qed

section \<open>Reading a line\<close>

lemma connection_step_chunk:
  assumes "recv CONNECTION_RECV_LENGTH (sk_in (w_sock w)) = (Some c, es')" and "c \<noteq> []"
    and "env_realloc_ok env" and "lb_inv env got l"
  shows "\<exists>l'. lb_inv env (got @ c) l' \<and>
    connection_step env True (Reading l) w =
      (if LF \<in> set c
       then continue_outer (finish_line env l'
         (int (length c) - (int (length (takeWhile (\<lambda>x. x \<noteq> LF) c)) + 1)) (after_read es' w))
       else Some (Inr (Reading l', after_read es' w)))"
proof -
  have "length c \<le> CONNECTION_RECV_LENGTH" using recv_bound [OF assms(1)] .
  from receive_inv [OF assms(4) this assms(3)] obtain l1 l2 where l:
    "make_room env (length c) l = Some l1" "append_chunk c l1 = Inr l2" "lb_inv env (got @ c) l2" by blast
  have "connection_step env True (Reading l) w = receive_chunk env c l (after_read es' w)"
    using assms(1,2) by (simp add: connection_step_def after_read_def)
  with l show ?thesis by (intro exI [of _ l2]) (simp add: receive_chunk_def sstrstr_LF)
qed

lemma after_read_twice [simp]: "after_read es' (after_read es w) = after_read es' w"
  by (simp add: after_read_def)

text \<open>
  From a stream that contains a line break, the thread reads up to the end of the chunk with
  the first one; \<open>rest\<close> is what came behind it.
\<close>

lemma connection_reads_line:
  assumes "reliable (sk_in (w_sock w))" and "LF \<in> set (incoming (sk_in (w_sock w)))"
    and "env_realloc_ok env" and "lb_inv env got l"
  shows "\<exists>n l' pre rest es'.
    line_rounds env n (Reading l, w)
      (continue_outer (finish_line env l' (int (length rest)) (after_read es' w))) \<and>
    lb_inv env (got @ pre @ LF # rest) l' \<and> LF \<notin> set pre \<and> length rest < CONNECTION_RECV_LENGTH \<and>
    incoming (sk_in (w_sock w)) = pre @ LF # rest @ incoming es' \<and> reliable es'"
  using assms(1,2,4)
proof (induction "length (incoming (sk_in (w_sock w)))" arbitrary: w got l rule: less_induct)
  case less
  let ?in = "incoming (sk_in (w_sock w))"
  have "?in \<noteq> []" using less.prems(2) by auto
  then obtain c es' where c: "recv CONNECTION_RECV_LENGTH (sk_in (w_sock w)) = (Some c, es')" "reliable es'"
      "c \<noteq> []" "length c \<le> CONNECTION_RECV_LENGTH" "?in = c @ incoming es'"
    using socket.rd_more [OF less.prems(1), of CONNECTION_RECV_LENGTH] by (auto simp: CONNECTION_RECV_LENGTH_def)
  obtain l' where l': "lb_inv env (got @ c) l'"
    "connection_step env True (Reading l) w =
      (if LF \<in> set c
       then continue_outer (finish_line env l'
         (int (length c) - (int (length (takeWhile (\<lambda>x. x \<noteq> LF) c)) + 1)) (after_read es' w))
       else Some (Inr (Reading l', after_read es' w)))"
    using connection_step_chunk [OF c(1,3) assms(3) less.prems(3)] by blast
  show ?case
  proof (cases "LF \<in> set c")
    case True
    then obtain pre rest where pr: "c = pre @ LF # rest" "LF \<notin> set pre" by (blast dest: split_list_first)
    then have "\<And>x. x \<in> set pre \<Longrightarrow> x \<noteq> LF" by blast
    then have "int (length c) - (int (length (takeWhile (\<lambda>x. x \<noteq> LF) c)) + 1) = int (length rest)"
      by (simp add: pr(1) takeWhile_append2)
    then have "line_rounds env 1 (Reading l, w)
        (continue_outer (finish_line env l' (int (length rest)) (after_read es' w)))"
      using l'(2) True by (intro line_rounds.handled) simp
    with l'(1) pr c(2,4,5) show ?thesis
      by (intro exI [of _ 1] exI [of _ l'] exI [of _ pre] exI [of _ rest] exI [of _ es']) auto
  next
    case False
    let ?w = "after_read es' w"
    have "length (incoming (sk_in (w_sock ?w))) < length ?in" "LF \<in> set (incoming (sk_in (w_sock ?w)))"
      using c(3,5) False less.prems(2) by auto
    from less.hyps [OF this(1) _ this(2) l'(1)] c(2) obtain n l'' pre rest es'' where ih:
      "line_rounds env n (Reading l', ?w)
         (continue_outer (finish_line env l'' (int (length rest)) (after_read es'' ?w)))"
      "lb_inv env ((got @ c) @ pre @ LF # rest) l''" "LF \<notin> set pre" "length rest < CONNECTION_RECV_LENGTH"
      "incoming es' = pre @ LF # rest @ incoming es''" "reliable es''"
      by auto
    have "line_rounds env (Suc n) (Reading l, w)
        (continue_outer (finish_line env l'' (int (length rest)) (after_read es'' w)))"
      using l'(2) False ih(1) by (intro line_rounds.more) simp_all
    with ih(2-6) c(5) False show ?thesis
      by (intro exI [of _ "Suc n"] exI [of _ l''] exI [of _ "c @ pre"] exI [of _ rest] exI [of _ es'']) auto
  qed
qed

text \<open>Line breaks at the end of what was received become zero bytes.\<close>

lemma strip_line_end_append:
  assumes "core \<noteq> []" and "last core \<noteq> CR" and "last core \<noteq> LF" and "set brk \<subseteq> {CR, LF}"
  shows "strip_line_end (core @ brk @ t) (length core + length brk) =
    Inr (core @ replicate (length brk) NUL @ t)"
  using assms(4)
proof (induction brk arbitrary: t rule: rev_induct)
  case Nil
  obtain core' c where "core = core' @ [c]" using assms(1) by (metis append_butlast_last_id)
  with assms(2,3) show ?case by (simp add: nth_append)
next
  case (snoc x brk)
  have "strip_line_end (core @ (brk @ [x]) @ t) (length core + length (brk @ [x])) =
      strip_line_end (core @ brk @ NUL # t) (length core + length brk)"
    using snoc.prems by (auto simp: nth_append list_update_append)
  with snoc show ?case by (simp add: replicate_append_same [symmetric])
qed

lemma finish_line_lb:
  assumes "lb_inv env got l" and "got = core @ brk" and "core \<noteq> []"
    and "last core \<noteq> CR" "last core \<noteq> LF" "set brk \<subseteq> {CR, LF}"
  shows "\<exists>t. finish_line env l n w =
      handle_command (env_calloc_ok env) (core @ replicate (length brk) NUL @ t) n w \<and> t \<noteq> [] \<and>
    ((\<forall>i. env_junk env i = NUL) \<longrightarrow> set t \<subseteq> {NUL})"
proof -
  obtain t where t: "lb_command l = got @ t" "t \<noteq> []" "lb_command_free_len l = int (length t)"
      "lb_command_len l = length got + length t" "(\<forall>i. env_junk env i = NUL) \<longrightarrow> set t \<subseteq> {NUL}"
    using assms(1) unfolding lb_inv_def by blast
  have "nat (int (lb_command_len l) - lb_command_free_len l) = length core + length brk"
    using t(3,4) assms(2) by simp
  then show ?thesis
    using t(1,2,5) strip_line_end_append [OF assms(3-6), of t] assms(2)
    by (intro exI [of _ t]) (simp add: finish_line_def)
qed



end
