(* ===== verification/Requests.thy ===== *)
theory Requests
  imports Connection
begin

text \<open>
  Whole requests on a connection: the connection thread of connection.c, the command line and
  the command handlers composed. Nothing of the program is defined here; the definitions are
  the shape of requests, and the lemmas follow a request from the bytes on the socket to the
  table and to the reply.
\<close>

section \<open>Requests on the wire\<close>

definition CRLF :: string where
  "CRLF = [CR, LF]"

lemma set_CRLF: "set CRLF \<subseteq> {CR, LF}"
  by (simp add: CRLF_def)

definition no_break :: "string \<Rightarrow> bool" where
  "no_break s \<longleftrightarrow> CR \<notin> set s \<and> LF \<notin> set s"

definition good_memory :: "environment \<Rightarrow> bool" where
  "good_memory env \<longleftrightarrow> env_realloc_ok env \<and> env_calloc_ok env \<and> (\<forall>i. env_junk env i = NUL)"

lemma first_break:
  assumes "pre @ LF # x = u @ LF # y" and "LF \<notin> set pre" and "LF \<notin> set u"
  shows "pre = u \<and> x = y"
proof -
  have "\<forall>z \<in> set a. z \<noteq> LF" if "LF \<notin> set a" for a :: string using that by blast
  with assms(2,3) have "takeWhile (\<lambda>z. z \<noteq> LF) (pre @ LF # x) = pre"
      "takeWhile (\<lambda>z. z \<noteq> LF) (u @ LF # y) = u"
    by (simp_all add: takeWhile_append2)
  with assms(1) show ?thesis by simp
qed

text \<open>
  What the block holds when the line \<open>s\<close> has been read and \<open>r @ brk\<close> came behind it in the
  same chunk.
\<close>

definition line_block :: "string \<Rightarrow> string \<Rightarrow> nat \<Rightarrow> string" where
  "line_block s r m = s @ (if r = [] then [NUL, NUL] else CRLF) @ r @ replicate m NUL"

lemma set_NUL: "set t \<subseteq> {NUL} \<Longrightarrow> t = replicate (length t) NUL"
  by (induction t) auto

lemma finish_line_block:
  assumes l: "lb_inv env (s @ CRLF @ r @ brk) l" and "good_memory env"
    and s: "s \<noteq> []" "no_break s" and r: "no_break r" and brk: "set brk \<subseteq> {CR, LF}"
  shows "\<exists>m. finish_line env l n w = handle_command True (line_block s r m) n w \<and> length brk < m"
proof -
  define core where "core = (if r = [] then s else s @ CRLF @ r)"
  define brks where "brks = (if r = [] then CRLF @ brk else brk)"
  have got: "s @ CRLF @ r @ brk = core @ brks" by (simp add: core_def brks_def)
  have core: "core \<noteq> []" "last core \<in> set s \<union> set r" using s(1) by (auto simp: core_def)
  then have ends: "last core \<noteq> CR" "last core \<noteq> LF" using s(2) r by (auto simp: no_break_def)
  have brks: "set brks \<subseteq> {CR, LF}" using brk by (auto simp: brks_def CRLF_def)
  from finish_line_lb [OF l got core(1) ends brks, of n w] obtain t where
    t: "finish_line env l n w = handle_command (env_calloc_ok env) (core @ replicate (length brks) NUL @ t) n w"
      "t \<noteq> []" "set t \<subseteq> {NUL}"
    using assms(2) by (auto simp: good_memory_def)
  have "core @ replicate (length brks) NUL @ t = line_block s r (length brk + length t)"
    by (subst set_NUL [OF t(3)])
      (simp add: line_block_def core_def brks_def CRLF_def replicate_add)
  moreover have "0 < length t" using t(2) by simp
  ultimately show ?thesis using t(1) assms(2)
    by (intro exI [of _ "length brk + length t"]) (simp add: good_memory_def)
qed

lemma prefix_of_payload:
  assumes "rest @ x = p @ e" and "no_break p" and "set e \<subseteq> {CR, LF}"
  shows "\<exists>r brk. rest = r @ brk \<and> no_break r \<and> set brk \<subseteq> {CR, LF} \<and>
    (brk = [] \<and> (\<exists>p'. p = r @ p' \<and> x = p' @ e) \<or> r = p \<and> e = brk @ x)"
proof -
  from assms(1) consider us where "rest = p @ us" "us @ x = e" | us where "p = rest @ us" "x = us @ e"
    by (auto simp: append_eq_append_conv2)
  then show ?thesis
  proof cases
    case 1
    with assms show ?thesis by (intro exI [of _ p] exI [of _ us]) auto
  next
    case 2
    with assms(2) show ?thesis by (intro exI [of _ rest] exI [of _ "[]"]) (auto simp: no_break_def)
  qed
qed

text \<open>
  A line, and behind it bytes \<open>p\<close> without line breaks and a break \<open>e\<close>: the thread hands the
  block to \<open>handle_command\<close> with \<open>r @ brk\<close>, a prefix of these bytes, behind the line.
\<close>

lemma connection_handles_line:
  assumes "reliable (sk_in (w_sock w))" and "incoming (sk_in (w_sock w)) = s @ CRLF @ p @ e"
    and "good_memory env" and "cc_is_thread_running (w_client w)"
    and "s \<noteq> []" "no_break s" "no_break p" "set e \<subseteq> {CR, LF}"
  shows "\<exists>n r brk es' m.
    line_rounds env n (Outer, w) (continue_outer
      (handle_command True (line_block s r m) (int (length (r @ brk))) (after_read es' w))) \<and>
    length brk < m \<and> length (r @ brk) < CONNECTION_RECV_LENGTH \<and>
    (brk = [] \<and> (\<exists>p'. p = r @ p' \<and> incoming es' = p' @ e) \<or> r = p \<and> e = brk @ incoming es') \<and> reliable es'"
proof -
  let ?in = "incoming (sk_in (w_sock w))"
  have LF: "LF \<in> set ?in" using assms(2) by (simp add: CRLF_def)
  have re: "env_realloc_ok env" using assms(3) by (simp add: good_memory_def)
  obtain n l' pre rest es' where run:
    "line_rounds env n (Reading new_line_buffer, w)
      (continue_outer (finish_line env l' (int (length rest)) (after_read es' w)))"
    "lb_inv env ([] @ pre @ LF # rest) l'" "LF \<notin> set pre" "length rest < CONNECTION_RECV_LENGTH"
    "?in = pre @ LF # rest @ incoming es'" "reliable es'"
    using connection_reads_line [OF assms(1) LF re new_line_buffer_inv] by blast
  have "pre @ LF # (rest @ incoming es') = (s @ [CR]) @ LF # (p @ e)"
    using run(5) assms(2) by (simp add: CRLF_def)
  from first_break [OF this run(3)] assms(6) have pre: "pre = s @ [CR]" "rest @ incoming es' = p @ e"
    by (auto simp: no_break_def)
  obtain r brk where rb: "rest = r @ brk" "no_break r" "set brk \<subseteq> {CR, LF}"
    "brk = [] \<and> (\<exists>p'. p = r @ p' \<and> incoming es' = p' @ e) \<or> r = p \<and> e = brk @ incoming es'"
    using prefix_of_payload [OF pre(2) assms(7,8)] by blast
  have "lb_inv env (s @ CRLF @ r @ brk) l'" using run(2) pre(1) rb(1) by (simp add: CRLF_def)
  from finish_line_block [OF this assms(3,5,6) rb(2,3)] obtain m where
    m: "finish_line env l' (int (length rest)) (after_read es' w) =
      handle_command True (line_block s r m) (int (length rest)) (after_read es' w)" "length brk < m" by blast
  have "line_rounds env (Suc n) (Outer, w)
      (continue_outer (finish_line env l' (int (length rest)) (after_read es' w)))"
    using assms(4) run(1) by (intro line_rounds.more) (simp_all add: connection_step_def)
  with run(4,6) m rb(1,4) show ?thesis
    by (intro exI [of _ "Suc n"] exI [of _ r] exI [of _ brk] exI [of _ es'] exI [of _ m]) simp
qed

section \<open>The words of a request\<close>

lemma line_block_split:
  assumes "is_cstr s" and "0 < m" and "no_break r" and "r = [] \<or> hd r \<noteq> SP"
  shows "\<exists>u t k. line_block s r m = (s @ u) @ NUL # t \<and> is_cstr (s @ u) \<and> (u = [] \<or> is_blank (hd u)) \<and>
    dropWhile is_blank u @ NUL # t = r @ replicate k NUL \<and> m \<le> k"
proof (cases "r = []")
  case True
  then show ?thesis using assms(1)
    by (intro exI [of _ "[]"] exI [of _ "NUL # replicate m NUL"] exI [of _ "Suc (Suc m)"])
      (simp add: line_block_def)
next
  case False
  let ?R = "r @ replicate m NUL"
  have "NUL \<in> set ?R" using assms(2) by simp
  then obtain x y where x: "?R = x @ NUL # y" "NUL \<notin> set x" by (blast dest: split_list_first)
  have "x = [] \<or> \<not> is_blank (hd x)"
  proof (cases x)
    case (Cons c x')
    with x(1) False have "c = hd r" by (cases r) auto
    with False assms(4) have "c \<in> set r" "c \<noteq> SP" by auto
    with assms(3) Cons show ?thesis by (auto simp: no_break_def is_blank_def)
  qed simp
  then have "dropWhile is_blank (CRLF @ x) = x" by (cases x) (simp_all add: CRLF_def is_blank_def)
  moreover have "is_cstr (s @ CRLF @ x)" using assms(1) x(2) by (simp add: is_cstr_def CRLF_def)
  moreover have "line_block s r m = (s @ CRLF @ x) @ NUL # y" using False x(1) by (simp add: line_block_def)
  ultimately show ?thesis using x(1)
    by (intro exI [of _ "CRLF @ x"] exI [of _ y] exI [of _ m]) (simp add: CRLF_def is_blank_def)
qed

definition store_request :: "string \<Rightarrow> string \<Rightarrow> string \<Rightarrow> string \<Rightarrow> string" where
  "store_request cmd key type len = cmd @ SP # key @ SP # type @ SP # len"

definition key_request :: "string \<Rightarrow> string \<Rightarrow> string" where
  "key_request cmd key = cmd @ SP # key"

definition natural_word :: "string \<Rightarrow> bool" where
  "natural_word s \<longleftrightarrow> is_word s \<and> char_at s 0 \<noteq> CHR ''-'' \<and> is_decimal_string s"

lemma is_word_commands: "is_word ''SET''" "is_word ''ADD''" "is_word ''GET''" "is_word ''DEL''" "is_word ''BYE''"
  by (simp_all add: is_word_def is_blank_def)

lemma lower_commands:
  "map to_lower ''SET'' = ''set''" "map to_lower ''ADD'' = ''add''" "map to_lower ''GET'' = ''get''"
  "map to_lower ''DEL'' = ''del''" "map to_lower ''BYE'' = ''bye''"
  by code_simp+

lemma store_request_words:
  assumes "is_word cmd" "map to_lower cmd = (if overwrite then ''set'' else ''add'')"
    and "is_word key" and "natural_word type" and "natural_word len" and "u = [] \<or> is_blank (hd u)"
  defines "line \<equiv> store_request cmd key type len @ u"
  shows "answer_line calloc_ok line t n w =
    memuncached_set calloc_ok key type len (dropWhile is_blank u @ NUL # t) n overwrite
      (overrun (snd (str_escape line)) w)"
proof -
  let ?k = "key @ SP # type @ SP # len @ u" and ?t = "type @ SP # len @ u" and ?l = "len @ u"
  have w: "is_word type" "is_word len" using assms(4,5) by (simp_all add: natural_word_def)
  have s: "line = cmd @ SP # ?k" by (simp add: store_request_def line_def)
  have blank: "is_blank SP" by (simp add: is_blank_def)
  have a: "after_word line = ?k" "after_word ?k = ?t" "after_word ?t = ?l" "after_word ?l = dropWhile is_blank u"
    unfolding s
    using after_word_word [OF assms(3,1), of "SP # type @ SP # len @ u"]
      after_word_word [OF w(1) assms(3), of "SP # len @ u"] after_word_word [OF w(2,1), of u]
      next_word_append(2) [OF w(2) assms(6)] by simp_all
  have n: "nth_arg line 0 = Some cmd" "nth_arg ?k 0 = Some key" "nth_arg ?t 0 = Some type" "nth_arg ?l 0 = Some len"
    unfolding s
    using nth_arg_word [OF assms(1), of "SP # ?k"] nth_arg_word [OF assms(3), of "SP # ?t"]
      nth_arg_word [OF w(1), of "SP # ?l"] nth_arg_word [OF w(2) assms(6)] blank by simp_all
  have args: "nth_arg ?k 1 = Some type" "nth_arg ?k 2 = Some len" "(after_word ^^ 3) ?k = dropWhile is_blank u"
    using n a nth_arg_Suc [of ?k 0] nth_arg_Suc [of ?k 1] nth_arg_Suc [of ?t 0]
    by (simp_all add: numeral_2_eq_2 numeral_3_eq_3)
  have "store_args_error (Some key) (Some type) (Some len) = None"
    using assms(4,5) by (simp add: store_args_error_def key_error_def natural_error_def natural_word_def)
  then have "store_line calloc_ok ov ?k t n w' =
      memuncached_set calloc_ok key type len (dropWhile is_blank u @ NUL # t) n ov w'" for ov w'
    unfolding store_line_def args n(2) by simp
  then show ?thesis using assms(2) by (simp add: answer_line_def Let_def n(1) a(1) split: if_splits)
qed

lemma key_request_words:
  assumes "is_word cmd" and "is_word key" and "u = [] \<or> is_blank (hd u)"
  defines "line \<equiv> key_request cmd key @ u"
  shows "map to_lower cmd = ''get'' \<Longrightarrow>
      answer_line calloc_ok line t n w = Some (memuncached_get key (overrun (snd (str_escape line)) w))"
    and "map to_lower cmd = ''del'' \<Longrightarrow>
      answer_line calloc_ok line t n w = Some (memuncached_del key (overrun (snd (str_escape line)) w))"
proof -
  have a: "nth_arg (key @ u) 0 = Some key" using nth_arg_word [OF assms(2,3)] .
  have b: "nth_arg line 0 = Some cmd" "after_word line = key @ u"
    using nth_arg_word [OF assms(1), of "SP # key @ u"] after_word_word [OF assms(2,1), of u]
    by (simp_all add: is_blank_def line_def key_request_def)
  show "map to_lower cmd = ''get'' \<Longrightarrow>
      answer_line calloc_ok line t n w = Some (memuncached_get key (overrun (snd (str_escape line)) w))"
    "map to_lower cmd = ''del'' \<Longrightarrow>
      answer_line calloc_ok line t n w = Some (memuncached_del key (overrun (snd (str_escape line)) w))"
    by (simp_all add: answer_line_def Let_def key_line_def a b)
qed

lemma fmt_d_nat: "fmt_d (int n) = dec_digits n"
  by (simp add: fmt_d_def)

lemma natural_word_digits: "natural_word (dec_digits n)"
proof -
  obtain c s where cs: "dec_digits n = c # s" "isdigit c" by (rule dec_digits_Cons)
  have digits: "list_all isdigit (dec_digits n)" by (rule dec_digits_isdigit)
  have c: "is_cstr (dec_digits n)" using fmt_d_no_NUL [of "int n"] by (simp add: fmt_d_nat)
  have "list_all (\<lambda>c. \<not> is_blank c) (dec_digits n)"
    using digits by (auto simp: list_all_iff is_blank_def)
  with c have "is_word (dec_digits n)" by (simp add: is_word_def)
  moreover have "char_at (dec_digits n) 0 \<noteq> CHR ''-''" using cs by (auto simp: char_at_def)
  moreover have "is_decimal_string (dec_digits n)"
    using cs digits c by (auto simp: is_decimal_string_def cstr_id)
  ultimately show ?thesis by (simp add: natural_word_def)
qed

lemma to_int_digits: "n < 2 ^ 31 \<Longrightarrow> to_int (atol (dec_digits n)) = int n"
proof -
  assume n: "n < 2 ^ 31"
  have "strtol_int (dec_digits n) = int n"
    using strtol_int_fmt_d [of "[]" "int n"] by (simp add: fmt_d_nat no_digit_def)
  then have "atol (dec_digits n) = word_of_nat n"
    using n by (simp add: atol_def clamp64_id atoll_def)
  then show ?thesis using n by (simp add: to_int_small unat_of_nat)
qed

definition wire_type :: "string \<Rightarrow> bool" where
  "wire_type type \<longleftrightarrow> type \<in> {''0'', ''1'', ''2''}"

lemma wire_type_ok:
  assumes "wire_type type"
  shows "natural_word type" "type_arg type \<le> 2"
proof -
  have "''0'' = dec_digits 0" "''1'' = dec_digits 1" "''2'' = dec_digits 2" by code_simp+
  moreover have "type_arg ''0'' \<le> 2" "type_arg ''1'' \<le> 2" "type_arg ''2'' \<le> 2" by code_simp+
  ultimately show "natural_word type" "type_arg type \<le> 2"
    using assms natural_word_digits by (auto simp: wire_type_def)
qed

section \<open>A SET or ADD request, from the socket to the table\<close>

lemma is_word_no_break: "is_word s \<Longrightarrow> no_break s" "is_word s \<Longrightarrow> is_cstr s" "is_word s \<Longrightarrow> s \<noteq> []"
  by (auto simp: is_word_def no_break_def is_blank_def list_all_iff)

lemma no_break_simps [simp]: "no_break []" "no_break (s @ t) \<longleftrightarrow> no_break s \<and> no_break t"
  "no_break (c # t) \<longleftrightarrow> c \<noteq> CR \<and> c \<noteq> LF \<and> no_break t"
  by (auto simp: no_break_def)

text \<open>The thread reaches \<open>memuncached_set\<close> with the payload partly in the chunk and partly on the socket.\<close>

lemma store_reaches_handler:
  assumes "cc_is_thread_running (w_client w)" and "good_memory env"
    and "reliable (sk_in (w_sock w))"
    and "incoming (sk_in (w_sock w)) = store_request cmd key type (fmt_d (int (length p))) @ CRLF @ p @ CRLF"
    and "is_word cmd" "map to_lower cmd = (if overwrite then ''set'' else ''add'')"
    and "is_word key" and "wire_type type"
    and "no_break p" and "p = [] \<or> hd p \<noteq> SP"
  shows "\<exists>n over chunk cs es. line_rounds env n (Outer, w)
      (continue_outer (memuncached_set True key type (dec_digits (length p)) chunk (int cs) overwrite
        (overrun over (after_read es w)))) \<and>
    reliable es \<and> cs \<le> length chunk \<and> cs + length (incoming es) = length p + 2 \<and>
    take (length p) (take cs chunk @ incoming es) = p"
proof -
  let ?len = "dec_digits (length p)"
  let ?s = "store_request cmd key type ?len"
  have words: "is_word type" "is_word ?len" "natural_word type" "natural_word ?len"
    using wire_type_ok(1) [OF assms(8)] natural_word_digits by (simp_all add: natural_word_def)
  have s: "?s \<noteq> []" "no_break ?s" "is_cstr ?s"
    using is_word_no_break assms(5,7) words(1,2) by (simp_all add: store_request_def)
  have in_eq: "incoming (sk_in (w_sock w)) = ?s @ CRLF @ p @ CRLF" using assms(4) by (simp add: fmt_d_nat)
  obtain n r brk es m where run:
    "line_rounds env n (Outer, w) (continue_outer
      (handle_command True (line_block ?s r m) (int (length (r @ brk))) (after_read es w)))"
    "length brk < m"
    "brk = [] \<and> (\<exists>p'. p = r @ p' \<and> incoming es = p' @ CRLF) \<or> r = p \<and> CRLF = brk @ incoming es"
    "reliable es"
    using connection_handles_line [OF assms(3) in_eq assms(2,1) s(1,2) assms(9) set_CRLF] by blast
  have m: "0 < m" using run(2) by simp
  have r: "no_break r" "r = [] \<or> hd r \<noteq> SP" using run(3) assms(9,10) by (auto simp: hd_append)
  from line_block_split [OF s(3) m r] obtain u t k where b:
    "line_block ?s r m = (?s @ u) @ NUL # t" "is_cstr (?s @ u)" "u = [] \<or> is_blank (hd u)"
    "dropWhile is_blank u @ NUL # t = r @ replicate k NUL" "m \<le> k" by blast
  let ?chunk = "r @ replicate k NUL" and ?cs = "length (r @ brk)"
  have cmd: "handle_command True (line_block ?s r m) (int ?cs) (after_read es w) =
      memuncached_set True key type ?len ?chunk (int ?cs) overwrite (overrun (snd (str_escape (?s @ u))) (after_read es w))"
    unfolding b(1) handle_command_line [OF b(2)]
      store_request_words [OF assms(5,6,7) words(3,4) b(3)] b(4) ..
  have total: "r @ brk @ incoming es = p @ CRLF" using run(3) by auto
  have len: "?cs + length (incoming es) = length p + 2"
    using arg_cong [OF total, of length] by (simp add: CRLF_def)
  have payload: "take (length p) (take ?cs ?chunk @ incoming es) = p"
    using run(2,3) b(5) by (auto simp: take_append)
  have chunk: "?cs \<le> length ?chunk" using run(2) b(5) by simp
  show ?thesis using run(1,4) cmd len payload chunk by metis
qed

lemma store_on_the_wire:
  assumes "ht_inv (w_table w)" and "cc_is_thread_running (w_client w)" and "good_memory env"
    and "reliable (sk_in (w_sock w))"
    and "incoming (sk_in (w_sock w)) = store_request cmd key type (fmt_d (int (length p))) @ CRLF @ p @ CRLF"
    and "is_word cmd" "map to_lower cmd = (if overwrite then ''set'' else ''add'')"
    and "is_word key" and "wire_type type"
    and "length p + 2 < 2 ^ 31" and "no_break p" and "p = [] \<or> hd p \<noteq> SP"
    and "overwrite \<or> lookup w key = None"
  shows "\<exists>n over t es'. line_rounds env n (Outer, w)
      (Some (Inr (Outer, REPLY_SUCCESS [] (overrun over (after_read es' w)\<lparr>w_table := t\<rparr>)))) \<and>
    reliable es' \<and> incoming es' = [] \<and> ht_inv t \<and> bucket t = bucket (w_table w) \<and>
    entries t = (entries (w_table w))(bucket (w_table w) key \<mapsto> payload_entry key (type_arg type) p)"
proof -
  obtain n over chunk cs es where run: "line_rounds env n (Outer, w)
      (continue_outer (memuncached_set True key type (dec_digits (length p)) chunk (int cs) overwrite
        (overrun over (after_read es w))))"
    "reliable es" "cs \<le> length chunk" "cs + length (incoming es) = length p + 2"
    "take (length p) (take cs chunk @ incoming es) = p"
    using store_reaches_handler [OF assms(2-9,11,12)] by metis
  let ?w = "overrun over (after_read es w)"
  have 1: "ht_inv (w_table ?w)" "reliable (sk_in (w_sock ?w))" using assms(1) run(2) by simp_all
  have 2: "to_int (atol (dec_digits (length p))) = int (length p)" using assms(10) by (intro to_int_digits) simp
  have 3: "cs \<le> length p + 2" "length p + 2 \<le> cs + length (incoming (sk_in (w_sock ?w)))" using run(4) by simp_all
  have 4: "overwrite \<or> lookup ?w key = None" using assms(13) by (simp add: lookup_def)
  from set_stores_entry [OF 1 2 assms(10) 3(1) run(3) 3(2) wire_type_ok(2) [OF assms(9)] 4] obtain t' es' where set:
    "memuncached_set True key type (dec_digits (length p)) chunk (int cs) overwrite ?w =
      Some (Inr (REPLY_SUCCESS [] (after_read es' ?w\<lparr>w_table := t'\<rparr>)))" "ht_inv t'"
    "bucket t' = bucket (w_table ?w)"
    "entries t' = (entries (w_table ?w))(bucket (w_table ?w) key \<mapsto>
      payload_entry key (type_arg type) (take (length p) (take cs chunk @ incoming (sk_in (w_sock ?w)))))"
    "reliable es'" "incoming es' = drop (length p + 2 - cs) (incoming (sk_in (w_sock ?w)))"
    by blast
  have "after_read es' ?w = overrun over (after_read es' w)" by (simp add: overrun_def after_read_def)
  moreover have "incoming es' = []" using set(6) run(4) by simp
  ultimately show ?thesis using run(1,5) set
    by (intro exI [of _ n] exI [of _ over] exI [of _ t'] exI [of _ es']) (simp add: continue_outer_def)
qed

lemma add_on_the_wire:
  assumes "ht_inv (w_table w)" and "cc_is_thread_running (w_client w)" and "good_memory env"
    and "reliable (sk_in (w_sock w))"
    and "incoming (sk_in (w_sock w)) = store_request cmd key type (fmt_d (int (length p))) @ CRLF @ p @ CRLF"
    and "is_word cmd" "map to_lower cmd = ''add''"
    and "is_word key" and "wire_type type"
    and "length p + 2 < 2 ^ 31" and "no_break p" and "p = [] \<or> hd p \<noteq> SP"
    and "lookup w key \<noteq> None"
  shows "\<exists>n over es'. line_rounds env n (Outer, w)
      (Some (Inr (Outer, REPLY_KEY_EXISTS (overrun over (after_read es' w))))) \<and>
    reliable es' \<and> incoming es' = []"
proof -
  have cmd: "map to_lower cmd = (if False then ''set'' else ''add'')" using assms(7) by simp
  obtain n over chunk cs es where run: "line_rounds env n (Outer, w)
      (continue_outer (memuncached_set True key type (dec_digits (length p)) chunk (int cs) False
        (overrun over (after_read es w))))"
    "reliable es" "cs \<le> length chunk" "cs + length (incoming es) = length p + 2"
    "take (length p) (take cs chunk @ incoming es) = p"
    using store_reaches_handler [OF assms(2-6) cmd assms(8,9,11,12)] by metis
  let ?w = "overrun over (after_read es w)"
  have 1: "ht_inv (w_table ?w)" "reliable (sk_in (w_sock ?w))" using assms(1) run(2) by simp_all
  have 2: "to_int (atol (dec_digits (length p))) = int (length p)" using assms(10) by (intro to_int_digits) simp
  have 3: "cs \<le> length p + 2" "length p + 2 \<le> cs + length (incoming (sk_in (w_sock ?w)))" using run(4) by simp_all
  have 4: "lookup ?w key \<noteq> None" using assms(13) by (simp add: lookup_def)
  from set_finds_existing [OF 1 2 assms(10) 3(1) run(3) 3(2) 4] obtain es' where set:
    "memuncached_set True key type (dec_digits (length p)) chunk (int cs) False ?w =
      Some (Inr (REPLY_KEY_EXISTS (after_read es' ?w)))" "reliable es'"
    "incoming es' = drop (length p + 2 - cs) (incoming (sk_in (w_sock ?w)))" by blast
  have "after_read es' ?w = overrun over (after_read es' w)" by (simp add: overrun_def after_read_def)
  moreover have "incoming es' = []" using set(3) run(4) by simp
  ultimately show ?thesis using run(1) set
    by (intro exI [of _ n] exI [of _ over] exI [of _ es']) (simp add: continue_outer_def)
qed

section \<open>A GET request\<close>

lemma write_client_overrun: "write_client x (overrun n (after_read es w)) = after_read es (write_client x (overrun n w))"
  by (simp add: write_client_def overrun_def after_read_def send_def)

lemma get_on_the_wire:
  assumes "ht_inv (w_table w)" and "cc_is_thread_running (w_client w)" and "good_memory env"
    and "reliable (sk_in (w_sock w))" and "incoming (sk_in (w_sock w)) = key_request cmd key @ CRLF"
    and "is_word cmd" "map to_lower cmd = ''get''" and "is_word key" and "sendable (lookup w key)"
  shows "\<exists>n over over' es'. line_rounds env n (Outer, w)
      (Some (Inr (Outer, write_client (entry_reply (lookup w key)) (overrun over' (overrun over (after_read es' w)))))) \<and>
    reliable es' \<and> incoming es' = []"
proof -
  let ?s = "key_request cmd key"
  have s: "?s \<noteq> []" "no_break ?s" "is_cstr ?s"
    using is_word_no_break assms(6,8) by (simp_all add: key_request_def)
  have in_eq: "incoming (sk_in (w_sock w)) = ?s @ CRLF @ [] @ []" using assms(5) by simp
  have e: "set [] \<subseteq> {CR, LF}" "no_break []" by simp_all
  obtain n r brk es m where run:
    "line_rounds env n (Outer, w) (continue_outer
      (handle_command True (line_block ?s r m) (int (length (r @ brk))) (after_read es w)))"
    "length brk < m"
    "brk = [] \<and> (\<exists>p'. [] = r @ p' \<and> incoming es = p' @ []) \<or> r = [] \<and> [] = brk @ incoming es"
    "reliable es"
    using connection_handles_line [OF assms(4) in_eq assms(3,2) s(1,2) e(2,1)] by blast
  have r: "r = []" "brk = []" "incoming es = []" using run(3) by auto
  have m: "0 < m" using run(2) by simp
  from line_block_split [OF s(3) m e(2)] obtain u t k where b:
    "line_block ?s [] m = (?s @ u) @ NUL # t" "is_cstr (?s @ u)" "u = [] \<or> is_blank (hd u)" by blast
  let ?w = "overrun (snd (str_escape (?s @ u))) (after_read es w)"
  have "handle_command True (line_block ?s [] m) 0 (after_read es w) = Some (memuncached_get key ?w)"
    unfolding b(1) handle_command_line [OF b(2)] by (rule key_request_words(1) [OF assms(6,8) b(3) assms(7)])
  also have "memuncached_get key ?w =
      Inr (write_client (entry_reply (lookup w key)) (overrun (entry_overrun (lookup w key)) ?w))"
    using memuncached_get_eq [of ?w key] assms(1,9) by (simp add: lookup_def)
  finally show ?thesis using run(1,4) r by (auto simp: continue_outer_def)
qed

section \<open>Properties\<close>

text \<open>
  A SET request on the socket, or an ADD of a key whose bucket is free, is carried out
  whatever segments the bytes arrive in: after a number of rounds the thread has stored the
  payload under the key with its type, answered 200, consumed the request and is back at the
  outer loop. The payload has no line breaks and does not start with a space, and blocks
  grown by \<open>realloc\<close> happen to be zero.
\<close>

theorem store_request_served:
  assumes "ht_inv (w_table w)" and "cc_is_thread_running (w_client w)" and "good_memory env"
    and "reliable (sk_in (w_sock w))"
    and "incoming (sk_in (w_sock w)) = store_request cmd key type (fmt_d (int (length p))) @ CRLF @ p @ CRLF"
    and "is_word cmd" "map to_lower cmd = (if overwrite then ''set'' else ''add'')"
    and "is_word key" and "wire_type type"
    and "length p + 2 < 2 ^ 31" and "no_break p" and "p = [] \<or> hd p \<noteq> SP"
    and "overwrite \<or> lookup w key = None"
  shows "\<exists>n over t es'. connection_steps env n (Outer, w) =
      Some (Inr (Outer, REPLY_SUCCESS [] (overrun over (after_read es' w)\<lparr>w_table := t\<rparr>))) \<and>
    reliable es' \<and> incoming es' = [] \<and> ht_inv t \<and> bucket t = bucket (w_table w) \<and>
    entries t = (entries (w_table w))(bucket (w_table w) key \<mapsto> payload_entry key (type_arg type) p)"
  using store_on_the_wire [OF assms] by (blast dest: line_rounds_steps)

definition zero_memory :: environment where
  "zero_memory = \<lparr>env_realloc_ok = True, env_calloc_ok = True, env_junk = \<lambda>_. NUL\<rparr>"

lemma zero_memory_good [simp]: "good_memory zero_memory"
  by (simp add: good_memory_def zero_memory_def)

lemma empty_table_inv: "ht_inv (hash_table_create 1000)"
  by (rule ht_create_inv) simp_all

theorem store_request_served_witness:
  "\<exists>n over t es'. connection_steps zero_memory n (Outer, fresh_world (hash_table_create 1000)
        [Data ''Set ke'', Data (''y 2 5'' @ [CR]), Data (LF # ''hel''), Data (''lo'' @ [CR, LF])]) =
      Some (Inr (Outer, REPLY_SUCCESS [] (overrun over (fresh_world t es')))) \<and>
    entries t (bucket (hash_table_create 1000) ''key'') = Some (payload_entry ''key'' 2 ''hello'') \<and> incoming es' = []"
proof -
  define es where "es = [Data ''Set ke'', Data (''y 2 5'' @ [CR]), Data (LF # ''hel''), Data (''lo'' @ [CR, LF])]"
  let ?w = "fresh_world (hash_table_create 1000) es"
  have d: "fmt_d (int (length ''hello'')) = ''5''" "map to_lower ''Set'' = (if True then ''set'' else ''add'')"
      "type_arg ''2'' = 2" by code_simp+
  have i: "incoming (sk_in (w_sock ?w)) =
      store_request ''Set'' ''key'' ''2'' (fmt_d (int (length ''hello''))) @ CRLF @ ''hello'' @ CRLF"
    unfolding d(1) by (simp add: store_request_def CRLF_def es_def)
  have s: "ht_inv (w_table ?w)" "cc_is_thread_running (w_client ?w)" "reliable (sk_in (w_sock ?w))"
      "is_word ''Set''" "is_word ''key''" "wire_type ''2''"
    by (simp_all add: reliable_def is_word_def is_blank_def wire_type_def empty_table_inv es_def, simp add: fresh_world_def)
  obtain n over t es' where "connection_steps zero_memory n (Outer, ?w) =
      Some (Inr (Outer, REPLY_SUCCESS [] (overrun over (after_read es' ?w)\<lparr>w_table := t\<rparr>)))" "incoming es' = []"
    "entries t = (entries (w_table ?w))(bucket (w_table ?w) ''key'' \<mapsto> payload_entry ''key'' (type_arg ''2'') ''hello'')"
    using store_request_served [OF s(1,2) zero_memory_good s(3) i s(4) d(2) s(5,6)] by auto
  moreover have "overrun over (after_read es' ?w)\<lparr>w_table := t\<rparr> = overrun over (fresh_world t es')"
    by (simp add: overrun_def after_read_def fresh_world_def)
  ultimately show ?thesis using d(3) unfolding es_def
    by (intro exI [of _ n] exI [of _ over] exI [of _ t] exI [of _ es']) simp
qed

text \<open>
  Payloads that print as they were sent: strings, decimals as \<open>%ld\<close> prints them, and integral
  real numbers as \<open>%lf\<close> prints them.
\<close>

definition canonical :: "string \<Rightarrow> string \<Rightarrow> bool" where
  "canonical type p \<longleftrightarrow>
     type = ''2'' \<and> length p < 2 ^ 31 - 25 \<or>
     type = ''0'' \<and> (\<exists>d :: int64. p = fmt_d (sint d)) \<or>
     type = ''1'' \<and> (\<exists>i. \<bar>i\<bar> \<le> 2 ^ 53 \<and> p = fmt_lf (int_to_double i))"

lemma canonical_entry:
  assumes "canonical type p"
  shows "value_text (payload_value (type_arg type) p) = p"
    and "sendable (Some (payload_entry key (type_arg type) p))" and "wire_type type"
proof -
  have t: "type_arg ''0'' = 0" "type_arg ''1'' = 1" "type_arg ''2'' = 2" by code_simp+
  have d: "atoll (fmt_d (sint d) @ [NUL, NUL]) = d" for d :: int64 by (rule ld.parse_line(3))
  have r: "atof (fmt_lf (int_to_double i) @ [NUL, NUL]) = int_to_double i" if "\<bar>i\<bar> \<le> 2 ^ 53" for i
    using that by (intro atof_fmt_lf_int) (simp_all add: ends_real_def)
  show "value_text (payload_value (type_arg type) p) = p"
    using assms by (auto simp: canonical_def t payload_value_def cache_types d r)
  show "sendable (Some (payload_entry key (type_arg type) p))"
    using assms by (auto simp: canonical_def t payload_value_def payload_entry_def cache_types sendable_def)
  show "wire_type type" using assms by (auto simp: canonical_def wire_type_def)
qed

lemma set_get_on_the_wire:
  assumes "ht_inv (w_table w)" and "cc_is_thread_running (w_client w)" and "good_memory env"
    and "reliable (sk_in (w_sock w))"
    and "incoming (sk_in (w_sock w)) = store_request ''SET'' key type (fmt_d (int (length p))) @ CRLF @ p @ CRLF"
    and "reliable es" and "incoming es = key_request ''GET'' key @ CRLF"
    and "is_word key" and "canonical type p"
    and "length p + 2 < 2 ^ 31" and "no_break p" and "p = [] \<or> hd p \<noteq> SP"
  shows "\<exists>n1 n2 w1 w2.
    connection_steps env n1 (Outer, w) = Some (Inr (Outer, w1)) \<and>
    connection_steps env n2 (Outer, after_read es w1) = Some (Inr (Outer, w2)) \<and>
    sk_out (w_sock w1) = sk_out (w_sock w) @ response_text RESPONSE_200_OK [] \<and>
    sk_out (w_sock w2) = sk_out (w_sock w1) @ value_reply (type_arg type) p"
proof -
  have cmd: "is_word ''SET''" "map to_lower ''SET'' = (if True then ''set'' else ''add'')"
    "is_word ''GET''" "map to_lower ''GET'' = ''get''"
    using is_word_commands lower_commands by simp_all
  note can = canonical_entry [OF assms(9)]
  have ow: "True \<or> lookup w key = None" by simp
  obtain n1 over t es' where set: "connection_steps env n1 (Outer, w) =
      Some (Inr (Outer, REPLY_SUCCESS [] (overrun over (after_read es' w)\<lparr>w_table := t\<rparr>)))" "ht_inv t"
    "entries t = (entries (w_table w))(bucket (w_table w) key \<mapsto> payload_entry key (type_arg type) p)"
    "bucket t = bucket (w_table w)"
    using store_on_the_wire [OF assms(1-5) cmd(1,2) assms(8) can(3) assms(10-12) ow] line_rounds_steps by blast
  let ?w1 = "REPLY_SUCCESS [] (overrun over (after_read es' w)\<lparr>w_table := t\<rparr>)"
  have w1: "ht_inv (w_table (after_read es ?w1))" "cc_is_thread_running (w_client (after_read es ?w1))"
    "reliable (sk_in (w_sock (after_read es ?w1)))"
    "incoming (sk_in (w_sock (after_read es ?w1))) = key_request ''GET'' key @ CRLF"
    "sk_out (w_sock ?w1) = sk_out (w_sock w) @ response_text RESPONSE_200_OK []"
    using assms(2,6,7) set(2) by (simp_all add: reply_defs send_def)
  have found: "lookup (after_read es ?w1) key = Some (payload_entry key (type_arg type) p)"
    using set(3,4) by (simp add: lookup_def reply_defs)
  have "sendable (lookup (after_read es ?w1) key)" unfolding found by (rule can(2))
  from get_on_the_wire [OF w1(1,2) assms(3) w1(3,4) cmd(3,4) assms(8) this]
  obtain n2 o1 o2 es2 where get: "connection_steps env n2 (Outer, after_read es ?w1) =
      Some (Inr (Outer, write_client (entry_reply (lookup (after_read es ?w1) key))
        (overrun o2 (overrun o1 (after_read es2 (after_read es ?w1))))))" by (blast dest: line_rounds_steps)
  let ?w2 = "write_client (entry_reply (lookup (after_read es ?w1) key))
        (overrun o2 (overrun o1 (after_read es2 (after_read es ?w1))))"
  have "sk_out (w_sock ?w2) = sk_out (w_sock ?w1) @ value_reply (type_arg type) p"
    unfolding found by (simp add: entry_reply_def payload_entry_def can(1) write_client_def send_def)
  with set(1) get w1(5) show ?thesis
    by (intro exI [of _ n1] exI [of _ n2] exI [of _ ?w1] exI [of _ ?w2]) simp
qed

text \<open>
  What is stored is what is returned: after a SET of a canonical payload, a GET of the
  same key on the same connection is answered with exactly the bytes that were sent, their
  number and their type.
\<close>

theorem set_get_roundtrip:
  assumes "ht_inv (w_table w)" and "cc_is_thread_running (w_client w)" and "good_memory env"
    and "reliable (sk_in (w_sock w))"
    and "incoming (sk_in (w_sock w)) = store_request ''SET'' key type (fmt_d (int (length p))) @ CRLF @ p @ CRLF"
    and "reliable es" and "incoming es = key_request ''GET'' key @ CRLF"
    and "is_word key" and "canonical type p"
    and "length p + 2 < 2 ^ 31" and "no_break p" and "p = [] \<or> hd p \<noteq> SP"
  shows "\<exists>n1 n2 w1 w2.
    connection_steps env n1 (Outer, w) = Some (Inr (Outer, w1)) \<and>
    connection_steps env n2 (Outer, after_read es w1) = Some (Inr (Outer, w2)) \<and>
    sk_out (w_sock w1) = sk_out (w_sock w) @ response_text RESPONSE_200_OK [] \<and>
    sk_out (w_sock w2) = sk_out (w_sock w1) @ value_reply (type_arg type) p"
  using assms by (rule set_get_on_the_wire)

theorem set_get_roundtrip_witness:
  "\<exists>n1 n2 w1 w2.
    connection_steps zero_memory n1 (Outer, fresh_world (hash_table_create 1000)
      [Data (''SET k 0 3'' @ CRLF @ ''-42'' @ CRLF)]) = Some (Inr (Outer, w1)) \<and>
    connection_steps zero_memory n2 (Outer, after_read [Data (''GET k'' @ CRLF)] w1) = Some (Inr (Outer, w2)) \<and>
    sk_out (w_sock w2) = ''200 OK'' @ CRLF @ ''0'' @ CRLF @ [NUL] @ CRLF @
      ''200 OK'' @ CRLF @ ''3 0'' @ CRLF @ ''-42'' @ [NUL] @ CRLF"
proof -
  define es where "es = [Data (''SET k 0 3'' @ CRLF @ ''-42'' @ CRLF)]"
  define es' where "es' = [Data (''GET k'' @ CRLF)]"
  let ?w = "fresh_world (hash_table_create 1000) es"
  have d: "fmt_d (int (length ''-42'')) = ''3''" "fmt_d (sint (-42 :: int64)) = ''-42''" "type_arg ''0'' = 0"
    "fmt_d (int 0) = ''0''" "fmt_d (int 3) = ''3''" by code_simp+
  have i: "incoming (sk_in (w_sock ?w)) =
      store_request ''SET'' ''k'' ''0'' (fmt_d (int (length ''-42''))) @ CRLF @ ''-42'' @ CRLF"
    "incoming es' = key_request ''GET'' ''k'' @ CRLF"
    unfolding d(1) by (simp_all add: store_request_def key_request_def es_def es'_def)
  have s: "ht_inv (w_table ?w)" "cc_is_thread_running (w_client ?w)" "reliable (sk_in (w_sock ?w))"
      "reliable es'" "is_word ''k''"
    by (simp_all add: reliable_def is_word_def is_blank_def empty_table_inv es_def es'_def, simp add: fresh_world_def)
  have c: "canonical ''0'' ''-42''" unfolding canonical_def using d(2) by (intro disjI2 disjI1 conjI exI [of _ "-42 :: int64"]) simp_all
  obtain n1 n2 w1 w2 where "connection_steps zero_memory n1 (Outer, ?w) = Some (Inr (Outer, w1))"
    "connection_steps zero_memory n2 (Outer, after_read es' w1) = Some (Inr (Outer, w2))"
    "sk_out (w_sock w1) = sk_out (w_sock ?w) @ response_text RESPONSE_200_OK []"
    "sk_out (w_sock w2) = sk_out (w_sock w1) @ value_reply (type_arg ''0'') ''-42''"
    using set_get_roundtrip [OF s(1,2) zero_memory_good s(3) i(1) s(4) i(2) s(5) c] by auto
  moreover have "response_text RESPONSE_200_OK [] = ''200 OK'' @ CRLF @ ''0'' @ CRLF @ [NUL] @ CRLF"
    "value_reply (type_arg ''0'') ''-42'' = ''200 OK'' @ CRLF @ ''3 0'' @ CRLF @ ''-42'' @ [NUL] @ CRLF"
    using d by (simp_all add: response_text_def CRLF_def RESPONSE_200_OK_def value_reply_def value_header_def)
  ultimately show ?thesis unfolding es_def es'_def
    by (intro exI [of _ n1] exI [of _ n2] exI [of _ w1] exI [of _ w2]) simp
qed

end
