(* ===== verification/Service.thy ===== *)
theory Service
  imports Requests
begin

text \<open>
  The server as a service: what one client sees of it is an abstract cache, a map from bucket
  numbers to values. Nothing of the program is defined here; the definitions are the abstract
  cache and the text of its requests, and the lemmas show that the connection thread carries
  out every sequence of requests as the cache does, whatever segments their bytes arrive in.
\<close>

section \<open>Lines without a payload\<close>

text \<open>Every command but SET and ADD ignores what follows the line.\<close>

lemma answer_line_alone:
  assumes "nth_arg s 0 = Some cmd" and "map to_lower cmd \<notin> {''set'', ''add''}"
  shows "answer_line calloc_ok s t n w = answer_line True s [] 0 w"
  using assms by (simp add: answer_line_def Let_def)

lemma line_on_the_wire:
  assumes "cc_is_thread_running (w_client w)" and "good_memory env"
    and "reliable (sk_in (w_sock w))" and "incoming (sk_in (w_sock w)) = s @ CRLF"
    and "s \<noteq> []" and "no_break s" and "is_cstr s"
    and "nth_arg s 0 = Some cmd" and "map to_lower cmd \<notin> {''set'', ''add''}"
  shows "\<exists>n es. line_rounds env n (Outer, w) (continue_outer (answer_line True s [] 0 (after_read es w))) \<and>
    reliable es \<and> incoming es = []"
proof -
  have in_eq: "incoming (sk_in (w_sock w)) = s @ CRLF @ [] @ []" using assms(4) by simp
  have e: "set [] \<subseteq> {CR, LF}" "no_break []" by simp_all
  obtain n r brk es m where run:
    "line_rounds env n (Outer, w) (continue_outer
      (handle_command True (line_block s r m) (int (length (r @ brk))) (after_read es w)))"
    "brk = [] \<and> (\<exists>p'. [] = r @ p' \<and> incoming es = p' @ []) \<or> r = [] \<and> [] = brk @ incoming es"
    "reliable es"
    using connection_handles_line [OF assms(3) in_eq assms(2,1,5,6) e(2,1)] by blast
  have r: "r = []" "brk = []" "incoming es = []" using run(2) by auto
  have "handle_command True (line_block s [] m) 0 (after_read es w) =
      answer_line True s (NUL # replicate m NUL) 0 (after_read es w)"
    using handle_command_line [OF assms(7), of True "NUL # replicate m NUL" 0] by (simp add: line_block_def)
  also have "\<dots> = answer_line True s [] 0 (after_read es w)" by (rule answer_line_alone [OF assms(8,9)])
  finally show ?thesis using run(1,3) r by (intro exI [of _ n] exI [of _ es]) simp
qed

section \<open>The abstract cache\<close>

type_synonym cache = "nat \<Rightarrow> heap_value option"

datatype arguments = NoArguments | Offset nat | OffsetInitial nat int64

text \<open>The requests: SET and ADD with overwriting and not, INC and DEC up and down.\<close>

datatype request =
    Get string
  | Del string
  | Store bool string string string
  | Count bool string arguments
  | Ver

fun offset_of :: "arguments \<Rightarrow> nat" where
  "offset_of NoArguments = 1"
| "offset_of (Offset n) = n"
| "offset_of (OffsetInitial n _) = n"

fun initial_of :: "arguments \<Rightarrow> int64" where
  "initial_of (OffsetInitial _ i) = i"
| "initial_of _ = 1"

definition type_of_value :: "heap_value \<Rightarrow> cache_value_type" where
  "type_of_value v = (case v of VDecimal _ \<Rightarrow> CACHE_VALUE_DECIMAL | VReal _ \<Rightarrow> CACHE_VALUE_REAL | _ \<Rightarrow> CACHE_VALUE_STRING)"

definition found_reply :: "heap_value option \<Rightarrow> string" where
  "found_reply v =
     (case v of None \<Rightarrow> response_text RESPONSE_404_NOT_FOUND [] | Some v \<Rightarrow> value_reply (type_of_value v) (value_text v))"

text \<open>
  Counting: decimals as integers, as long as nothing exceeds 2^53 (\<open>None\<close> otherwise), reals as
  \<open>double\<close>; anything else is replaced by the initial value.
\<close>

definition counted :: "bool \<Rightarrow> arguments \<Rightarrow> heap_value option \<Rightarrow> heap_value option" where
  "counted up a old =
     (let n = int (offset_of a)
      in case old of
           Some (VDecimal d) \<Rightarrow>
             (let r = (if up then sint d + n else sint d - n)
              in if \<bar>sint d\<bar> \<le> 2 ^ 53 \<and> \<bar>r\<bar> \<le> 2 ^ 53 then Some (VDecimal (word_of_int r)) else None)
         | Some (VReal r) \<Rightarrow> Some (VReal (if up then r + int_to_double n else r - int_to_double n))
         | _ \<Rightarrow> Some (VDecimal (initial_of a)))"

text \<open>A step of the cache: the new contents and the reply; \<open>h\<close> gives the bucket of a key.\<close>

fun cache_step :: "(string \<Rightarrow> nat) \<Rightarrow> request \<Rightarrow> cache \<Rightarrow> (cache \<times> string) option" where
  "cache_step h (Get k) c = Some (c, found_reply (c (h k)))"
| "cache_step h (Del k) c = Some (c(h k := None), found_reply (c (h k)))"
| "cache_step h (Store overwrite k ty p) c =
     (if overwrite \<or> c (h k) = None
      then Some (c(h k \<mapsto> payload_value (type_arg ty) p), response_text RESPONSE_200_OK [])
      else Some (c, response_text RESPONSE_409_KEY_EXISTS []))"
| "cache_step h (Count up k a) c =
     map_option (\<lambda>v. (c(h k \<mapsto> v), found_reply (Some v))) (counted up a (c (h k)))"
| "cache_step h Ver c = Some (c, response_text RESPONSE_200_OK MEMUNCACHED_VERSION)"

fun cache_run :: "(string \<Rightarrow> nat) \<Rightarrow> request list \<Rightarrow> cache \<Rightarrow> (cache \<times> string) option" where
  "cache_run h [] c = Some (c, [])"
| "cache_run h (rq # rqs) c =
     (case cache_step h rq c of
        None \<Rightarrow> None
      | Some (c, reply) \<Rightarrow> map_option (\<lambda>(c, replies). (c, reply @ replies)) (cache_run h rqs c))"

section \<open>Requests as text\<close>

fun arguments_text :: "arguments \<Rightarrow> string" where
  "arguments_text NoArguments = []"
| "arguments_text (Offset n) = SP # fmt_d (int n)"
| "arguments_text (OffsetInitial n i) = SP # fmt_d (int n) @ SP # fmt_d (sint i)"

fun request_text :: "request \<Rightarrow> string" where
  "request_text (Get k) = key_request ''GET'' k @ CRLF"
| "request_text (Del k) = key_request ''DEL'' k @ CRLF"
| "request_text (Store overwrite k ty p) =
     store_request (if overwrite then ''SET'' else ''ADD'') k ty (fmt_d (int (length p))) @ CRLF @ p @ CRLF"
| "request_text (Count up k a) = (key_request (if up then ''INC'' else ''DEC'') k @ arguments_text a) @ CRLF"
| "request_text Ver = ''VER'' @ CRLF"

text \<open>
  Keys are words; payloads are single lines that do not start with a space and are short
  enough for a reply; offsets are small enough to be exact.
\<close>

fun request_ok :: "request \<Rightarrow> bool" where
  "request_ok (Get k) = is_word k"
| "request_ok (Del k) = is_word k"
| "request_ok (Store _ k ty p) =
     (is_word k \<and> wire_type ty \<and> length p < 2 ^ 31 - 25 \<and> no_break p \<and> (p = [] \<or> hd p \<noteq> SP))"
| "request_ok (Count _ k a) = (is_word k \<and> offset_of a \<le> 2 ^ 53)"
| "request_ok Ver = True"

section \<open>The words of INC and DEC\<close>

lemma nth_arg_blank: "nth_arg [] k = None"
proof -
  have "(after_word ^^ k) [] = []" by (induction k) (simp_all add: after_word_def)
  then show ?thesis by (simp add: nth_arg_def)
qed

lemma is_word_fmt_d: "is_word (fmt_d i)"
proof -
  have "fmt_d i \<noteq> []" by (simp add: fmt_d_def)
  moreover have "\<not> is_blank c" if "c \<in> set (fmt_d i)" for c
    using fmt_d_chars [OF that] by (auto simp: is_blank_def isdigit_def)
  ultimately show ?thesis by (simp add: is_word_def list_all_iff)
qed

lemma words_of_line:
  assumes "is_word s" and "is_word s'"
  shows "nth_arg s 0 = Some s" "after_word s = []" "nth_arg (s @ SP # r) 0 = Some s"
    "after_word (s @ SP # s' @ r') = s' @ r'"
proof -
  show "nth_arg s 0 = Some s" using nth_arg_word [OF assms(1), of "[]"] by simp
  show "after_word s = []" using next_word_append(2) [OF assms(1), of "[]"] by simp
  show "nth_arg (s @ SP # r) 0 = Some s" using nth_arg_word [OF assms(1), of "SP # r"] by (simp add: is_blank_def)
  show "after_word (s @ SP # s' @ r') = s' @ r'" by (rule after_word_word [OF assms(2,1)])
qed

definition offset_word :: "arguments \<Rightarrow> string option" where
  "offset_word a = (case a of NoArguments \<Rightarrow> None | Offset n \<Rightarrow> Some (fmt_d (int n)) | OffsetInitial n _ \<Rightarrow> Some (fmt_d (int n)))"

definition initial_word :: "arguments \<Rightarrow> string option" where
  "initial_word a = (case a of OffsetInitial _ i \<Rightarrow> Some (fmt_d (sint i)) | _ \<Rightarrow> None)"

lemma count_request_args:
  assumes "is_word key"
  shows "nth_arg (key @ arguments_text a) 0 = Some key"
    and "nth_arg (key @ arguments_text a) 1 = offset_word a"
    and "nth_arg (key @ arguments_text a) 2 = initial_word a"
proof -
  note d = is_word_fmt_d and w = words_of_line [OF assms is_word_fmt_d] and w' = words_of_line [OF is_word_fmt_d is_word_fmt_d]
  have "nth_arg (key @ arguments_text a) 0 = Some key \<and> nth_arg (key @ arguments_text a) 1 = offset_word a \<and>
      nth_arg (key @ arguments_text a) 2 = initial_word a"
  proof (cases a)
    case NoArguments
    then show ?thesis using w(1,2) nth_arg_Suc [of key]
      by (simp add: offset_word_def initial_word_def nth_arg_blank numeral_2_eq_2)
  next
    case (Offset n)
    then show ?thesis using w(3) w(4) [of _ "[]"] w'(1,2) nth_arg_Suc [of "key @ arguments_text a"] nth_arg_Suc [of "fmt_d (int n)"]
      by (simp add: offset_word_def initial_word_def nth_arg_blank numeral_2_eq_2)
  next
    case (OffsetInitial n i)
    then show ?thesis
      using w(3) w(4) [of "int n" "SP # fmt_d (sint i)"] w'(1,3) w'(4) [of _ _ "[]"] nth_arg_Suc [of "key @ arguments_text a"]
        nth_arg_Suc [of "fmt_d (int n) @ SP # fmt_d (sint i)"]
      by (simp add: offset_word_def initial_word_def numeral_2_eq_2)
  qed
  then show "nth_arg (key @ arguments_text a) 0 = Some key" "nth_arg (key @ arguments_text a) 1 = offset_word a"
    "nth_arg (key @ arguments_text a) 2 = initial_word a" by blast+
qed

lemma real_chars_fmt_d: "list_all isdigit s \<Longrightarrow> real_chars dot s"
  by (induction s) (auto simp: isdigit_def)

lemma fmt_d_shape: "\<exists>c s. isdigit c \<and> list_all isdigit s \<and> (fmt_d i = c # s \<or> i < 0 \<and> fmt_d i = CHR ''-'' # c # s)"
proof -
  obtain c s where cs: "dec_digits (nat \<bar>i\<bar>) = c # s" "isdigit c" by (rule dec_digits_Cons)
  moreover have "list_all isdigit s" using dec_digits_isdigit [of "nat \<bar>i\<bar>"] cs(1) by simp
  ultimately show ?thesis by (intro exI [of _ c] exI [of _ s]) (auto simp: fmt_d_def)
qed

lemma fmt_d_is_real: "is_real_string (fmt_d i)"
proof -
  obtain c s where cs: "isdigit c" "list_all isdigit s" "fmt_d i = c # s \<or> i < 0 \<and> fmt_d i = CHR ''-'' # c # s"
    using fmt_d_shape by blast
  then have "c \<noteq> CHR ''.''" "c \<noteq> CHR ''-''" "c \<noteq> CHR ''+''" by (auto simp: isdigit_def)
  with cs show ?thesis
    using fmt_d_no_NUL [of i] by (auto simp: is_real_string_def cstr_id real_chars_fmt_d)
qed

lemma count_args_fine: "count_args_error (Some key) (offset_word a) (initial_word a) = None"
proof -
  have "char_at (fmt_d (int n)) 0 \<noteq> CHR ''-''" for n
    using fmt_d_shape [of "int n"] by (auto simp: char_at_def isdigit_def)
  then show ?thesis
    by (cases a) (simp_all add: count_args_error_def key_error_def offset_word_def initial_word_def fmt_d_is_real)
qed

lemma count_words_values:
  assumes "offset_of a \<le> 2 ^ 53"
  shows "(case offset_word a of None \<Rightarrow> int_to_double 1 | Some s \<Rightarrow> atof s) = int_to_double (int (offset_of a))"
    and "initial_value (initial_word a) = (CACHE_VALUE_DECIMAL, VDecimal (initial_of a))"
proof -
  have "int n \<le> 2 ^ 53 \<Longrightarrow> atof (fmt_d (int n)) = int_to_double (int n)" for n
    using atof_fmt_d [of "int n" "[]"] by (simp add: ends_real_def)
  with assms show "(case offset_word a of None \<Rightarrow> int_to_double 1 | Some s \<Rightarrow> atof s) = int_to_double (int (offset_of a))"
    by (cases a) (simp_all add: offset_word_def)
  have "char_at (fmt_d (sint i)) 0 \<noteq> NUL" "char_at (fmt_d (sint i)) 1 \<noteq> CHR ''.''" "atoll (fmt_d (sint i)) = i" for i :: int64
  proof -
    obtain c s where cs: "isdigit c" "list_all isdigit s" "fmt_d (sint i) = c # s \<or> sint i < 0 \<and> fmt_d (sint i) = CHR ''-'' # c # s"
      using fmt_d_shape by blast
    then show "char_at (fmt_d (sint i)) 0 \<noteq> NUL" "char_at (fmt_d (sint i)) 1 \<noteq> CHR ''.''"
      by (cases s; auto simp: char_at_def isdigit_def)+
    show "atoll (fmt_d (sint i)) = i" using atoll_fmt_d [of "[]" i] by (simp add: no_digit_def)
  qed
  then show "initial_value (initial_word a) = (CACHE_VALUE_DECIMAL, VDecimal (initial_of a))"
    by (cases a) (simp_all add: initial_word_def initial_value_def)
qed

section \<open>The table as a cache\<close>

definition contents :: "hash_table \<Rightarrow> cache" where
  "contents t b = map_option cv_value (entries t b)"

lemma contents_update: "entries t' = (entries t)(b := e) \<Longrightarrow> contents t' = (contents t)(b := map_option cv_value e)"
  by (auto simp: contents_def fun_eq_iff)

lemma contents_lookup: "contents (w_table w) (bucket (w_table w) key) = map_option cv_value (lookup w key)"
  by (simp add: contents_def lookup_def)

lemma entry_type: "entry_ok cv \<Longrightarrow> cv_type cv = type_of_value (cv_value cv)"
  by (cases "cv_value cv") (simp_all add: entry_ok_def type_of_value_def)

lemma lookup_ok: "ht_inv (w_table w) \<Longrightarrow> lookup w key = Some cv \<Longrightarrow> entry_ok cv"
  unfolding lookup_def by (rule ht_entry_ok)

lemma entry_reply_found:
  "ht_inv (w_table w) \<Longrightarrow> entry_reply (lookup w key) = found_reply (map_option cv_value (lookup w key))"
  by (cases "lookup w key") (auto simp: entry_reply_def found_reply_def entry_type dest: lookup_ok)

lemma count_adjusts:
  assumes "ht_inv (w_table w)" and "lookup w key = Some cv" and "entry_ok cv'" and "\<not> is_string (cv_value cv')"
    and "table_op (w_table w) key (case offset of None \<Rightarrow> int_to_double 1 | Some s \<Rightarrow> atof s) =
      Inr ((w_table w)\<lparr>ht_table := (ht_table (w_table w))[bucket (w_table w) key := Some cv']\<rparr>, Some cv')"
  shows "\<exists>t. memuncached_count table_op key offset initial w =
      Inr (write_client (found_reply (Some (cv_value cv'))) (w\<lparr>w_table := t\<rparr>)) \<and> ht_inv t \<and>
    contents t = (contents (w_table w))(bucket (w_table w) key \<mapsto> cv_value cv') \<and> bucket t = bucket (w_table w)"
proof -
  let ?t = "(w_table w)\<lparr>ht_table := (ht_table (w_table w))[bucket (w_table w) key := Some cv']\<rparr>"
  let ?w = "w\<lparr>w_table := ?t\<rparr>"
  have e: "entries (w_table w) (bucket (w_table w) key) = Some cv" using assms(2) by (simp add: lookup_def)
  note st = ht_adjust_state [OF assms(1) e assms(3)]
  have l: "lookup ?w key = Some cv'" using st(2,3) by (simp add: lookup_def)
  have "sendable (lookup ?w key)" using assms(4) l by (auto simp: sendable_def)
  moreover have "entry_overrun (lookup ?w key) = 0" using assms(4) l by (simp add: entry_overrun_def)
  ultimately have "memuncached_get key ?w = Inr (write_client (found_reply (Some (cv_value cv'))) ?w)"
    using memuncached_get_eq [of ?w key] entry_reply_found [of ?w key] st(1) l by simp
  then show ?thesis using assms(5) st contents_update [OF st(2)]
    by (intro exI [of _ ?t]) (simp add: memuncached_count_def)
qed

lemma memuncached_count_ok:
  assumes "ht_inv (w_table w)" and "counted up a (map_option cv_value (lookup w key)) = Some v" and "offset_of a \<le> 2 ^ 53"
  shows "\<exists>t. (if up then memuncached_inc else memuncached_dec) key (offset_word a) (initial_word a) w =
      Inr (write_client (found_reply (Some v)) (w\<lparr>w_table := t\<rparr>)) \<and> ht_inv t \<and>
    contents t = (contents (w_table w))(bucket (w_table w) key \<mapsto> v) \<and> bucket t = bucket (w_table w)"
proof -
  let ?op = "if up then hash_table_inc else hash_table_dec"
  let ?n = "int (offset_of a)"
  have cmd: "(if up then memuncached_inc else memuncached_dec) key (offset_word a) (initial_word a) w =
      memuncached_count ?op key (offset_word a) (initial_word a) w"
    by (simp add: memuncached_inc_def memuncached_dec_def)
  have n: "\<bar>?n\<bar> \<le> 2 ^ 53" using assms(3) by simp
  note words = count_words_values [OF assms(3)]
  show ?thesis
  proof (cases "countable_key (lookup w key)")
    case False
    have op: "?op (w_table w) key x = Inr (w_table w, None)" for x
      using adjust_not_countable [OF assms(1) False] by (simp add: hash_table_inc_def hash_table_dec_def)
    have v: "v = VDecimal (initial_of a)"
    proof (cases "lookup w key")
      case (Some cv)
      then have "cv_type cv = CACHE_VALUE_STRING" using False by (simp add: countable_key_def)
      with Some assms(2) lookup_ok [OF assms(1) Some] show ?thesis
        by (cases "cv_value cv") (simp_all add: counted_def entry_ok_def cache_types)
    qed (use assms(2) in \<open>simp add: counted_def\<close>)
    have "type_of_value v = CACHE_VALUE_DECIMAL" using v by (simp add: type_of_value_def)
    then show ?thesis unfolding cmd
      using count_stores_initial [of ?op w key "offset_word a" "initial_word a", OF op assms(1)] words(2) v
      by (auto simp: found_reply_def dest!: contents_update)
  next
    case True
    then obtain cv where cv: "lookup w key = Some cv" "cv_type cv \<noteq> CACHE_VALUE_STRING" by (auto simp: countable_key_def)
    note ok = lookup_ok [OF assms(1) cv(1)]
    have e: "entries (w_table w) (bucket (w_table w) key) = Some cv" using cv(1) by (simp add: lookup_def)
    consider (decimal) d where "cv_value cv = VDecimal d" | (real) r where "cv_value cv = VReal r"
      using ok cv(2) by (cases "cv_value cv") (simp_all add: entry_ok_def)
    then show ?thesis
    proof cases
      case decimal
      let ?r = "if up then sint d + ?n else sint d - ?n"
      let ?cv = "cv\<lparr>cv_value := VDecimal (word_of_int ?r)\<rparr>"
      have r: "\<bar>sint d\<bar> \<le> 2 ^ 53" "\<bar>?r\<bar> \<le> 2 ^ 53" "v = VDecimal (word_of_int ?r)"
        using assms(2) cv(1) decimal by (simp_all add: counted_def Let_def split: if_splits)
      have "?op (w_table w) key (int_to_double ?n) =
          Inr ((w_table w)\<lparr>ht_table := (ht_table (w_table w))[bucket (w_table w) key := Some ?cv]\<rparr>, Some ?cv)"
        using counters_add [OF assms(1) e decimal r(1) n] counters_sub [OF assms(1) e decimal r(1) n] r(2) by (cases up) simp_all
      moreover have "entry_ok ?cv" "\<not> is_string (cv_value ?cv)" using ok decimal by (simp_all add: entry_ok_def)
      ultimately show ?thesis unfolding cmd
        using count_adjusts [OF assms(1) cv(1), of ?cv ?op "offset_word a" "initial_word a"] words(1) r(3) by simp
    next
      case real
      let ?r = "if up then r + int_to_double ?n else r - int_to_double ?n"
      let ?cv = "cv\<lparr>cv_value := VReal ?r\<rparr>"
      have v: "v = VReal ?r" using assms(2) cv(1) real by (simp add: counted_def Let_def)
      have ty: "cv_type cv = CACHE_VALUE_REAL" using ok real by (simp add: entry_ok_def)
      have "?op (w_table w) key (int_to_double ?n) =
          Inr ((w_table w)\<lparr>ht_table := (ht_table (w_table w))[bucket (w_table w) key := Some ?cv]\<rparr>, Some ?cv)"
        using e real ty
        by (cases up) (simp_all add: hash_table_inc_def hash_table_dec_def hash_table_adjust_eq [OF assms(1)] adjust_value_def cache_types)
      moreover have "entry_ok ?cv" "\<not> is_string (cv_value ?cv)" using ok real by (simp_all add: entry_ok_def)
      ultimately show ?thesis unfolding cmd
        using count_adjusts [OF assms(1) cv(1), of ?cv ?op "offset_word a" "initial_word a"] words(1) v by simp
    qed
  qed
qed

section \<open>Every request is served\<close>

text \<open>A thread at its outer loop whose table holds the cache \<open>c\<close>, with strings short enough to be sent.\<close>

definition serving :: "world \<Rightarrow> cache \<Rightarrow> bool" where
  "serving w c \<longleftrightarrow> ht_inv (w_table w) \<and> cc_is_thread_running (w_client w) \<and> contents (w_table w) = c \<and>
     (\<forall>b s. c b = Some (VString s) \<longrightarrow> length s < 2 ^ 31 - 25)"

lemma serving_sendable: "serving w c \<Longrightarrow> sendable (lookup w key)"
  using contents_lookup [of w key] by (auto simp: serving_def sendable_def)

lemma serving_lookup: "serving w c \<Longrightarrow> map_option cv_value (lookup w key) = c (bucket (w_table w) key)"
  using contents_lookup [of w key] by (simp add: serving_def)

lemma serving_reply: "serving w c \<Longrightarrow> entry_reply (lookup w key) = found_reply (c (bucket (w_table w) key))"
  using entry_reply_found [of w key] serving_lookup [of w c key] by (simp add: serving_def)

lemma serving_after: "serving (after_read es w) c \<longleftrightarrow> serving w c"
  by (simp add: serving_def)

text \<open>
  What a request served leaves: the new contents, the reply behind the earlier output, and
  nothing of the request on the socket.
\<close>

definition request_served :: "environment \<Rightarrow> event list \<Rightarrow> world \<Rightarrow> cache \<Rightarrow> string \<Rightarrow> world \<Rightarrow> bool" where
  "request_served env es w c' reply w' \<longleftrightarrow>
     (\<exists>n. line_rounds env n (Outer, after_read es w) (Some (Inr (Outer, w')))) \<and> serving w' c' \<and>
     bucket (w_table w') = bucket (w_table w) \<and> sk_out (w_sock w') = sk_out (w_sock w) @ reply \<and>
     reliable (sk_in (w_sock w')) \<and> incoming (sk_in (w_sock w')) = []"

lemma request_served_steps:
  "request_served env es w c' reply w' \<Longrightarrow> \<exists>n. connection_steps env n (Outer, after_read es w) = Some (Inr (Outer, w'))"
  by (auto simp: request_served_def dest: line_rounds_steps)

lemma serving_update:
  assumes "serving w c" and "ht_inv t" and "contents t = c(b := v)" and "\<And>s. v = Some (VString s) \<Longrightarrow> length s < 2 ^ 31 - 25"
    and "w_table w' = t" and "w_client w' = w_client w"
  shows "serving w' (c(b := v))"
  using assms unfolding serving_def by auto

lemma serve_get:
  assumes "serving w c" and "good_memory env" and "reliable es" and "incoming es = request_text (Get k)" and "is_word k"
  shows "\<exists>w'. request_served env es w c (found_reply (c (bucket (w_table w) k))) w'"
proof -
  have s: "serving (after_read es w) c" using assms(1) by (simp add: serving_after)
  have pre: "ht_inv (w_table (after_read es w))" "cc_is_thread_running (w_client (after_read es w))"
    "reliable (sk_in (w_sock (after_read es w)))" "incoming (sk_in (w_sock (after_read es w))) = key_request ''GET'' k @ CRLF"
    using s assms(3,4) by (simp_all add: serving_def)
  obtain n over over' es' where n: "line_rounds env n (Outer, after_read es w)
      (Some (Inr (Outer, write_client (entry_reply (lookup (after_read es w) k))
        (overrun over' (overrun over (after_read es' (after_read es w)))))))" "reliable es'" "incoming es' = []"
    using get_on_the_wire [OF pre(1,2) assms(2) pre(3,4) is_word_commands(3) lower_commands(3) assms(5) serving_sendable [OF s]]
    by blast
  let ?w = "write_client (entry_reply (lookup (after_read es w) k)) (overrun over' (overrun over (after_read es' (after_read es w))))"
  have "serving ?w c" using assms(1) by (simp add: serving_def write_client_def)
  with n serving_reply [OF s, of k] show ?thesis unfolding request_served_def
    by (intro exI [of _ ?w] conjI exI [of _ n]) (simp_all add: write_client_def send_def)
qed

text \<open>A line whose handler ends by writing a reply.\<close>

lemma serve_line:
  assumes "serving w c" and "good_memory env" and "reliable es" and "incoming es = s @ CRLF"
    and "s \<noteq> []" and "no_break s" and "is_cstr s" and "nth_arg s 0 = Some cmd" and "map to_lower cmd \<notin> {''set'', ''add''}"
    and "\<And>w. serving w c \<Longrightarrow> w_table w = w_table w0 \<Longrightarrow> \<exists>t w'. answer_line True s [] 0 w = Some (Inr w') \<and> w_table w' = t \<and>
      w_client w' = w_client w \<and> w_sock w' = send reply (w_sock w) \<and>
      ht_inv t \<and> contents t = c(b := v) \<and> bucket t = bucket (w_table w)"
    and "w_table w0 = w_table w" and "\<And>s. v = Some (VString s) \<Longrightarrow> length s < 2 ^ 31 - 25"
  shows "\<exists>w'. request_served env es w (c(b := v)) reply w'"
proof -
  have s: "serving (after_read es w) c" using assms(1) by (simp add: serving_after)
  then have pre: "cc_is_thread_running (w_client (after_read es w))" by (simp add: serving_def)
  obtain n es' where n: "line_rounds env n (Outer, after_read es w)
      (continue_outer (answer_line True s [] 0 (after_read es' (after_read es w))))" "reliable es'" "incoming es' = []"
    using line_on_the_wire [OF pre assms(2) _ _ assms(5-9)] assms(3,4) by auto
  have s': "serving (after_read es' (after_read es w)) c" "w_table (after_read es' (after_read es w)) = w_table w0"
    using s assms(11) by (simp_all add: serving_after)
  from assms(10) [OF this] obtain t w' where w': "answer_line True s [] 0 (after_read es' (after_read es w)) = Some (Inr w')"
    "w_table w' = t" "w_client w' = w_client (after_read es' (after_read es w))"
    "w_sock w' = send reply (w_sock (after_read es' (after_read es w)))"
    "ht_inv t" "contents t = c(b := v)" "bucket t = bucket (w_table (after_read es' (after_read es w)))" by blast
  have "serving w' (c(b := v))" using serving_update [OF s'(1) w'(5,6) assms(12) w'(2,3)] .
  with n w' show ?thesis unfolding request_served_def
    by (intro exI [of _ w'] conjI exI [of _ n]) (simp_all add: continue_outer_def send_def)
qed

lemma key_request_line:
  assumes "is_word cmd" and "is_word k"
  shows "key_request cmd k \<noteq> []" "no_break (key_request cmd k)" "is_cstr (key_request cmd k)"
    "nth_arg (key_request cmd k) 0 = Some cmd"
  using is_word_no_break assms words_of_line(3) [OF assms]
  by (simp_all add: key_request_def)

lemma serve_del:
  assumes "serving w c" and "good_memory env" and "reliable es" and "incoming es = request_text (Del k)" and "is_word k"
  shows "\<exists>w'. request_served env es w (c(bucket (w_table w) k := None)) (found_reply (c (bucket (w_table w) k))) w'"
proof (rule serve_line [OF assms(1-3)])
  note line = key_request_line [OF is_word_commands(4) assms(5)]
  show "incoming es = key_request ''DEL'' k @ CRLF" using assms(4) by simp
  show "key_request ''DEL'' k \<noteq> []" "no_break (key_request ''DEL'' k)" "is_cstr (key_request ''DEL'' k)"
    "nth_arg (key_request ''DEL'' k) 0 = Some ''DEL''" by (fact line)+
  show "map to_lower ''DEL'' \<notin> {''set'', ''add''}" using lower_commands(4) by simp
  fix w1 assume w1: "serving w1 c" "w_table w1 = w_table w"
  let ?over = "snd (str_escape (key_request ''DEL'' k))"
  have w2: "serving (overrun ?over w1) c" using w1(1) by (simp add: serving_def)
  then have inv: "ht_inv (w_table (overrun ?over w1))" by (simp add: serving_def)
  obtain t where t: "memuncached_del k (overrun ?over w1) =
      Inr (write_client (entry_reply (lookup (overrun ?over w1) k))
        (overrun (entry_overrun (lookup (overrun ?over w1) k)) (overrun ?over w1))\<lparr>w_table := t\<rparr>)"
    "ht_inv t" "entries t = (entries (w_table (overrun ?over w1)))(bucket (w_table (overrun ?over w1)) k := None)"
    "bucket t = bucket (w_table (overrun ?over w1))"
    using memuncached_del_ok [OF inv serving_sendable [OF w2]] by blast
  have a: "answer_line True (key_request ''DEL'' k) [] 0 w1 = Some (memuncached_del k (overrun ?over w1))"
    using key_request_words(2) [OF is_word_commands(4) assms(5), of "[]"] lower_commands(4) by simp
  have "contents (w_table w1) = c" using w1(1) by (simp add: serving_def)
  with contents_update [OF t(3)] have "contents t = c(bucket (w_table w) k := None)" using w1(2) by simp
  moreover have "entry_reply (lookup (overrun ?over w1) k) = found_reply (c (bucket (w_table w) k))"
    using serving_reply [OF w2, of k] w1(2) by simp
  ultimately show "\<exists>t w'. answer_line True (key_request ''DEL'' k) [] 0 w1 = Some (Inr w') \<and> w_table w' = t \<and>
      w_client w' = w_client w1 \<and> w_sock w' = send (found_reply (c (bucket (w_table w) k))) (w_sock w1) \<and>
      ht_inv t \<and> contents t = c(bucket (w_table w) k := None) \<and> bucket t = bucket (w_table w1)"
    using t(1,2,4) a by (simp add: write_client_def overrun_def)
qed simp_all

lemma count_line_words:
  assumes "is_word k" and "cmd = (if up then ''INC'' else ''DEC'')"
  shows "key_request cmd k @ arguments_text a \<noteq> []" "no_break (key_request cmd k @ arguments_text a)"
    "is_cstr (key_request cmd k @ arguments_text a)" "nth_arg (key_request cmd k @ arguments_text a) 0 = Some cmd"
    "answer_line True (key_request cmd k @ arguments_text a) [] 0 w =
      Some ((if up then memuncached_inc else memuncached_dec) k (offset_word a) (initial_word a)
        (overrun (snd (str_escape (key_request cmd k @ arguments_text a))) w))"
    "map to_lower cmd \<notin> {''set'', ''add''}"
proof -
  let ?s = "key_request cmd k @ arguments_text a"
  have cmd: "is_word cmd" "map to_lower cmd = (if up then ''inc'' else ''dec'')"
    unfolding assms(2) by (simp_all add: is_word_def is_blank_def) code_simp+
  have args: "no_break (arguments_text a)" "is_cstr (arguments_text a)"
    using is_word_no_break(1,2) [OF is_word_fmt_d] by (cases a; simp)+
  show "?s \<noteq> []" "no_break ?s" "is_cstr ?s"
    using key_request_line [OF cmd(1) assms(1)] args by (simp_all add: key_request_def)
  have "after_word ?s = k @ arguments_text a"
    using words_of_line(4) [OF cmd(1) assms(1)] by (simp add: key_request_def)
  moreover show first: "nth_arg ?s 0 = Some cmd"
    using words_of_line(3) [OF cmd(1) assms(1), of "k @ arguments_text a"] by (simp add: key_request_def)
  ultimately show "answer_line True ?s [] 0 w =
      Some ((if up then memuncached_inc else memuncached_dec) k (offset_word a) (initial_word a)
        (overrun (snd (str_escape ?s)) w))"
    using cmd(2) count_request_args [OF assms(1), of a] count_args_fine [of k a]
    by (simp add: answer_line_def Let_def count_line_def split: if_splits)
  show "map to_lower cmd \<notin> {''set'', ''add''}" using cmd(2) by simp
qed

lemma serve_count:
  assumes "serving w c" and "good_memory env" and "reliable es" and "incoming es = request_text (Count up k a)"
    and "request_ok (Count up k a)" and "counted up a (c (bucket (w_table w) k)) = Some v"
  shows "\<exists>w'. request_served env es w (c(bucket (w_table w) k \<mapsto> v)) (found_reply (Some v)) w'"
proof (rule serve_line [OF assms(1-3)])
  define cmd where "cmd = (if up then ''INC'' else ''DEC'')"
  let ?s = "key_request cmd k @ arguments_text a"
  have k: "is_word k" "offset_of a \<le> 2 ^ 53" using assms(5) by simp_all
  note line = count_line_words [OF k(1) cmd_def]
  show "incoming es = ?s @ CRLF" using assms(4) by (simp add: cmd_def)
  show "?s \<noteq> []" "no_break ?s" "is_cstr ?s" "nth_arg ?s 0 = Some cmd" "map to_lower cmd \<notin> {''set'', ''add''}"
    by (fact line)+
  fix w1 assume w1: "serving w1 c" "w_table w1 = w_table w"
  let ?w = "overrun (snd (str_escape ?s)) w1"
  have w2: "serving ?w c" using w1(1) by (simp add: serving_def)
  have b: "bucket (w_table ?w) k = bucket (w_table w) k" using w1(2) by simp
  have "ht_inv (w_table ?w)" "counted up a (map_option cv_value (lookup ?w k)) = Some v"
    using w2 assms(6) serving_lookup [OF w2, of k] b by (simp_all add: serving_def)
  from memuncached_count_ok [OF this k(2)] obtain t where t:
    "(if up then memuncached_inc else memuncached_dec) k (offset_word a) (initial_word a) ?w =
      Inr (write_client (found_reply (Some v)) (?w\<lparr>w_table := t\<rparr>))" "ht_inv t"
    "contents t = (contents (w_table ?w))(bucket (w_table ?w) k \<mapsto> v)" "bucket t = bucket (w_table ?w)" by blast
  have "contents t = c(bucket (w_table w) k \<mapsto> v)" using t(3) w2 b by (simp add: serving_def)
  then show "\<exists>t w'. answer_line True ?s [] 0 w1 = Some (Inr w') \<and> w_table w' = t \<and>
      w_client w' = w_client w1 \<and> w_sock w' = send (found_reply (Some v)) (w_sock w1) \<and>
      ht_inv t \<and> contents t = c(bucket (w_table w) k \<mapsto> v) \<and> bucket t = bucket (w_table w1)"
    using t(1,2,4) line(5) [of a w1] by (simp add: write_client_def)
next
  fix s assume "Some v = Some (VString s)"
  with assms(6) show "length s < 2 ^ 31 - 25"
    by (auto simp: counted_def Let_def split: option.splits heap_value.splits if_splits)
qed simp_all

lemma serve_ver:
  assumes "serving w c" and "good_memory env" and "reliable es" and "incoming es = request_text Ver"
  shows "\<exists>w'. request_served env es w c (response_text RESPONSE_200_OK MEMUNCACHED_VERSION) w'"
proof -
  have word: "is_word ''VER''" "map to_lower ''VER'' = ''ver''" by (simp add: is_word_def is_blank_def) code_simp
  note w = words_of_line(1,2) [OF word(1) word(1)]
  have short: "length s < 2 ^ 31 - 25" if "c 0 = Some (VString s)" for s using assms(1) that by (auto simp: serving_def)
  have "\<exists>w'. request_served env es w (c(0 := c 0)) (response_text RESPONSE_200_OK MEMUNCACHED_VERSION) w'"
  proof (rule serve_line [OF assms(1-3), where s = "''VER''" and cmd = "''VER''"])
    fix w1 assume w1: "serving w1 c" "w_table w1 = w_table w"
    have "answer_line True ''VER'' [] 0 w1 = Some (Inr (memuncached_ver (overrun (snd (str_escape ''VER'')) w1)))"
      using w word(2) by (simp add: answer_line_def Let_def plain_line_def)
    with w1(1) show "\<exists>t w'. answer_line True ''VER'' [] 0 w1 = Some (Inr w') \<and> w_table w' = t \<and>
        w_client w' = w_client w1 \<and> w_sock w' = send (response_text RESPONSE_200_OK MEMUNCACHED_VERSION) (w_sock w1) \<and>
        ht_inv t \<and> contents t = c(0 := c 0) \<and> bucket t = bucket (w_table w1)"
      by (simp add: serving_def memuncached_ver_def reply_defs send_def)
  qed (use assms(4) w word is_word_no_break [OF word(1)] short in auto)
  then show ?thesis by simp
qed

lemma serve_store:
  assumes "serving w c" and "good_memory env" and "reliable es" and "incoming es = request_text (Store overwrite k ty p)"
    and "request_ok (Store overwrite k ty p)"
    and "cache_step (bucket (w_table w)) (Store overwrite k ty p) c = Some (c', reply)"
  shows "\<exists>w'. request_served env es w c' reply w'"
proof -
  let ?w = "after_read es w" and ?cmd = "if overwrite then ''SET'' else ''ADD''" and ?b = "bucket (w_table w) k"
  have s: "serving ?w c" using assms(1) by (simp add: serving_after)
  have pre: "ht_inv (w_table ?w)" "cc_is_thread_running (w_client ?w)" "reliable (sk_in (w_sock ?w))"
    "incoming (sk_in (w_sock ?w)) = store_request ?cmd k ty (fmt_d (int (length p))) @ CRLF @ p @ CRLF"
    using s assms(3,4) by (simp_all add: serving_def)
  have cmd: "is_word ?cmd" "map to_lower ?cmd = (if overwrite then ''set'' else ''add'')"
    using is_word_commands lower_commands by simp_all
  have p: "is_word k" "wire_type ty" "length p + 2 < 2 ^ 31" "no_break p" "p = [] \<or> hd p \<noteq> SP" "length p < 2 ^ 31 - 25"
    using assms(5) by simp_all
  have l: "map_option cv_value (lookup ?w k) = c ?b" using serving_lookup [OF s] by simp
  show ?thesis
  proof (cases "overwrite \<or> c ?b = None")
    case True
    then have res: "c' = c(?b \<mapsto> payload_value (type_arg ty) p)" "reply = response_text RESPONSE_200_OK []"
      using assms(6) by auto
    have free: "overwrite \<or> lookup ?w k = None" using True l by auto
    obtain n over t es' where n: "line_rounds env n (Outer, ?w)
        (Some (Inr (Outer, REPLY_SUCCESS [] (overrun over (after_read es' ?w)\<lparr>w_table := t\<rparr>))))"
      "ht_inv t" "bucket t = bucket (w_table ?w)"
      "entries t = (entries (w_table ?w))(bucket (w_table ?w) k \<mapsto> payload_entry k (type_arg ty) p)"
      "reliable es'" "incoming es' = []"
      using store_on_the_wire [OF pre(1,2) assms(2) pre(3,4) cmd p(1-5) free] by blast
    let ?w' = "REPLY_SUCCESS [] (overrun over (after_read es' ?w)\<lparr>w_table := t\<rparr>)"
    have "contents t = c'"
      using contents_update [OF n(4)] s res(1) by (simp add: serving_def payload_entry_def)
    moreover have "length x < 2 ^ 31 - 25" if "payload_value (type_arg ty) p = VString x" for x
      using that p(6) by (auto simp: payload_value_def split: if_splits)
    ultimately have "serving ?w' c'"
      unfolding res(1) by (intro serving_update [OF s n(2)]) (auto simp: reply_defs)
    with n(1,3,5,6) res(2) show ?thesis unfolding request_served_def
      by (intro exI [of _ ?w'] conjI exI [of _ n]) (simp_all add: reply_defs send_def)
  next
    case False
    then have res: "c' = c" "reply = response_text RESPONSE_409_KEY_EXISTS []" "?cmd = ''ADD''"
      using assms(6) by auto
    have taken: "lookup ?w k \<noteq> None" using False l by auto
    have add: "map to_lower ?cmd = ''add''" using cmd(2) False by simp
    obtain n over es' where n: "line_rounds env n (Outer, ?w)
        (Some (Inr (Outer, REPLY_KEY_EXISTS (overrun over (after_read es' ?w)))))" "reliable es'" "incoming es' = []"
      using add_on_the_wire [OF pre(1,2) assms(2) pre(3,4) cmd(1) add p(1-5) taken] by blast
    let ?w' = "REPLY_KEY_EXISTS (overrun over (after_read es' ?w))"
    have "serving ?w' c'" using s res(1) by (simp add: serving_def reply_defs)
    with n res(2) show ?thesis unfolding request_served_def
      by (intro exI [of _ ?w'] conjI exI [of _ n]) (simp_all add: reply_defs send_def)
  qed
qed

lemma serve_request:
  assumes "serving w c" and "good_memory env" and "reliable es" and "incoming es = request_text rq" and "request_ok rq"
    and "cache_step (bucket (w_table w)) rq c = Some (c', reply)"
  shows "\<exists>w'. request_served env es w c' reply w'"
proof (cases rq)
  case (Get k)
  with serve_get [OF assms(1-3), of k] assms show ?thesis by auto
next
  case (Del k)
  with serve_del [OF assms(1-3), of k] assms show ?thesis by auto
next
  case (Store overwrite k ty p)
  with serve_store [OF assms(1-3), of overwrite k ty p] assms(4-6) show ?thesis by (simp only:)
next
  case (Count up k a)
  with serve_count [OF assms(1-3), of up k a] assms show ?thesis by auto
next
  case Ver
  with serve_ver [OF assms(1-3)] assms show ?thesis by auto
qed

section \<open>Properties\<close>

text \<open>A client that sends each request when the previous one has been answered.\<close>

inductive session_runs :: "environment \<Rightarrow> event list list \<Rightarrow> world \<Rightarrow> world \<Rightarrow> bool" for env where
  finish: "session_runs env [] w w"
| step: "connection_steps env n (Outer, after_read es w) = Some (Inr (Outer, w1)) \<Longrightarrow> session_runs env ess w1 w2 \<Longrightarrow>
    session_runs env (es # ess) w w2"

lemma session_refines:
  assumes "serving w c" and "good_memory env"
    and "list_all2 (\<lambda>es rq. reliable es \<and> incoming es = request_text rq) ess rqs" and "list_all request_ok rqs"
    and "cache_run (bucket (w_table w)) rqs c = Some (c', replies)"
  shows "\<exists>w'. session_runs env ess w w' \<and> serving w' c' \<and> sk_out (w_sock w') = sk_out (w_sock w) @ replies \<and>
    bucket (w_table w') = bucket (w_table w)"
  using assms(3,1,4,5)
proof (induction ess rqs arbitrary: w c c' replies rule: list_all2_induct)
  case Nil
  then show ?case by (intro exI [of _ w]) (simp add: session_runs.finish)
next
  case (Cons es ess rq rqs)
  obtain c1 reply where step: "cache_step (bucket (w_table w)) rq c = Some (c1, reply)"
    using Cons.prems(3) by (auto split: option.splits)
  then obtain rest where rest: "cache_run (bucket (w_table w)) rqs c1 = Some (c', rest)" "replies = reply @ rest"
    using Cons.prems(3) by auto
  obtain w1 where w1: "request_served env es w c1 reply w1"
    using serve_request [OF Cons.prems(1) assms(2) _ _ _ step, of es] Cons.hyps(1) Cons.prems(2) by auto
  then have "serving w1 c1" "cache_run (bucket (w_table w1)) rqs c1 = Some (c', rest)"
    using rest(1) by (simp_all add: request_served_def)
  moreover have "list_all request_ok rqs" using Cons.prems(2) by simp
  ultimately obtain w2 where "session_runs env ess w1 w2" "serving w2 c'" "sk_out (w_sock w2) = sk_out (w_sock w1) @ rest"
    "bucket (w_table w2) = bucket (w_table w1)"
    using Cons.IH by blast
  moreover obtain n where "connection_steps env n (Outer, after_read es w) = Some (Inr (Outer, w1))"
    using request_served_steps [OF w1] by blast
  ultimately show ?case using w1 rest(2) unfolding request_served_def by (auto intro: session_runs.step)
qed



end
