(* ===== verification/Connection_Loop.thy ===== *)
theory Connection_Loop
  imports Requests
begin

text \<open>
  Runs of the connection thread of connection.c: what all of its steps keep, which inputs it
  faults on, when it ends and when it never does. The definitions it is about are those of
  Connection.
\<close>

section \<open>Steps and runs\<close>

lemma connection_steps_append:
  "connection_steps env n s = Some (Inr s') \<Longrightarrow> connection_steps env (n + m) s = connection_steps env m s'"
  by (induction n arbitrary: s) (auto split: option.splits sum.splits)

lemma connection_steps_Finished: "connection_steps env n (Finished, w) = Some (Inr (Finished, w))"
  by (induction n) (simp_all add: connection_step_def)

definition run_result :: "(thread_pc \<times> world) res \<Rightarrow> world res option" where
  "run_result r =
     (case r of Inl e \<Rightarrow> Some (Inl e)
      | Inr (pc, w) \<Rightarrow> if pc = Finished then Some (Inr w) else None)"

lemma connection_run_result:
  assumes "connection_run env pc w = Some r"
  shows "\<exists>n s. connection_steps env n (pc, w) = Some s \<and> run_result s = Some r"
proof (rule connection_run.raw_induct [OF _ assms])
  fix run and env pc w and r :: "world res"
  assume IH: "\<And>env pc w r. run env pc w = Some r \<Longrightarrow>
      \<exists>n s. connection_steps env n (pc, w) = Some s \<and> run_result s = Some r"
    and eq: "(case connection_step env True pc w of
      None \<Rightarrow> None
    | Some (Inl e) \<Rightarrow> Some (Inl e)
    | Some (Inr s) \<Rightarrow>
        (case s of (pc', w') \<Rightarrow> if pc' = Finished then Some (Inr w') else run env pc' w')) = Some r"
  show "\<exists>n s. connection_steps env n (pc, w) = Some s \<and> run_result s = Some r"
  proof (cases "connection_step env True pc w")
    case (Some s)
    show ?thesis
    proof (cases s)
      case (Inl e)
      with Some eq show ?thesis by (intro exI [of _ "Suc 0"] exI [of _ s]) (simp add: run_result_def)
    next
      case (Inr s1)
      obtain pc1 w1 where s1: "s1 = (pc1, w1)" by (cases s1)
      show ?thesis
      proof (cases "pc1 = Finished")
        case True
        with Some Inr s1 eq show ?thesis by (intro exI [of _ "Suc 0"] exI [of _ s]) (simp add: run_result_def)
      next
        case False
        with Some Inr s1 eq IH [of env pc1 w1 r] obtain n s' where
          "connection_steps env n (pc1, w1) = Some s'" "run_result s' = Some r" by auto
        with Some Inr s1 show ?thesis by (intro exI [of _ "Suc n"] exI [of _ s']) simp
      qed
    qed
  qed (use eq in simp)
qed

lemma connection_steps_run:
  assumes "connection_steps env n (pc, w) = Some (Inr (pc', w'))" and "pc' \<noteq> Finished"
  shows "connection_run env pc w = connection_run env pc' w'"
  using assms(1)
proof (induction n arbitrary: pc w)
  case (Suc n)
  then obtain pc1 w1 where s: "connection_step env True pc w = Some (Inr (pc1, w1))"
    "connection_steps env n (pc1, w1) = Some (Inr (pc', w'))"
    by (auto split: option.splits sum.splits)
  have "pc1 \<noteq> Finished" using s(2) assms(2) by (auto simp: connection_steps_Finished)
  then have "connection_run env pc w = connection_run env pc1 w1"
    by (subst connection_run.simps) (simp add: s(1))
  also have "\<dots> = connection_run env pc' w'" using s(2) by (rule Suc.IH)
  finally show ?case .
qed simp

section \<open>A peer that has gone\<close>

lemma spin_step:
  assumes "reliable (sk_in (w_sock w))" and "incoming (sk_in (w_sock w)) = []"
    and "cc_is_thread_running (w_client w)" and "pc \<noteq> Finished"
  shows "\<exists>pc' es'. connection_step env True pc w = Some (Inr (pc', after_read es' w)) \<and> pc' \<noteq> Finished \<and>
    reliable es' \<and> incoming es' = []"
proof (cases pc)
  case Outer
  have "w = after_read (sk_in (w_sock w)) w" by (simp add: after_read_def)
  with Outer assms show ?thesis
    by (intro exI [of _ "Reading new_line_buffer"] exI [of _ "sk_in (w_sock w)"]) (simp add: connection_step_def)
next
  case (Reading l)
  with recv_end [OF assms(2,1)] show ?thesis
    by (intro exI [of _ Outer] exI [of _ "[]"]) (simp add: connection_step_def after_read_def reliable_def)
qed (use assms(4) in simp)

lemma spin_steps:
  assumes "reliable (sk_in (w_sock w))" and "incoming (sk_in (w_sock w)) = []"
    and "cc_is_thread_running (w_client w)" and "pc \<noteq> Finished"
  shows "\<exists>pc' es'. connection_steps env n (pc, w) = Some (Inr (pc', after_read es' w)) \<and> pc' \<noteq> Finished"
  using assms
proof (induction n arbitrary: pc w)
  case 0
  then show ?case by (intro exI [of _ pc] exI [of _ "sk_in (w_sock w)"]) (simp add: after_read_def)
next
  case (Suc n)
  from spin_step [OF Suc.prems, of env] obtain pc1 es1 where s:
    "connection_step env True pc w = Some (Inr (pc1, after_read es1 w))" "pc1 \<noteq> Finished" "reliable es1" "incoming es1 = []"
    by blast
  have "\<exists>pc' es'. connection_steps env n (pc1, after_read es1 w) = Some (Inr (pc', after_read es' (after_read es1 w))) \<and>
      pc' \<noteq> Finished"
    by (rule Suc.IH) (use s Suc.prems(3) in simp_all)
  with s(1) show ?case by auto
qed

text \<open>
  C27. A peer that has closed its connection is never noticed: \<open>recv\<close> returns 0, which ends
  the inner loop, and the outer loop starts it again. The thread takes steps for ever, none
  of them changes anything but its position, and the loop never ends.
\<close>

theorem disconnect_spins:
  assumes "reliable (sk_in (w_sock w))" and "incoming (sk_in (w_sock w)) = []"
    and "cc_is_thread_running (w_client w)"
  shows "connection_run env Outer w = None \<and>
    (\<forall>n. \<exists>pc es. connection_steps env n (Outer, w) = Some (Inr (pc, after_read es w)) \<and> pc \<noteq> Finished)"
proof -
  have steps: "\<exists>pc es. connection_steps env n (Outer, w) = Some (Inr (pc, after_read es w)) \<and> pc \<noteq> Finished" for n
    by (rule spin_steps [OF assms]) simp
  have "connection_run env Outer w \<noteq> Some r" for r
  proof
    assume "connection_run env Outer w = Some r"
    then obtain n s where "connection_steps env n (Outer, w) = Some s" "run_result s = Some r"
      using connection_run_result by blast
    with steps [of n] show False by (auto simp: run_result_def)
  qed
  then show ?thesis using steps by (cases "connection_run env Outer w") auto
qed

theorem disconnect_spins_witness:
  "connection_run zero_memory Outer (fresh_world (hash_table_create 1000) []) = None"
  using disconnect_spins [of "fresh_world (hash_table_create 1000) []" zero_memory]
  by (simp add: reliable_def) (simp add: fresh_world_def)

section \<open>What every step keeps\<close>

definition pc_ok :: "environment \<Rightarrow> thread_pc \<Rightarrow> bool" where
  "pc_ok env pc \<longleftrightarrow> (case pc of Reading l \<Rightarrow> \<exists>got. lb_inv env got l | _ \<Rightarrow> True)"

lemma pc_ok_simps [simp]: "pc_ok env Outer" "pc_ok env Finished"
  "pc_ok env (Reading l) \<longleftrightarrow> (\<exists>got. lb_inv env got l)"
  by (simp_all add: pc_ok_def)

lemma keeps_shared_more [simp]:
  "keeps_shared w (REPLY_SERVER_ERROR m w')  \<longleftrightarrow> keeps_shared w w'"
  "keeps_shared w (after_read es w')  \<longleftrightarrow> keeps_shared w w'"
  by (simp_all add: keeps_shared_def)

lemma finish_line_keeps:
  "finish_line env l n w = Some (Inr w') \<Longrightarrow> keeps_shared w w'"
  by (auto simp: finish_line_def split: sum.splits dest: handle_command_keeps)

lemma receive_any:
  assumes "lb_inv env got l" and "length c \<le> CONNECTION_RECV_LENGTH" and "make_room env (length c) l = Some l1"
  shows "\<exists>l2. append_chunk c l1 = Inr l2 \<and> lb_inv env (got @ c) l2"
proof -
  let ?env = "env\<lparr>env_realloc_ok := True\<rparr>"
  have inv: "lb_inv ?env g k \<longleftrightarrow> lb_inv env g k" for g k by (simp add: lb_inv_def)
  have "make_room ?env (length c) l = Some l1" using assms(3) by (auto simp: make_room_def Let_def split: if_splits)
  with receive_inv [of ?env got l c] assms(1,2) show ?thesis unfolding inv by auto
qed

lemma receive_chunk_keeps:
  assumes "lb_inv env got l" and "length c \<le> CONNECTION_RECV_LENGTH"
    and "receive_chunk env c l w = Some (Inr (pc', w'))"
  shows "pc_ok env pc' \<and> keeps_shared w w'"
proof (cases "make_room env (length c) l")
  case None
  with assms(3) show ?thesis by (auto simp: receive_chunk_def Let_def)
next
  case (Some l1)
  from receive_any [OF assms(1,2) this] obtain l2 where
    "append_chunk c l1 = Inr l2" "lb_inv env (got @ c) l2" by blast
  with Some assms(3) show ?thesis
    by (auto simp: receive_chunk_def Let_def continue_outer_def map_res_Inr_iff split: option.splits
        dest: finish_line_keeps)
qed

lemma connection_step_keeps:
  assumes "connection_step env running pc w = Some (Inr (pc', w'))" and "pc_ok env pc"
  shows "pc_ok env pc' \<and> keeps_shared w w'"
proof (cases pc)
  case Outer
  with assms(1) show ?thesis by (auto simp: connection_step_def intro!: exI [of _ "[]"] new_line_buffer_inv)
next
  case (Reading l)
  then obtain got where l: "lb_inv env got l" using assms(2) by auto
  obtain c es where r: "recv CONNECTION_RECV_LENGTH (sk_in (w_sock w)) = (c, es)" by (cases "recv CONNECTION_RECV_LENGTH (sk_in (w_sock w))")
  show ?thesis
  proof (cases "\<not> running \<or> c = None \<or> c = Some []")
    case True
    with Reading r assms(1) show ?thesis
      by (auto simp: connection_step_def after_read_def [symmetric] split: if_splits)
  next
    case False
    then obtain d where d: "c = Some d" "d \<noteq> []" "running" by auto
    with Reading r assms(1) have "receive_chunk env d l (after_read es w) = Some (Inr (pc', w'))"
      by (simp add: connection_step_def after_read_def)
    from receive_chunk_keeps [OF l _ this] recv_bound [of CONNECTION_RECV_LENGTH _ d es] r d(1)
    show ?thesis by (simp add: keeps_shared_def)
  qed
qed (use assms(1) in \<open>simp add: connection_step_def\<close>)

lemma connection_steps_keep:
  "connection_steps env n (pc, w) = Some (Inr (pc', w')) \<Longrightarrow> pc_ok env pc \<Longrightarrow> pc_ok env pc' \<and> keeps_shared w w'"
proof (induction n arbitrary: pc w)
  case (Suc n)
  then obtain pc1 w1 where s: "connection_step env True pc w = Some (Inr (pc1, w1))"
    "connection_steps env n (pc1, w1) = Some (Inr (pc', w'))"
    by (auto split: option.splits sum.splits)
  from connection_step_keeps [OF s(1) Suc.prems(2)] Suc.IH [OF s(2)] keeps_shared_trans show ?case by blast
qed simp



section \<open>Lines that are never finished, or empty\<close>

lemma lb_inv_len_mono:
  assumes "lb_inv env got l" and "make_room env (length c) l = Some l1" and "append_chunk c l1 = Inr l2"
  shows "lb_command_len l2 \<le> max (lb_command_len l) (2 * length (got @ c))"
proof -
  have "lb_command_len l2 = lb_command_len l1"
    using assms(3) by (auto simp: append_chunk_def Let_def split: if_splits)
  then show ?thesis using assms(1,2) by (auto simp: lb_inv_def make_room_def Let_def split: if_splits)
qed

lemma connection_step_reads:
  assumes "recv CONNECTION_RECV_LENGTH (sk_in (w_sock w)) = (Some c, es')" and "c \<noteq> []" and "LF \<notin> set c"
    and "env_realloc_ok env" and "lb_inv env got l"
  shows "\<exists>l'. lb_inv env (got @ c) l' \<and> lb_command_len l' \<le> max (lb_command_len l) (2 * length (got @ c)) \<and>
    connection_step env True (Reading l) w = Some (Inr (Reading l', after_read es' w))"
proof -
  have "length c \<le> CONNECTION_RECV_LENGTH" using recv_bound [OF assms(1)] .
  from receive_inv [OF assms(5) this assms(4)] obtain l1 l2 where l:
    "make_room env (length c) l = Some l1" "append_chunk c l1 = Inr l2" "lb_inv env (got @ c) l2" by blast
  have "connection_step env True (Reading l) w = receive_chunk env c l (after_read es' w)"
    using assms(1,2) by (simp add: connection_step_def after_read_def)
  with l assms(3) lb_inv_len_mono [OF assms(5) l(1,2)] show ?thesis
    by (intro exI [of _ l2]) (simp add: receive_chunk_def sstrstr_LF)
qed

lemma reads_all:
  assumes "reliable (sk_in (w_sock w))" and "LF \<notin> set (incoming (sk_in (w_sock w)))"
    and "env_realloc_ok env" and "lb_inv env got l" and "lb_command_len l \<le> max CONNECTION_RECV_LENGTH (2 * length got)"
  shows "\<exists>n l' es'. connection_steps env n (Reading l, w) = Some (Inr (Reading l', after_read es' w)) \<and>
    incoming es' = [] \<and> lb_inv env (got @ incoming (sk_in (w_sock w))) l' \<and>
    lb_command_len l' \<le> max CONNECTION_RECV_LENGTH (2 * length (got @ incoming (sk_in (w_sock w))))"
  using assms(1,2,4,5)
proof (induction "length (incoming (sk_in (w_sock w)))" arbitrary: w got l rule: less_induct)
  case less
  let ?in = "incoming (sk_in (w_sock w))"
  show ?case
  proof (cases "?in = []")
    case True
    have "w = after_read (sk_in (w_sock w)) w" by (simp add: after_read_def)
    with True less.prems(3,4) show ?thesis
      by (intro exI [of _ 0] exI [of _ l] exI [of _ "sk_in (w_sock w)"]) simp
  next
    case False
    then obtain c es' where c: "recv CONNECTION_RECV_LENGTH (sk_in (w_sock w)) = (Some c, es')" "reliable es'"
        "c \<noteq> []" "length c \<le> CONNECTION_RECV_LENGTH" "?in = c @ incoming es'"
      using socket.rd_more [OF less.prems(1), of CONNECTION_RECV_LENGTH] by (auto simp: CONNECTION_RECV_LENGTH_def)
    have noLF: "LF \<notin> set c" "LF \<notin> set (incoming es')" using c(5) less.prems(2) by simp_all
    obtain l1 where l1: "lb_inv env (got @ c) l1" "lb_command_len l1 \<le> max (lb_command_len l) (2 * length (got @ c))"
      "connection_step env True (Reading l) w = Some (Inr (Reading l1, after_read es' w))"
      using connection_step_reads [OF c(1,3) noLF(1) assms(3) less.prems(3)] by blast
    have len: "lb_command_len l1 \<le> max CONNECTION_RECV_LENGTH (2 * length (got @ c))"
      using l1(2) less.prems(4) by simp
    have "\<exists>n l' es''. connection_steps env n (Reading l1, after_read es' w) =
          Some (Inr (Reading l', after_read es'' (after_read es' w))) \<and>
        incoming es'' = [] \<and> lb_inv env ((got @ c) @ incoming (sk_in (w_sock (after_read es' w)))) l' \<and>
        lb_command_len l' \<le> max CONNECTION_RECV_LENGTH (2 * length ((got @ c) @ incoming (sk_in (w_sock (after_read es' w)))))"
      by (rule less.hyps) (use c noLF l1(1) len in simp_all)
    then obtain n l' es'' where ih: "connection_steps env n (Reading l1, after_read es' w) = Some (Inr (Reading l', after_read es'' w))"
      "incoming es'' = []" "lb_inv env (got @ ?in) l'"
      "lb_command_len l' \<le> max CONNECTION_RECV_LENGTH (2 * length (got @ ?in))"
      by (auto simp: c(5))
    then show ?thesis using l1(3)
      by (intro exI [of _ "Suc n"] exI [of _ l'] exI [of _ es'']) simp
  qed
qed

text \<open>
  A client that sends no line break makes the thread collect all of its bytes, without
  limit and without a fault: the block holds them from its start and is at most twice as
  long.
\<close>

theorem endless_line_collected:
  assumes "reliable (sk_in (w_sock w))" and "LF \<notin> set (incoming (sk_in (w_sock w)))"
    and "env_realloc_ok env" and "cc_is_thread_running (w_client w)"
  shows "\<exists>n l es t. connection_steps env n (Outer, w) = Some (Inr (Reading l, after_read es w)) \<and>
    incoming es = [] \<and> lb_command l = incoming (sk_in (w_sock w)) @ t \<and> lb_command_free_len l = int (length t) \<and>
    t \<noteq> [] \<and> length (lb_command l) \<le> max CONNECTION_RECV_LENGTH (2 * length (incoming (sk_in (w_sock w))))"
proof -
  have "\<exists>n l es. connection_steps env n (Reading new_line_buffer, w) = Some (Inr (Reading l, after_read es w)) \<and>
    incoming es = [] \<and> lb_inv env ([] @ incoming (sk_in (w_sock w))) l \<and>
    lb_command_len l \<le> max CONNECTION_RECV_LENGTH (2 * length ([] @ incoming (sk_in (w_sock w))))"
    by (rule reads_all [OF assms(1-3) new_line_buffer_inv]) (simp add: new_line_buffer_def)
  then obtain n l es where r: "connection_steps env n (Reading new_line_buffer, w) = Some (Inr (Reading l, after_read es w))"
    "incoming es = []" "lb_inv env (incoming (sk_in (w_sock w))) l"
    "lb_command_len l \<le> max CONNECTION_RECV_LENGTH (2 * length (incoming (sk_in (w_sock w))))" by auto
  obtain t where "lb_command l = incoming (sk_in (w_sock w)) @ t" "t \<noteq> []" "lb_command_free_len l = int (length t)"
    "lb_command_len l = length (lb_command l)" using r(3) by (auto simp: lb_inv_def)
  with r assms(4) show ?thesis
    by (intro exI [of _ "Suc n"] exI [of _ l] exI [of _ es] exI [of _ t]) (simp add: connection_step_def)
qed

theorem endless_line_collected_witness:
  "\<exists>n l es. connection_steps zero_memory n (Outer, fresh_world (hash_table_create 1000) [Data ''GET forever'', Data ''...'']) =
      Some (Inr (Reading l, fresh_world (hash_table_create 1000) es)) \<and> length (lb_command l) \<le> 28"
proof -
  let ?w = "fresh_world (hash_table_create 1000) [Data ''GET forever'', Data ''...'']"
  have i: "incoming (sk_in (w_sock ?w)) = ''GET forever...''" by simp
  have "reliable (sk_in (w_sock ?w))" by (simp add: reliable_def)
  moreover have "LF \<notin> set (incoming (sk_in (w_sock ?w)))" by simp
  moreover have "env_realloc_ok zero_memory" by (simp add: zero_memory_def)
  moreover have "cc_is_thread_running (w_client ?w)" by (simp add: fresh_world_def)
  ultimately obtain n l es where "connection_steps zero_memory n (Outer, ?w) = Some (Inr (Reading l, after_read es ?w))"
    "length (lb_command l) \<le> max CONNECTION_RECV_LENGTH (2 * length (incoming (sk_in (w_sock ?w))))"
    using endless_line_collected by blast
  moreover have "after_read es ?w = fresh_world (hash_table_create 1000) es" by (simp add: after_read_def fresh_world_def)
  ultimately show ?thesis unfolding i
    by (intro exI [of _ n] exI [of _ l] exI [of _ es]) (simp add: CONNECTION_RECV_LENGTH_def)
qed

lemma strip_all_breaks: "set (take n b) \<subseteq> {CR, LF} \<Longrightarrow> n \<le> length b \<Longrightarrow> strip_line_end b n = Inl OutOfBounds"
proof (induction n arbitrary: b)
  case (Suc n)
  then have "b ! n \<in> set (take (Suc n) b)" by (simp add: in_set_conv_nth) (metis lessI nth_take Suc_le_lessD)
  with Suc.prems(1) have "b ! n = CR \<or> b ! n = LF" by auto
  moreover have "set (take n (b[n := NUL])) \<subseteq> {CR, LF}"
    using Suc.prems(1) set_take_subset_set_take [of n "Suc n" b] by auto
  ultimately show ?case using Suc.IH [of "b[n := NUL]"] Suc.prems(2) by simp
qed simp

text \<open>
  An empty line makes the thread read and write in front of its block: the loop that
  overwrites the line breaks at the end does not stop at the beginning.
\<close>

theorem empty_line_underruns:
  assumes "reliable (sk_in (w_sock w))" and "LF \<in> set (incoming (sk_in (w_sock w)))"
    and "set (incoming (sk_in (w_sock w))) \<subseteq> {CR, LF}"
    and "env_realloc_ok env" and "cc_is_thread_running (w_client w)"
  shows "\<exists>n. connection_steps env n (Outer, w) = Some (Inl OutOfBounds)"
proof -
  obtain n l pre rest es' where run:
    "connection_steps env n (Reading new_line_buffer, w) =
      continue_outer (finish_line env l (int (length rest)) (after_read es' w))"
    "lb_inv env ([] @ pre @ LF # rest) l" "incoming (sk_in (w_sock w)) = pre @ LF # rest @ incoming es'"
    using connection_reads_line [OF assms(1,2,4) new_line_buffer_inv] by (blast dest: line_rounds_steps)
  let ?got = "pre @ LF # rest"
  have got: "set ?got \<subseteq> {CR, LF}" using assms(3) run(3) by auto
  obtain t where t: "lb_command l = ?got @ t" "lb_command_free_len l = int (length t)"
    "lb_command_len l = length ?got + length t" using run(2) unfolding lb_inv_def by auto
  have "nat (int (lb_command_len l) - lb_command_free_len l) = length ?got" using t(2,3) by simp
  moreover have "strip_line_end (?got @ t) (length ?got) = Inl OutOfBounds"
    by (rule strip_all_breaks) (use got in simp_all)
  ultimately have "finish_line env l (int (length rest)) (after_read es' w) = Some (Inl OutOfBounds)"
    unfolding finish_line_def t(1) by simp
  with run(1) assms(5) show ?thesis
    by (intro exI [of _ "Suc n"]) (simp add: connection_step_def continue_outer_def)
qed

theorem empty_line_underruns_witness:
  "\<exists>n. connection_steps zero_memory n (Outer, fresh_world (hash_table_create 1000) [Data [CR], Data [LF]]) =
    Some (Inl OutOfBounds)"
  using empty_line_underruns [of "fresh_world (hash_table_create 1000) [Data [CR], Data [LF]]" zero_memory]
  by (simp add: reliable_def zero_memory_def) (simp add: fresh_world_def)

section \<open>Lines without a terminator\<close>

text \<open>
  A block grown by \<open>realloc\<close> is not cleared, and the line is not terminated: when ten
  bytes arrive at once that hold a line break but do not end in one, and the new half of the
  block holds no zero byte, the handler reads past the end of the block.
\<close>

theorem unterminated_line:
  assumes "recv CONNECTION_RECV_LENGTH (sk_in (w_sock w)) = (Some c, es)" and "length c = CONNECTION_RECV_LENGTH"
    and "LF \<in> set c" and "is_cstr c" and "last c \<noteq> CR" "last c \<noteq> LF"
    and "env_realloc_ok env" and "\<forall>i. env_junk env i \<noteq> NUL" and "cc_is_thread_running (w_client w)"
  shows "connection_steps env 2 (Outer, w) = Some (Inl OutOfBounds)"
proof -
  let ?l1 = "\<lparr>lb_command = replicate CONNECTION_RECV_LENGTH NUL @
      map (env_junk env) [CONNECTION_RECV_LENGTH..<2 * CONNECTION_RECV_LENGTH],
    lb_command_len = 2 * CONNECTION_RECV_LENGTH, lb_command_free_len = int CONNECTION_RECV_LENGTH\<rparr>"
  let ?junk = "map (env_junk env) [CONNECTION_RECV_LENGTH..<2 * CONNECTION_RECV_LENGTH]"
  let ?l2 = "?l1\<lparr>lb_command := c @ ?junk\<rparr>"
  have c: "c \<noteq> []" using assms(3) by auto
  have "make_room env (length c) new_line_buffer = Some ?l1"
    using assms(2,7) by (simp add: make_room_def new_line_buffer_def)
  moreover have "append_chunk c ?l1 = Inr ?l2"
    using assms(2) by (simp add: append_chunk_def write_at_fits)
  moreover have "finish_line env ?l2 k w' = Some (Inl OutOfBounds)" for k w'
  proof -
    have "strip_line_end (c @ ?junk) (length c) = Inr (c @ ?junk)"
      using strip_line_end_append [OF c assms(5,6), of "[]" ?junk] by simp
    moreover have "is_cstr (c @ ?junk)" using assms(4,8) by (auto simp: is_cstr_def)
    ultimately show ?thesis by (simp add: finish_line_def handle_command_def assms(2))
  qed
  ultimately have "connection_step env True (Reading new_line_buffer) w = Some (Inl OutOfBounds)"
    using assms(1) c assms(3) by (simp add: connection_step_def receive_chunk_def sstrstr_LF continue_outer_def)
  with assms(9) show ?thesis by (simp add: numeral_2_eq_2 connection_step_def [of _ _ Outer])
qed

theorem unterminated_line_witness:
  "connection_steps \<lparr>env_realloc_ok = True, env_calloc_ok = True, env_junk = \<lambda>_. CHR ''x''\<rparr> 2
     (Outer, fresh_world (hash_table_create 1000) [Data (''STT'' @ LF # ''GET key'')]) = Some (Inl OutOfBounds)"
  by (rule unterminated_line [of _ "''STT'' @ LF # ''GET ke''" "[Data ''y'']"])
    (simp_all add: CONNECTION_RECV_LENGTH_def, simp add: fresh_world_def)

section \<open>The end of a connection\<close>

lemma after_bye: "cc_is_thread_running (w_client (memuncached_bye w)) = False"
  by (simp add: memuncached_bye_def Let_def)

lemma fresh_client: "w_client (fresh_world t es) =
    \<lparr>cc_socket_fd = 4, cc_addr = ''127.0.0.1'', cc_port = 40000, cc_thread_id = 1, cc_is_thread_running = True\<rparr>"
  by (simp add: fresh_world_def)

text \<open>
  A BYE line, in any case and in any segments, ends the thread: its run returns, the client
  has been answered with a success, and nothing else has changed.
\<close>

theorem bye_ends_thread:
  assumes "cc_is_thread_running (w_client w)" and "good_memory env" and "reliable (sk_in (w_sock w))"
    and "incoming (sk_in (w_sock w)) = cmd @ CRLF" and "is_word cmd" "map to_lower cmd = ''bye''"
  shows "\<exists>over es. connection_run env Outer w =
      Some (Inr (REPLY_SUCCESS ''bye.'' (overrun over (after_read es w))
        \<lparr>w_client := (w_client w)\<lparr>cc_is_thread_running := False\<rparr>\<rparr>))"
proof -
  have s: "cmd \<noteq> []" "no_break cmd" "is_cstr cmd" using is_word_no_break assms(5) by simp_all
  have in_eq: "incoming (sk_in (w_sock w)) = cmd @ CRLF @ [] @ []" using assms(4) by simp
  have e: "set [] \<subseteq> {CR, LF}" "no_break []" by simp_all
  obtain n r brk es m where run:
    "connection_steps env n (Outer, w) = continue_outer
      (handle_command True (line_block cmd r m) (int (length (r @ brk))) (after_read es w))" "length brk < m"
    "brk = [] \<and> (\<exists>p'. [] = r @ p' \<and> incoming es = p' @ []) \<or> r = [] \<and> [] = brk @ incoming es"
    using connection_handles_line [OF assms(3) in_eq assms(2,1) s(1,2) e(2,1)] by (blast dest: line_rounds_steps)
  have r: "r = []" using run(3) by auto
  have m: "0 < m" using run(2) by simp
  from line_block_split [OF s(3) m e(2)] obtain u t k where b:
    "line_block cmd [] m = (cmd @ u) @ NUL # t" "is_cstr (cmd @ u)" "u = [] \<or> is_blank (hd u)"
    "dropWhile is_blank u @ NUL # t = replicate k NUL" by auto
  have u: "dropWhile is_blank u = []"
  proof (cases "dropWhile is_blank u")
    case (Cons x y)
    then have "x \<in> set u" by (metis list.set_intros(1) set_dropWhileD)
    moreover have "x \<in> set (replicate k NUL)" using b(4) Cons by (metis append_Cons list.set_intros(1))
    then have "x = NUL" by simp
    ultimately show ?thesis using b(2) by (simp add: is_cstr_def)
  qed
  define over where "over = snd (str_escape (cmd @ u))"
  let ?w = "memuncached_bye (overrun over (after_read es w))"
  have "nth_arg (cmd @ u) 0 = Some cmd" "after_word (cmd @ u) = []"
    using nth_arg_word [OF assms(5) b(3)] next_word_append(2) [OF assms(5) b(3)] u by simp_all
  then have "handle_command True (line_block cmd r m) (int (length (r @ brk))) (after_read es w) = Some (Inr ?w)"
    unfolding r b(1) handle_command_line [OF b(2)]
    by (simp add: answer_line_def Let_def assms(6) plain_line_def over_def)
  then have "connection_steps env n (Outer, w) = Some (Inr (Outer, ?w))" using run(1) by (simp add: continue_outer_def)
  from connection_steps_run [OF this] have "connection_run env Outer w = connection_run env Outer ?w" by simp
  also have "\<dots> = Some (Inr ?w)"
    by (subst connection_run.simps) (simp add: connection_step_def after_bye)
  also have "?w = REPLY_SUCCESS ''bye.'' (overrun over (after_read es w))
        \<lparr>w_client := (w_client w)\<lparr>cc_is_thread_running := False\<rparr>\<rparr>"
    by (simp add: memuncached_bye_def Let_def reply_defs overrun_def after_read_def)
  finally show ?thesis by blast
qed

theorem bye_ends_thread_witness:
  "\<exists>over es. connection_run zero_memory Outer (fresh_world (hash_table_create 1000) [Data ''b'', Data (''Ye'' @ CRLF)]) =
      Some (Inr (REPLY_SUCCESS ''bye.'' (overrun over (fresh_world (hash_table_create 1000) es))
        \<lparr>w_client := (w_client (fresh_world (hash_table_create 1000) es))\<lparr>cc_is_thread_running := False\<rparr>\<rparr>))"
proof -
  let ?w = "fresh_world (hash_table_create 1000) [Data ''b'', Data (''Ye'' @ CRLF)]"
  have w: "cc_is_thread_running (w_client ?w)" "map to_lower ''bYe'' = ''bye''" "is_word ''bYe''"
    "reliable (sk_in (w_sock ?w))" "incoming (sk_in (w_sock ?w)) = ''bYe'' @ CRLF"
    by (simp add: fresh_client, code_simp, simp_all add: is_word_def is_blank_def reliable_def)
  obtain over es where r: "connection_run zero_memory Outer ?w =
      Some (Inr (REPLY_SUCCESS ''bye.'' (overrun over (after_read es ?w))
        \<lparr>w_client := (w_client ?w)\<lparr>cc_is_thread_running := False\<rparr>\<rparr>))"
    using bye_ends_thread [OF w(1) zero_memory_good w(4,5,3,2)] by blast
  have "after_read es ?w = fresh_world (hash_table_create 1000) es" by (simp add: after_read_def fresh_world_def)
  with r show ?thesis unfolding fresh_client by auto
qed

section \<open>Bytes behind the line\<close>

text \<open>What two steps of a connection have sent, and what a key then stands for.\<close>

definition run_sent :: "(thread_pc \<times> world) res option \<Rightarrow> string" where
  "run_sent r = (case r of Some (Inr s) \<Rightarrow> sk_out (w_sock (snd s)) | _ \<Rightarrow> [])"

definition run_stored :: "string \<Rightarrow> (thread_pc \<times> world) res option \<Rightarrow> heap_value option" where
  "run_stored key r =
     (case r of Some (Inr s) \<Rightarrow> (case lookup (snd s) key of None \<Rightarrow> None | Some cv \<Rightarrow> Some (cv_value cv))
      | _ \<Rightarrow> None)"

lemma strncmp_eq_code [code]:
  "strncmp_eq a b n =
     (n = 0 \<or> char_at a 0 = char_at b 0 \<and> (char_at a 0 = NUL \<or> strncmp_eq (tl a) (tl b) (n - 1)))"
  by (cases "(a, b, n)" rule: strncmp_eq.cases) (auto simp: char_at_def)

declare recv_payload.simps [code]

text \<open>
  Commands that arrive together are not all carried out: two VER lines in one segment are
  taken for one line and refused, and the second is lost; in two segments each is answered.
\<close>

theorem pipelined_commands_lost:
  "run_sent (connection_steps zero_memory 2
      (Outer, fresh_world (hash_table_create 1) [Data (''VER'' @ CRLF @ ''VER'' @ CRLF)])) =
    response_text RESPONSE_400_BAD_REQUEST ''The command does not take arguments.'' \<and>
   run_sent (connection_steps zero_memory 4
      (Outer, fresh_world (hash_table_create 1) [Data (''VER'' @ CRLF), Data (''VER'' @ CRLF)])) =
    response_text RESPONSE_200_OK MEMUNCACHED_VERSION @ response_text RESPONSE_200_OK MEMUNCACHED_VERSION"
  by (intro conjI; code_simp)


end
