(* ===== verification/Server.thy ===== *)
theory Server
  imports Connection_Loop
begin

text \<open>
  server.c and the end of \<open>handle_connection\<close> in connection.c: the blocks of the connected
  clients, their list, the accept loop, the cleanup of a connection and the shutdown; then
  the whole server as interleaved steps of its threads. The lemmas show what keeps the list
  and the blocks in agreement, and which order of steps does not.
\<close>

section \<open>State\<close>

text \<open>
  The heap holds the \<open>client_connection_t\<close> blocks by their address; a freed block is not in it.
  Closed descriptors are recorded in order. \<open>sv_table\<close> and \<open>sv_clients\<close> are the globals.
\<close>

record server =
  sv_is_running :: bool
  sv_table :: hash_table
  sv_clients :: "nat vector"
  sv_heap :: "nat \<Rightarrow> client_connection option"
  sv_closed :: "int32 list"

definition load_client :: "server \<Rightarrow> nat \<Rightarrow> client_connection res" where
  "load_client s p = (case sv_heap s p of None \<Rightarrow> Inl DanglingAccess | Some c \<Rightarrow> Inr c)"

definition free_client :: "nat \<Rightarrow> server \<Rightarrow> server res" where
  "free_client p s = map_res (\<lambda>_. s\<lparr>sv_heap := (sv_heap s)(p := None)\<rparr>) (load_client s p)"

definition close_fd :: "int32 \<Rightarrow> server \<Rightarrow> server" where
  "close_fd fd s = s\<lparr>sv_closed := sv_closed s @ [fd]\<rparr>"

section \<open>Start and accept loop\<close>

text \<open>
  \<open>hash_table_create\<close> and \<open>vector_create (10)\<close>; \<open>None\<close> when the lock of the vector cannot be
  initialised, which \<open>main\<close> does not check.
\<close>

definition server_start :: "bool \<Rightarrow> server option" where
  "server_start mutex_ok =
     map_option (\<lambda>clients. \<lparr>sv_is_running = True,
         sv_table = hash_table_create MEMUNCACHED_TABLE_INITIAL_SIZE, sv_clients = clients,
         sv_heap = (\<lambda>_. None), sv_closed = []\<rparr>)
       (vector_create 10 mutex_ok)"

text \<open>
  The listening socket: \<open>fd\<close> is the result of \<open>socket\<close>, the flags those of \<open>setsockopt\<close>, \<open>bind\<close>
  and \<open>listen\<close>. The first failure ends the process, with the status on the left.
\<close>

definition server_listen :: "int32 \<Rightarrow> bool \<Rightarrow> bool \<Rightarrow> bool \<Rightarrow> int32 + int32" where
  "server_listen fd setsockopt_ok bind_ok listen_ok =
     (if fd = - 1 then Inl 1
      else if \<not> setsockopt_ok then Inl 1
      else if \<not> bind_ok then Inl 1
      else if \<not> listen_ok then Inl 1
      else Inr fd)"

text \<open>
  One round of the accept loop up to \<open>pthread_create\<close>: \<open>p\<close> is the block that \<open>malloc\<close> gives,
  \<open>junk\<close> the thread id that it happens to hold, \<open>accepted\<close> the result of \<open>accept\<close> with the
  peer's address and port. The result is the block of a thread that has been created.
\<close>

definition accept_client ::
    "nat \<Rightarrow> 64 word \<Rightarrow> (int32 \<times> string \<times> int32) option \<Rightarrow> bool \<Rightarrow> server \<Rightarrow> server \<times> nat option" where
  "accept_client p junk accepted thread_ok s =
     (case accepted of
        None \<Rightarrow> (s, None)
      | Some (fd, addr, port) \<Rightarrow>
          if thread_ok then
            (s\<lparr>sv_heap := (sv_heap s)(p \<mapsto>
               \<lparr>cc_socket_fd = fd, cc_addr = addr, cc_port = port, cc_thread_id = junk,
                cc_is_thread_running = True\<rparr>)\<rparr>, Some p)
          else (close_fd fd s, None))"

text \<open>The other half: the block of the new thread enters the list. A failure is only logged.\<close>

definition register_client :: "bool \<Rightarrow> nat \<Rightarrow> server \<Rightarrow> server res option" where
  "register_client realloc_ok p s =
     map_option (map_res (\<lambda>(v, _). s\<lparr>sv_clients := v\<rparr>)) (vector_insert realloc_ok (sv_clients s) (Some p))"

section \<open>Cleanup of a connection\<close>

text \<open>The loop that looks for the entry with the thread's id.\<close>

function remove_own ::
    "(nat \<Rightarrow> client_connection res) \<Rightarrow> 64 word \<Rightarrow> nat vector \<Rightarrow> size_t \<Rightarrow> nat vector res" where
  "remove_own ld tid v i =
     (if i < v_count v then
        bind_res (vector_at_unsafe v i) (\<lambda>p.
          case p of
            None \<Rightarrow> Inl NullDeref
          | Some p \<Rightarrow> bind_res (ld p) (\<lambda>c.
              if cc_thread_id c = tid then map_res fst (vector_remove_unsafe v i)
              else remove_own ld tid v (i + 1)))
      else Inr v)"
  by pat_completeness auto

termination
proof (relation "measure (\<lambda>(ld, tid, v, i). unat (v_count v) - unat i)", goal_cases)
  case (2 ld tid v i)
  then have "unat (i + 1) = Suc (unat i)" by (intro unat_Suc_less)
  with 2 show ?case by (auto simp: word_less_nat_alt)
qed simp

declare remove_own.simps [simp del]

text \<open>
  What follows the loops of \<open>handle_connection\<close>. The lock is not waited for longer than a
  second; a thread that does not get it leaves its socket, its block and its entry behind.
\<close>

definition connection_cleanup :: "nat \<Rightarrow> server \<Rightarrow> server res" where
  "connection_cleanup p s =
     (if \<not> sv_is_running s then Inr s
      else
        let (v, err) = vector_timed_lock (sv_clients s)
        in if err \<noteq> 0 then Inr s
           else bind_res (load_client s p) (\<lambda>client.
             bind_res (remove_own (load_client s) (cc_thread_id client) v 0) (\<lambda>v.
             map_res (\<lambda>s. s\<lparr>sv_clients := vector_unlock v\<rparr>)
               (free_client p (close_fd (cc_socket_fd client) s)))))"

section \<open>Shutdown\<close>

text \<open>\<open>for (i = count - 1; i >= 0; i--)\<close>: the argument is \<open>i + 1\<close>.\<close>

fun drain_clients :: "nat \<Rightarrow> server \<Rightarrow> server res" where
  "drain_clients 0 s = Inr s"
| "drain_clients (Suc i) s =
     bind_res (vector_at_unsafe (sv_clients s) (of_nat i)) (\<lambda>p.
       case p of
         None \<Rightarrow> Inl NullDeref
       | Some p \<Rightarrow> bind_res (load_client s p) (\<lambda>client.
           bind_res (vector_remove_unsafe (sv_clients s) (of_nat i)) (\<lambda>(v, _).
           bind_res (free_client p (close_fd (cc_socket_fd client) s\<lparr>sv_clients := v\<rparr>)) (\<lambda>s.
             drain_clients i s))))"

text \<open>
  The end of \<open>main\<close>: the clients under the lock, the listening socket, the table, the vector.
  \<open>None\<close> is a \<open>main\<close> that waits for the lock; the result counts the blocks of the table.
\<close>

definition server_close :: "int32 \<Rightarrow> server \<Rightarrow> (server \<times> nat) res option" where
  "server_close socket_fd s =
     map_option
       (\<lambda>v. bind_res (drain_clients (unat (v_count v)) (s\<lparr>sv_clients := v\<rparr>)) (\<lambda>s.
          let s = close_fd socket_fd (s\<lparr>sv_clients := vector_unlock (sv_clients s)\<rparr>)
          in bind_res (hash_table_destroy (sv_table s)) (\<lambda>n.
             map_res (\<lambda>_. (s, n)) (vector_destroy (sv_clients s)))))
       (vector_lock (sv_clients s))"

definition handle_sigint :: "server \<Rightarrow> server" where
  "handle_sigint s = s\<lparr>sv_is_running := False\<rparr>"

section \<open>Looking for an entry\<close>

lemma count_elems: "vector_inv v \<Longrightarrow> length (elems v) = unat (v_count v)"
  by (rule vector_invE)

lemma elems_bound: "vector_inv v \<Longrightarrow> length (elems v) < 2 ^ 64"
  using count_elems [of v] unsigned_less [of "v_count v"] by (simp add: unsigned_less)

lemma index_below:
  assumes "vector_inv v" and "j \<le> length (elems v)"
  shows "of_nat j < v_count v \<longleftrightarrow> j < length (elems v)" "of_nat j + 1 = (of_nat (Suc j) :: size_t)"
  using assms count_elems [OF assms(1)] elems_bound [OF assms(1)] by (simp_all add: word_less_nat_alt unat_of_nat)

text \<open>The search stops at the first entry with the id; the ids before it differ.\<close>

lemma remove_own_step:
  assumes "vector_inv v" and "j < length (elems v)" and "ld (elems v ! j) = Inr c"
  shows "remove_own ld tid v (of_nat j) =
    (if cc_thread_id c = tid then map_res fst (vector_remove_unsafe v (of_nat j))
     else remove_own ld tid v (of_nat (Suc j)))"
  using index_below [OF assms(1), of j] assms vector_at_ok [OF assms(1,2)]
  by (subst remove_own.simps) (simp add: add.commute)

lemma remove_own_end: "vector_inv v \<Longrightarrow> remove_own ld tid v (of_nat (length (elems v))) = Inr v"
  using index_below [of v "length (elems v)"] by (subst remove_own.simps) simp

lemma remove_own_found:
  assumes "vector_inv v" and "k < length (elems v)" and "j \<le> k"
    and "\<And>i. j \<le> i \<Longrightarrow> i \<le> k \<Longrightarrow> \<exists>c. ld (elems v ! i) = Inr c \<and> (cc_thread_id c = tid \<longleftrightarrow> i = k)"
  shows "remove_own ld tid v (of_nat j) = map_res fst (vector_remove_unsafe v (of_nat k))"
  using assms(3,4)
proof (induction "k - j" arbitrary: j)
  case 0
  then have "j = k" by simp
  with 0(3) [of k] remove_own_step [OF assms(1,2)] show ?case by auto
next
  case (Suc m)
  then have j: "j < k" by simp
  then obtain c where c: "ld (elems v ! j) = Inr c" "cc_thread_id c \<noteq> tid" using Suc.prems(2) [of j] by auto
  have "remove_own ld tid v (of_nat j) = remove_own ld tid v (of_nat (Suc j))"
    using remove_own_step [of v j ld c tid] assms(1,2) j c by simp
  also have "\<dots> = map_res fst (vector_remove_unsafe v (of_nat k))"
    using Suc j by (intro Suc.hyps) simp_all
  finally show ?case .
qed

lemma remove_own_absent:
  assumes "vector_inv v" and "j \<le> length (elems v)"
    and "\<And>i. j \<le> i \<Longrightarrow> i < length (elems v) \<Longrightarrow> \<exists>c. ld (elems v ! i) = Inr c \<and> cc_thread_id c \<noteq> tid"
  shows "remove_own ld tid v (of_nat j) = Inr v"
  using assms(2,3)
proof (induction "length (elems v) - j" arbitrary: j)
  case 0
  then show ?case using remove_own_end [OF assms(1)] by simp
next
  case (Suc m)
  then have j: "j < length (elems v)" by simp
  then obtain c where c: "ld (elems v ! j) = Inr c" "cc_thread_id c \<noteq> tid" using Suc.prems(2) [of j] by auto
  have "remove_own ld tid v (of_nat j) = remove_own ld tid v (of_nat (Suc j))"
    using remove_own_step [of v j ld c tid] assms(1) j c by simp
  also have "\<dots> = Inr v" using Suc j by (intro Suc.hyps) simp_all
  finally show ?case .
qed

section \<open>Lists and blocks in agreement\<close>

text \<open>
  The blocks of a set of addresses are all there, and no two threads share an id.
\<close>

definition blocks_ok :: "server \<Rightarrow> nat set \<Rightarrow> bool" where
  "blocks_ok s A \<longleftrightarrow>
     (\<forall>p \<in> A. sv_heap s p \<noteq> None) \<and>
     (\<forall>p \<in> A. \<forall>q \<in> A. cc_thread_id (the (sv_heap s p)) = cc_thread_id (the (sv_heap s q)) \<longrightarrow> p = q)"

definition list_ok :: "server \<Rightarrow> bool" where
  "list_ok s \<longleftrightarrow> vector_inv (sv_clients s) \<and> \<not> v_lock (sv_clients s) \<and> distinct (elems (sv_clients s))"

lemma load_block: "blocks_ok s A \<Longrightarrow> p \<in> A \<Longrightarrow> load_client s p = Inr (the (sv_heap s p))"
  by (auto simp: blocks_ok_def load_client_def)

lemma free_block: "sv_heap s p \<noteq> None \<Longrightarrow> free_client p s = Inr (s\<lparr>sv_heap := (sv_heap s)(p := None)\<rparr>)"
  by (auto simp: free_client_def load_client_def)

lemma close_fd_simps [simp]:
  "sv_heap (close_fd fd s) = sv_heap s" "sv_clients (close_fd fd s) = sv_clients s"
  "sv_table (close_fd fd s) = sv_table s" "sv_is_running (close_fd fd s) = sv_is_running s"
  "sv_closed (close_fd fd s) = sv_closed s @ [fd]" "load_client (close_fd fd s) = load_client s"
  by (simp_all add: close_fd_def load_client_def fun_eq_iff)

lemma lock_simps [simp]:
  "v_size (v\<lparr>v_lock := b\<rparr>) = v_size v" "v_count (v\<lparr>v_lock := b\<rparr>) = v_count v"
  by simp_all

lemma remove_lock: "vector_remove_unsafe v i = Inr (v', p) \<Longrightarrow> v_lock v' = v_lock v"
  by (auto simp: vector_remove_unsafe_def Let_def bind_res_Inr_iff split: if_splits)

text \<open>A registered client's cleanup takes its entry, its socket and its block away.\<close>

lemma cleanup_registered:
  assumes "list_ok s" and "blocks_ok s (set (elems (sv_clients s)))" and "sv_is_running s"
    and "k < length (elems (sv_clients s))" and "elems (sv_clients s) ! k = p"
  shows "\<exists>v. connection_cleanup p s =
      Inr (s\<lparr>sv_closed := sv_closed s @ [cc_socket_fd (the (sv_heap s p))],
        sv_heap := (sv_heap s)(p := None), sv_clients := v\<rparr>) \<and>
    vector_inv v \<and> \<not> v_lock v \<and> elems v = swap_remove k (elems (sv_clients s)) \<and> v_size v = v_size (sv_clients s)"
proof -
  let ?v = "sv_clients s\<lparr>v_lock := True\<rparr>" and ?c = "the (sv_heap s p)"
  have v: "vector_inv ?v" "elems ?v = elems (sv_clients s)" "\<not> v_lock (sv_clients s)" "distinct (elems ?v)"
    using assms(1) by (simp_all add: list_ok_def)
  have p: "p \<in> set (elems (sv_clients s))" using assms(4,5) by auto
  then have heap: "sv_heap s p \<noteq> None" using assms(2) by (simp add: blocks_ok_def)
  obtain v' where v': "vector_remove_unsafe ?v (of_nat k) = Inr (v', Some p)" "vector_inv v'"
    "elems v' = swap_remove k (elems (sv_clients s))" "v_size v' = v_size ?v"
    using vector_remove_ok [OF v(1), of k] assms(4,5) v(2) by metis
  have "remove_own (load_client s) (cc_thread_id ?c) ?v (of_nat 0) = map_res fst (vector_remove_unsafe ?v (of_nat k))"
  proof (rule remove_own_found [OF v(1)])
    fix i assume i: "i \<le> k"
    let ?q = "elems ?v ! i"
    have q: "?q \<in> set (elems (sv_clients s))" using i assms(4) v(2) by simp
    have "cc_thread_id (the (sv_heap s ?q)) = cc_thread_id ?c \<longleftrightarrow> ?q = p"
      using assms(2) q p by (auto simp: blocks_ok_def)
    also have "\<dots> \<longleftrightarrow> i = k"
      using nth_eq_iff_index_eq [OF v(4), of i k] i assms(4,5) v(2) by auto
    finally show "\<exists>c. load_client s ?q = Inr c \<and> (cc_thread_id c = cc_thread_id ?c \<longleftrightarrow> i = k)"
      using load_block [OF assms(2) q] by blast
  qed (use assms(4) v(2) in simp_all)
  then have own: "remove_own (load_client s) (cc_thread_id ?c) ?v 0 = Inr v'" using v'(1) by simp
  have "connection_cleanup p s =
      Inr (close_fd (cc_socket_fd ?c) s\<lparr>sv_heap := (sv_heap s)(p := None), sv_clients := vector_unlock v'\<rparr>)"
    using assms(3) v(3) load_block [OF assms(2) p] own heap
    by (simp add: connection_cleanup_def vector_timed_lock_def free_block)
  then show ?thesis using v' by (intro exI [of _ "vector_unlock v'"]) (simp add: close_fd_def)
qed

text \<open>The cleanup of a client that is not in the list leaves the list alone.\<close>

lemma cleanup_unregistered:
  assumes "list_ok s" and "blocks_ok s (insert p (set (elems (sv_clients s))))" and "sv_is_running s"
    and "p \<notin> set (elems (sv_clients s))"
  shows "connection_cleanup p s =
      Inr (s\<lparr>sv_closed := sv_closed s @ [cc_socket_fd (the (sv_heap s p))], sv_heap := (sv_heap s)(p := None)\<rparr>)"
proof -
  let ?v = "sv_clients s\<lparr>v_lock := True\<rparr>" and ?c = "the (sv_heap s p)"
  have v: "vector_inv ?v" "elems ?v = elems (sv_clients s)" "\<not> v_lock (sv_clients s)"
    using assms(1) by (simp_all add: list_ok_def)
  have heap: "sv_heap s p \<noteq> None" using assms(2) by (simp add: blocks_ok_def)
  have "remove_own (load_client s) (cc_thread_id ?c) ?v (of_nat 0) = Inr ?v"
  proof (rule remove_own_absent [OF v(1)])
    fix i assume i: "i < length (elems ?v)"
    let ?q = "elems ?v ! i"
    have q: "?q \<in> set (elems (sv_clients s))" using i v(2) by simp
    then have "cc_thread_id (the (sv_heap s ?q)) \<noteq> cc_thread_id ?c"
      using assms(2,4) by (auto simp: blocks_ok_def)
    then show "\<exists>c. load_client s ?q = Inr c \<and> cc_thread_id c \<noteq> cc_thread_id ?c"
      using load_block [OF assms(2), of ?q] q by auto
  qed simp
  moreover have "vector_unlock ?v = sv_clients s" using v(3) by (simp add: vector_unlock_def)
  ultimately show ?thesis
    using assms(3) v(3) load_block [OF assms(2), of p] heap
    by (simp add: connection_cleanup_def vector_timed_lock_def free_block close_fd_def)
qed

section \<open>Draining the list\<close>

definition socket_of :: "server \<Rightarrow> nat \<Rightarrow> int32" where
  "socket_of s p = cc_socket_fd (the (sv_heap s p))"

lemma drain_clients_ok:
  assumes "vector_inv (sv_clients s)" and "elems (sv_clients s) = ps" and "distinct ps"
    and "\<forall>p \<in> set ps. sv_heap s p \<noteq> None"
  shows "\<exists>v. drain_clients (length ps) s =
      Inr (s\<lparr>sv_closed := sv_closed s @ map (socket_of s) (rev ps),
        sv_heap := (\<lambda>p. if p \<in> set ps then None else sv_heap s p), sv_clients := v\<rparr>) \<and>
    vector_inv v \<and> elems v = [] \<and> v_lock v = v_lock (sv_clients s)"
  using assms
proof (induction ps arbitrary: s rule: rev_induct)
  case Nil
  then show ?case by (intro exI [of _ "sv_clients s"]) (simp add: fun_eq_iff)
next
  case (snoc p ps)
  let ?k = "length ps" and ?c = "the (sv_heap s p)"
  have p: "sv_heap s p \<noteq> None" using snoc.prems(4) by simp
  have get: "vector_at_unsafe (sv_clients s) (of_nat ?k) = Inr (Some p)"
    using vector_at_ok [OF snoc.prems(1), of ?k] snoc.prems(2) by simp
  obtain v where v: "vector_remove_unsafe (sv_clients s) (of_nat ?k) = Inr (v, Some p)" "vector_inv v" "elems v = ps"
    using vec.del_last [OF snoc.prems(1,2)] by blast
  let ?s = "s\<lparr>sv_closed := sv_closed s @ [cc_socket_fd ?c], sv_heap := (sv_heap s)(p := None), sv_clients := v\<rparr>"
  have load: "load_client s p = Inr ?c" using p by (auto simp: load_client_def)
  have free: "free_client p (close_fd (cc_socket_fd ?c) s\<lparr>sv_clients := v\<rparr>) = Inr ?s"
    using p by (simp add: free_block close_fd_def)
  have step: "drain_clients (length (ps @ [p])) s = drain_clients ?k ?s"
    using get v(1) load free by simp
  have "\<forall>q \<in> set ps. sv_heap ?s q \<noteq> None" using snoc.prems(3,4) by auto
  then obtain v' where v': "drain_clients ?k ?s =
      Inr (?s\<lparr>sv_closed := sv_closed ?s @ map (socket_of ?s) (rev ps),
        sv_heap := (\<lambda>q. if q \<in> set ps then None else sv_heap ?s q), sv_clients := v'\<rparr>)"
    "vector_inv v'" "elems v' = []" "v_lock v' = v_lock v"
    using snoc.IH [of ?s] v(2,3) snoc.prems(3) by auto
  have "map (socket_of ?s) (rev ps) = map (socket_of s) (rev ps)"
    using snoc.prems(3) by (auto simp: socket_of_def)
  moreover have "(\<lambda>q. if q \<in> set ps then None else sv_heap ?s q) =
      (\<lambda>q. if q \<in> set (ps @ [p]) then None else sv_heap s q)" by (auto simp: fun_eq_iff)
  ultimately have "drain_clients (length (ps @ [p])) s =
      Inr (s\<lparr>sv_closed := sv_closed s @ map (socket_of s) (rev (ps @ [p])),
        sv_heap := (\<lambda>q. if q \<in> set (ps @ [p]) then None else sv_heap s q), sv_clients := v'\<rparr>)"
    unfolding step v'(1) by (simp add: socket_of_def)
  then show ?case using v'(2-4) remove_lock [OF v(1)] by auto
qed

lemma destroy_ok: "ht_inv t \<Longrightarrow> hash_table_destroy t = Inr (2 * unat (ht_count t) + 2)"
  using ht_invD(2,3,4) [of t] by (simp add: hash_table_destroy_def destroy_cells_count)

lemma server_close_ok:
  assumes "list_ok s" and "\<forall>p \<in> set (elems (sv_clients s)). sv_heap s p \<noteq> None"
    and "hash_table_destroy (sv_table s) = Inr n"
  shows "\<exists>v. server_close fd s =
      Some (Inr (s\<lparr>sv_closed := sv_closed s @ map (socket_of s) (rev (elems (sv_clients s))) @ [fd],
        sv_heap := (\<lambda>p. if p \<in> set (elems (sv_clients s)) then None else sv_heap s p), sv_clients := v\<rparr>, n)) \<and>
    elems v = [] \<and> vector_inv v \<and> \<not> v_lock v"
proof -
  let ?v = "sv_clients s\<lparr>v_lock := True\<rparr>"
  let ?s = "s\<lparr>sv_clients := ?v\<rparr>" and ?ps = "elems (sv_clients s)"
  have l: "vector_inv (sv_clients ?s)" "elems (sv_clients ?s) = ?ps" "distinct ?ps" "\<not> v_lock (sv_clients s)"
    using assms(1) by (simp_all add: list_ok_def)
  have n: "unat (v_count ?v) = length ?ps" using assms(1) count_elems [of "sv_clients s"] by (simp add: list_ok_def)
  obtain v where v: "drain_clients (length ?ps) ?s =
      Inr (?s\<lparr>sv_closed := sv_closed ?s @ map (socket_of ?s) (rev ?ps),
        sv_heap := (\<lambda>p. if p \<in> set ?ps then None else sv_heap ?s p), sv_clients := v\<rparr>)" "vector_inv v" "elems v = []"
    using drain_clients_ok [OF l(1-3)] assms(2) by auto
  have "socket_of ?s = socket_of s" by (simp add: socket_of_def fun_eq_iff)
  moreover have "vector_destroy (vector_unlock v) = Inr None" by (simp add: vector_destroy_def)
  ultimately show ?thesis using v l(4) assms(3) n
    by (intro exI [of _ "vector_unlock v"]) (simp add: server_close_def vector_lock_def close_fd_def Let_def cong: if_cong)
qed

section \<open>Properties of cleanup and shutdown\<close>

text \<open>A server with clients at the addresses 100 and 200, of which the first one or both are listed.\<close>

definition sample_client :: "int32 \<Rightarrow> 64 word \<Rightarrow> client_connection" where
  "sample_client fd tid =
     \<lparr>cc_socket_fd = fd, cc_addr = ''127.0.0.1'', cc_port = 40000, cc_thread_id = tid, cc_is_thread_running = True\<rparr>"

definition sample_server :: "nat list \<Rightarrow> server" where
  "sample_server ps =
     \<lparr>sv_is_running = True, sv_table = hash_table_create 1000,
      sv_clients = \<lparr>v_array = map (\<lambda>p. Ptr (Some p)) ps @ [Ptr None], v_size = of_nat (Suc (length ps)),
        v_count = of_nat (length ps), v_lock = False\<rparr>,
      sv_heap = [100 \<mapsto> sample_client 4 1, 200 \<mapsto> sample_client 5 2], sv_closed = []\<rparr>"

lemma sample_server_ok:
  "list_ok (sample_server [100, 200])" "elems (sv_clients (sample_server [100, 200])) = [100, 200]"
  "list_ok (sample_server [100])" "elems (sv_clients (sample_server [100])) = [100]"
  "blocks_ok (sample_server ps) {100, 200}" "sv_is_running (sample_server ps)" "ht_inv (sv_table (sample_server ps))"
  by (simp_all add: list_ok_def sample_server_def vector_inv_def elems_def blocks_ok_def sample_client_def empty_table_inv)

text \<open>
  C26. The cleanup of a connection that is in the list takes exactly its own entry out of it,
  closes its socket and frees its block, and nothing else; the lock is free again. (The
  list holds each block once, and live threads have different ids.)
\<close>

theorem cleanup_removes_own_entry:
  assumes "list_ok s" and "blocks_ok s (set (elems (sv_clients s)))" and "sv_is_running s"
    and "p \<in> set (elems (sv_clients s))"
  shows "\<exists>v. connection_cleanup p s =
      Inr (s\<lparr>sv_closed := sv_closed s @ [socket_of s p], sv_heap := (sv_heap s)(p := None), sv_clients := v\<rparr>) \<and>
    vector_inv v \<and> \<not> v_lock v \<and> mset (elems v) = mset (elems (sv_clients s)) - {#p#}"
proof -
  obtain k where k: "k < length (elems (sv_clients s))" "elems (sv_clients s) ! k = p"
    using assms(4) by (auto simp: in_set_conv_nth)
  from cleanup_registered [OF assms(1-3) k] mset_swap_remove [OF k(1)] k(2)
  show ?thesis unfolding socket_of_def by (metis (no_types))
qed

theorem cleanup_removes_own_entry_witness:
  "\<exists>s v. connection_cleanup 100 (sample_server [100, 200]) = Inr s \<and> sv_clients s = v \<and>
    mset (elems v) = {#200#} \<and> sv_closed s = [4] \<and> sv_heap s 100 = None"
proof -
  have "blocks_ok (sample_server [100, 200]) (set (elems (sv_clients (sample_server [100, 200]))))"
    unfolding sample_server_ok(2) using sample_server_ok(5) [of "[100, 200]"] by simp
  from cleanup_removes_own_entry [OF sample_server_ok(1) this sample_server_ok(6), of 100] obtain v where
    "connection_cleanup 100 (sample_server [100, 200]) = Inr (sample_server [100, 200]
      \<lparr>sv_closed := sv_closed (sample_server [100, 200]) @ [socket_of (sample_server [100, 200]) 100],
       sv_heap := (sv_heap (sample_server [100, 200]))(100 := None), sv_clients := v\<rparr>)"
    "mset (elems v) = mset (elems (sv_clients (sample_server [100, 200]))) - {#100#}"
    by (auto simp: sample_server_ok(2))
  then show ?thesis unfolding sample_server_ok(2)
    by (auto simp: socket_of_def sample_server_def sample_client_def)
qed

text \<open>
  When every listed block exists, shutting down closes each client's socket once, newest
  first, and then the listening socket; it frees every block of the list, empties it, and
  releases the table, with no wait and no fault.
\<close>

theorem shutdown_releases_clients:
  assumes "list_ok s" and "\<forall>p \<in> set (elems (sv_clients s)). sv_heap s p \<noteq> None" and "ht_inv (sv_table s)"
  shows "\<exists>s'. server_close fd s = Some (Inr (s', 2 * unat (ht_count (sv_table s)) + 2)) \<and>
    sv_closed s' = sv_closed s @ map (socket_of s) (rev (elems (sv_clients s))) @ [fd] \<and>
    sv_heap s' = (\<lambda>p. if p \<in> set (elems (sv_clients s)) then None else sv_heap s p) \<and>
    elems (sv_clients s') = []"
  using server_close_ok [OF assms(1,2) destroy_ok [OF assms(3)], of fd] by auto

theorem shutdown_releases_clients_witness:
  "\<exists>s n. server_close 3 (sample_server [100, 200]) = Some (Inr (s, n)) \<and> sv_closed s = [5, 4, 3] \<and>
    sv_heap s 100 = None \<and> sv_heap s 200 = None"
proof -
  have "\<forall>p \<in> set (elems (sv_clients (sample_server [100, 200]))). sv_heap (sample_server [100, 200]) p \<noteq> None"
    unfolding sample_server_ok(2) by (simp add: sample_server_def)
  from shutdown_releases_clients [OF sample_server_ok(1) this sample_server_ok(7), of 3] show ?thesis
    unfolding sample_server_ok(2) by (auto simp: sample_server_def socket_of_def sample_client_def)
qed

text \<open>
  C33. The accept loop enters a client into the list after it has created the thread. When the
  connection ends in between, its cleanup finds no entry and frees the block; the entry then
  made for it dangles, and the shutdown accesses the freed block.
\<close>

theorem late_registration_dangles:
  assumes "list_ok s" and "blocks_ok s (insert p (set (elems (sv_clients s))))" and "sv_is_running s"
    and "p \<notin> set (elems (sv_clients s))" and "vector_room (sv_clients s)"
  shows "\<exists>s1 s2. connection_cleanup p s = Inr s1 \<and> register_client True p s1 = Some (Inr s2) \<and>
    p \<in> set (elems (sv_clients s2)) \<and> sv_heap s2 p = None \<and>
    server_close fd s2 = Some (Inl DanglingAccess)"
proof -
  let ?s1 = "s\<lparr>sv_closed := sv_closed s @ [cc_socket_fd (the (sv_heap s p))], sv_heap := (sv_heap s)(p := None)\<rparr>"
  let ?v = "sv_clients s\<lparr>v_lock := True\<rparr>"
  have v: "vector_inv ?v" "elems ?v = elems (sv_clients s)" "vector_room ?v" "\<not> v_lock (sv_clients s)"
    using assms(1,5) by (simp_all add: list_ok_def vector_room_def)
  obtain v' where v': "vector_insert_unsafe True ?v (Some p) = Inr (v', True)" "vector_inv v'"
    "elems v' = elems (sv_clients s) @ [p]"
    using vec.add_law [OF v(1,3), of p] v(2) by auto
  let ?s2 = "?s1\<lparr>sv_clients := vector_unlock v'\<rparr>"
  have reg: "register_client True p ?s1 = Some (Inr ?s2)"
    using v(4) v'(1) by (simp add: register_client_def vector_insert_def vector_lock_def)
  let ?w = "vector_unlock v'\<lparr>v_lock := True\<rparr>" and ?k = "length (elems (sv_clients s))"
  have w: "vector_inv ?w" "elems ?w = elems (sv_clients s) @ [p]" using v' by simp_all
  have n: "unat (v_count ?w) = Suc ?k" using count_elems [OF w(1)] w(2) by simp
  have "vector_at_unsafe ?w (of_nat ?k) = Inr (Some p)"
    using vector_at_ok [OF w(1), of ?k] w(2) by simp
  then have "drain_clients (Suc ?k) (?s2\<lparr>sv_clients := ?w\<rparr>) = Inl DanglingAccess"
    by (simp add: load_client_def)
  then have "server_close fd ?s2 = Some (Inl DanglingAccess)"
    using n by (simp add: server_close_def vector_lock_def)
  moreover have "p \<in> set (elems (sv_clients ?s2))" "sv_heap ?s2 p = None" using v'(3) by simp_all
  ultimately show ?thesis using cleanup_unregistered [OF assms(1-4)] reg by blast
qed

theorem late_registration_dangles_witness:
  "\<exists>s1 s2. connection_cleanup 200 (sample_server [100]) = Inr s1 \<and> register_client True 200 s1 = Some (Inr s2) \<and>
    server_close 3 s2 = Some (Inl DanglingAccess)"
proof -
  have "blocks_ok (sample_server [100]) (insert 200 (set (elems (sv_clients (sample_server [100])))))"
    unfolding sample_server_ok(4) using sample_server_ok(5) [of "[100]"] by (simp add: insert_commute)
  moreover have "vector_room (sv_clients (sample_server [100]))" by (simp add: vector_room_def sample_server_def)
  ultimately show ?thesis
    using late_registration_dangles [OF sample_server_ok(3) _ sample_server_ok(6), of 200 3]
    unfolding sample_server_ok(4) by auto
qed

end
