(* ===== verification/Interleaving.thy ===== *)
theory Interleaving
  imports Server
begin

text \<open>
  The whole server: \<open>main\<close>, the connection threads and the signal handler of server.c and
  connection.c as one transition system. A step is one operation of one thread, up to the
  next test of its loop, and is not interrupted. The lemmas show the invariant that ties the
  list of clients to their blocks and threads when each client is registered between the
  start and the end of its thread.
\<close>

section \<open>The system\<close>

text \<open>
  \<open>main\<close> accepts, has created a thread whose client it has still to register, or has ended. A
  thread is named by the block of its client, its argument; the socket of the connection
  travels with it.
\<close>

datatype main_pc = Accepting | Registering nat | Exited

datatype thread = Created sock | Looping thread_pc sock | Ended

record system =
  y_server :: server
  y_main :: main_pc
  y_threads :: "nat \<Rightarrow> thread"

definition world_of :: "server \<Rightarrow> client_connection \<Rightarrow> sock \<Rightarrow> world" where
  "world_of s client sk =
     \<lparr>w_table = sv_table s, w_clients = sv_clients s, w_client = client, w_sock = sk, w_overruns = []\<rparr>"

definition server_of :: "world \<Rightarrow> nat \<Rightarrow> server \<Rightarrow> server" where
  "server_of w p s =
     s\<lparr>sv_table := w_table w, sv_clients := w_clients w, sv_heap := (sv_heap s)(p \<mapsto> w_client w)\<rparr>"

text \<open>The thread's first step stores its id in the block and greets the client.\<close>

definition start_thread :: "64 word \<Rightarrow> nat \<Rightarrow> sock \<Rightarrow> server \<Rightarrow> (thread_pc \<times> sock \<times> server) res" where
  "start_thread self p sk s =
     map_res (\<lambda>client. case connection_start self (world_of s client sk) of
         (pc, w) \<Rightarrow> (pc, w_sock w, server_of w p s))
       (load_client s p)"

text \<open>
  A step of the loops. The tests read \<open>is_running\<close> first: when it is false the block is not
  read.
\<close>

definition serve ::
    "environment \<Rightarrow> nat \<Rightarrow> thread_pc \<Rightarrow> sock \<Rightarrow> server \<Rightarrow> (thread_pc \<times> sock \<times> server) res option" where
  "serve env p pc sk s =
     (if \<not> sv_is_running s then
        Some (Inr (case pc of Reading l \<Rightarrow> Outer | _ \<Rightarrow> Finished, sk, s))
      else
        case load_client s p of
          Inl e \<Rightarrow> Some (Inl e)
        | Inr client \<Rightarrow> map_option (map_res (\<lambda>(pc, w). (pc, w_sock w, server_of w p s)))
            (connection_step env True pc (world_of s client sk)))"

text \<open>A new thread has an id that no live thread has.\<close>

definition fresh_id :: "system \<Rightarrow> 64 word \<Rightarrow> bool" where
  "fresh_id y tid \<longleftrightarrow>
     (\<forall>q pc sk c. y_threads y q = Looping pc sk \<longrightarrow> sv_heap (y_server y) q = Some c \<longrightarrow> cc_thread_id c \<noteq> tid)"

datatype action = Accept nat | Register nat bool | Start nat | Serve nat | Clean nat | Sigint | Close

inductive sys_step :: "environment \<Rightarrow> system \<Rightarrow> action \<Rightarrow> system res \<Rightarrow> bool" for env where
  accept:
    "y_main y = Accepting \<Longrightarrow> sv_is_running (y_server y) \<Longrightarrow>
     sv_heap (y_server y) p = None \<Longrightarrow> y_threads y p = Ended \<Longrightarrow>
     accept_client p junk accepted thread_ok (y_server y) = (s, r) \<Longrightarrow>
     sys_step env y (Accept p) (Inr (case r of
       None \<Rightarrow> y\<lparr>y_server := s\<rparr>
     | Some q \<Rightarrow> y\<lparr>y_server := s, y_main := Registering q, y_threads := (y_threads y)(q := Created sk)\<rparr>))"
| register:
    "y_main y = Registering p \<Longrightarrow> register_client realloc_ok p (y_server y) = Some r \<Longrightarrow>
     sys_step env y (Register p realloc_ok) (map_res (\<lambda>s. y\<lparr>y_server := s, y_main := Accepting\<rparr>) r)"
| start:
    "y_threads y p = Created sk \<Longrightarrow> fresh_id y self \<Longrightarrow>
     sys_step env y (Start p) (map_res
       (\<lambda>(pc, sk, s). y\<lparr>y_server := s, y_threads := (y_threads y)(p := Looping pc sk)\<rparr>)
       (start_thread self p sk (y_server y)))"
| serve:
    "y_threads y p = Looping pc sk \<Longrightarrow> pc \<noteq> Finished \<Longrightarrow> serve env p pc sk (y_server y) = Some r \<Longrightarrow>
     sys_step env y (Serve p) (map_res
       (\<lambda>(pc, sk, s). y\<lparr>y_server := s, y_threads := (y_threads y)(p := Looping pc sk)\<rparr>) r)"
| clean:
    "y_threads y p = Looping Finished sk \<Longrightarrow>
     sys_step env y (Clean p) (map_res
       (\<lambda>s. y\<lparr>y_server := s, y_threads := (y_threads y)(p := Ended)\<rparr>) (connection_cleanup p (y_server y)))"
| sigint:
    "sys_step env y Sigint (Inr (y\<lparr>y_server := handle_sigint (y_server y)\<rparr>))"
| close:
    "y_main y = Accepting \<Longrightarrow> \<not> sv_is_running (y_server y) \<Longrightarrow> server_close fd (y_server y) = Some r \<Longrightarrow>
     sys_step env y Close (map_res (\<lambda>(s, _). y\<lparr>y_server := s, y_main := Exited\<rparr>) r)"

inductive_cases sys_step_Accept: "sys_step env y (Accept p) r"
inductive_cases sys_step_Register: "sys_step env y (Register p ok) r"
inductive_cases sys_step_Start: "sys_step env y (Start p) r"
inductive_cases sys_step_Serve: "sys_step env y (Serve p) r"
inductive_cases sys_step_Clean: "sys_step env y (Clean p) r"
inductive_cases sys_step_Sigint: "sys_step env y Sigint r"
inductive_cases sys_step_Close: "sys_step env y Close r"

definition system_start :: "server \<Rightarrow> system" where
  "system_start s = \<lparr>y_server = s, y_main = Accepting, y_threads = \<lambda>_. Ended\<rparr>"

section \<open>Registered in time\<close>

text \<open>
  The order of steps that the code does not enforce: a client is registered after its thread
  has started and before it cleans up, with room in the list.
\<close>

fun in_time :: "system \<Rightarrow> action \<Rightarrow> bool" where
  "in_time y (Register p realloc_ok) =
     (realloc_ok \<and> vector_room (sv_clients (y_server y)) \<and> (case y_threads y p of Looping _ _ \<Rightarrow> True | _ \<Rightarrow> False))"
| "in_time y (Clean p) = (y_main y \<noteq> Registering p)"
| "in_time y _ = True"

inductive reachable :: "environment \<Rightarrow> system \<Rightarrow> bool" for env where
  init: "server_start True = Some s \<Longrightarrow> reachable env (system_start s)"
| step: "reachable env y \<Longrightarrow> in_time y a \<Longrightarrow> sys_step env y a (Inr y') \<Longrightarrow> reachable env y'"

definition pending_client :: "system \<Rightarrow> nat set" where
  "pending_client y = (case y_main y of Registering p \<Rightarrow> {p} | _ \<Rightarrow> {})"

definition listed :: "system \<Rightarrow> nat set" where
  "listed y = set (elems (sv_clients (y_server y)))"

definition looping :: "system \<Rightarrow> nat \<Rightarrow> bool" where
  "looping y p \<longleftrightarrow> (\<exists>pc sk. y_threads y p = Looping pc sk)"

text \<open>
  The invariant: the blocks are those of the listed clients and of the one being registered;
  while the server runs, each of them has a live thread, live threads have blocks, and the
  started ones different ids. Listed clients have started.
\<close>

definition sys_inv :: "environment \<Rightarrow> system \<Rightarrow> bool" where
  "sys_inv env y \<longleftrightarrow>
     list_ok (y_server y) \<and> ht_inv (sv_table (y_server y)) \<and>
     listed y \<inter> pending_client y = {} \<and>
     dom (sv_heap (y_server y)) = listed y \<union> pending_client y \<and>
     (\<forall>p sk. y_threads y p = Created sk \<longrightarrow> p \<in> pending_client y) \<and>
     (\<forall>p pc sk. y_threads y p = Looping pc sk \<longrightarrow> pc_ok env pc) \<and>
     (sv_is_running (y_server y) \<longrightarrow>
       (\<forall>p. y_threads y p \<noteq> Ended \<longleftrightarrow> p \<in> dom (sv_heap (y_server y))) \<and>
       blocks_ok (y_server y) {p. looping y p})"

section \<open>The steps keep the invariant\<close>

lemma blocks_ok_subset: "blocks_ok s A \<Longrightarrow> B \<subseteq> A \<Longrightarrow> blocks_ok s B"
  by (auto simp: blocks_ok_def)

lemma sys_invD:
  assumes "sys_inv env y"
  shows "list_ok (y_server y)" "ht_inv (sv_table (y_server y))" "listed y \<inter> pending_client y = {}"
    "dom (sv_heap (y_server y)) = listed y \<union> pending_client y"
    "y_threads y p = Created sk \<Longrightarrow> p \<in> pending_client y"
    "y_threads y p = Looping pc sk \<Longrightarrow> pc_ok env pc"
    "sv_is_running (y_server y) \<Longrightarrow> y_threads y p \<noteq> Ended \<longleftrightarrow> p \<in> dom (sv_heap (y_server y))"
    "sv_is_running (y_server y) \<Longrightarrow> blocks_ok (y_server y) {p. looping y p}"
  using assms unfolding sys_inv_def by blast+

lemma sys_invI:
  assumes "list_ok (y_server y)" "ht_inv (sv_table (y_server y))" "listed y \<inter> pending_client y = {}"
    "dom (sv_heap (y_server y)) = listed y \<union> pending_client y"
    "\<And>p sk. y_threads y p = Created sk \<Longrightarrow> p \<in> pending_client y"
    "\<And>p pc sk. y_threads y p = Looping pc sk \<Longrightarrow> pc_ok env pc"
    "\<And>p. sv_is_running (y_server y) \<Longrightarrow> y_threads y p \<noteq> Ended \<longleftrightarrow> p \<in> dom (sv_heap (y_server y))"
    "sv_is_running (y_server y) \<Longrightarrow> blocks_ok (y_server y) {p. looping y p}"
  shows "sys_inv env y"
  using assms unfolding sys_inv_def by blast

definition same_clients :: "server \<Rightarrow> server \<Rightarrow> bool" where
  "same_clients s s' \<longleftrightarrow> sv_clients s = sv_clients s' \<and> sv_table s = sv_table s' \<and> sv_heap s = sv_heap s' \<and>
     (sv_is_running s \<longrightarrow> sv_is_running s')"

lemma sys_inv_same:
  assumes "sys_inv env y" and "same_clients s (y_server y)"
  shows "sys_inv env (y\<lparr>y_server := s\<rparr>)"
proof -
  let ?y = "y\<lparr>y_server := s\<rparr>"
  have eq: "sv_clients s = sv_clients (y_server y)" "sv_table s = sv_table (y_server y)"
    "sv_heap s = sv_heap (y_server y)" "sv_is_running s \<Longrightarrow> sv_is_running (y_server y)"
    using assms(2) by (simp_all add: same_clients_def)
  have sets: "listed ?y = listed y" "pending_client ?y = pending_client y" "looping ?y = looping y"
    using eq(1) by (auto simp: listed_def pending_client_def looping_def fun_eq_iff)
  have parts: "list_ok s = list_ok (y_server y)" "blocks_ok s = blocks_ok (y_server y)"
    using eq by (simp_all add: list_ok_def blocks_ok_def fun_eq_iff)
  note inv = sys_invD [OF assms(1)]
  show ?thesis
    by (rule sys_invI, unfold sets) (use inv eq parts in simp_all)
qed

lemma listed_looping:
  assumes "sys_inv env y" and "sv_is_running (y_server y)" and "p \<in> listed y"
  shows "looping y p"
proof -
  have "y_threads y p \<noteq> Ended" using sys_invD(4,7) [OF assms(1)] assms(2,3) by blast
  moreover have "y_threads y p \<noteq> Created sk" for sk using sys_invD(3,5) [OF assms(1)] assms(3) by blast
  ultimately show ?thesis by (cases "y_threads y p") (auto simp: looping_def)
qed

lemma listed_blocks:
  assumes "sys_inv env y" and "sv_is_running (y_server y)"
  shows "blocks_ok (y_server y) (set (elems (sv_clients (y_server y))))"
  using listed_looping [OF assms] by (intro blocks_ok_subset [OF sys_invD(8) [OF assms]]) (auto simp: listed_def)

lemma sys_inv_start:
  assumes "server_start True = Some s"
  shows "sys_inv env (system_start s)"
proof -
  obtain v :: "nat vector" where v: "vector_create 10 True = Some v" "vector_inv v" "elems v = []" "\<not> v_lock v"
    using vector_create_ok [of 10] by auto
  have "ht_inv (hash_table_create MEMUNCACHED_TABLE_INITIAL_SIZE)"
    unfolding MEMUNCACHED_TABLE_INITIAL_SIZE_def by (rule ht_create_inv) simp_all
  with v assms show ?thesis
    by (auto simp: server_start_def system_start_def sys_inv_def list_ok_def listed_def pending_client_def
        blocks_ok_def looping_def)
qed

lemma accept_client_cases:
  assumes "accept_client p junk accepted thread_ok s = (s', r)"
  shows "r = None \<and> same_clients s' s \<or> r = Some p \<and> (\<exists>c. s' = s\<lparr>sv_heap := (sv_heap s)(p \<mapsto> c)\<rparr>)"
proof (cases accepted)
  case None
  with assms show ?thesis by (simp add: accept_client_def same_clients_def)
next
  case (Some a)
  obtain fd addr port where "a = (fd, addr, port)" by (cases a)
  with Some assms show ?thesis by (cases thread_ok) (auto simp: accept_client_def same_clients_def)
qed

lemma accept_keeps:
  assumes "sys_inv env y" and "sys_step env y (Accept p) (Inr y')"
  shows "sys_inv env y'"
  using assms(2)
proof (cases rule: sys_step_Accept [consumes 1])
  case (1 junk accepted thread_ok s r sk)
  let ?s = "y_server y"
  have pend: "pending_client y = {}" using 1(2) by (simp add: pending_client_def)
  note inv = sys_invD [OF assms(1)]
  show ?thesis
  proof (cases r)
    case None
    then have "same_clients s ?s" using accept_client_cases [OF 1(6)] by simp
    moreover have "y' = y\<lparr>y_server := s\<rparr>" using 1(1) None by simp
    ultimately show ?thesis using sys_inv_same [OF assms(1)] by simp
  next
    case (Some q)
    then obtain c where s: "s = ?s\<lparr>sv_heap := (sv_heap ?s)(p \<mapsto> c)\<rparr>" "q = p"
      using accept_client_cases [OF 1(6)] by auto
    have y': "y' = y\<lparr>y_server := s, y_main := Registering p, y_threads := (y_threads y)(p := Created sk)\<rparr>"
      using 1(1) Some s(2) by simp
    have loop: "looping y' q \<longleftrightarrow> looping y q" for q
      using 1(5) unfolding y' by (auto simp: looping_def)
    have np: "p \<notin> listed y" "\<not> looping y p" using inv(4) 1(4,5) by (auto simp: looping_def)
    have blocks: "blocks_ok s {q. looping y q}" using inv(8) [OF 1(3)] np(2) unfolding s(1)
      by (auto simp: blocks_ok_def)
    have sets: "listed y' = listed y" "pending_client y' = {p}" by (simp_all add: y' s(1) listed_def pending_client_def)
    have heap: "dom (sv_heap (y_server y')) = insert p (listed y)" using inv(4) pend by (simp add: y' s(1))
    show ?thesis
    proof (rule sys_invI)
      show "list_ok (y_server y')" "ht_inv (sv_table (y_server y'))" using inv(1,2) by (simp_all add: y' s(1) list_ok_def)
      show "listed y' \<inter> pending_client y' = {}" using np(1) sets by simp
      show "dom (sv_heap (y_server y')) = listed y' \<union> pending_client y'" using heap sets by simp
      show "q \<in> pending_client y'" if "y_threads y' q = Created sk'" for q sk'
        using that inv(5) [of q sk'] pend sets(2) by (auto simp: y' split: if_splits)
      show "pc_ok env pc" if "y_threads y' q = Looping pc sk'" for q pc sk'
        using that inv(6) [of q pc sk'] by (auto simp: y' split: if_splits)
      show "y_threads y' q \<noteq> Ended \<longleftrightarrow> q \<in> dom (sv_heap (y_server y'))" for q
        unfolding heap using inv(7) [OF 1(3), of q] inv(4) pend by (simp add: y')
      show "blocks_ok (y_server y') {p. looping y' p}" using blocks unfolding loop by (simp add: y')
    qed
  qed
qed

lemma register_ok:
  assumes "list_ok s" and "vector_room (sv_clients s)" and "p \<notin> set (elems (sv_clients s))"
  shows "\<exists>v. register_client True p s = Some (Inr (s\<lparr>sv_clients := v\<rparr>)) \<and>
    elems v = elems (sv_clients s) @ [p] \<and> list_ok (s\<lparr>sv_clients := v\<rparr>)"
proof -
  let ?v = "sv_clients s\<lparr>v_lock := True\<rparr>"
  have v: "vector_inv ?v" "elems ?v = elems (sv_clients s)" "vector_room ?v" "\<not> v_lock (sv_clients s)" "distinct (elems ?v)"
    using assms(1,2) by (simp_all add: list_ok_def vector_room_def)
  obtain v' where v': "vector_insert_unsafe True ?v (Some p) = Inr (v', True)" "vector_inv v'"
    "elems v' = elems ?v @ [p]"
    using vec.add_law [OF v(1,3), of p] by auto
  then show ?thesis using v(2,4,5) assms(3)
    by (intro exI [of _ "vector_unlock v'"])
      (simp add: register_client_def vector_insert_def vector_lock_def list_ok_def)
qed

lemma register_keeps:
  assumes "sys_inv env y" and "in_time y (Register p ok)" and "sys_step env y (Register p ok) r"
  shows "\<exists>y'. r = Inr y' \<and> sys_inv env y'"
  using assms(3)
proof (cases rule: sys_step_Register [consumes 1])
  case (1 r')
  let ?s = "y_server y"
  have pend: "pending_client y = {p}" using 1(2) by (simp add: pending_client_def)
  note inv = sys_invD [OF assms(1)]
  have t: "ok" "vector_room (sv_clients ?s)" "looping y p"
    using assms(2) by (auto simp: looping_def split: thread.splits)
  have np: "p \<notin> listed y" using inv(3) pend by simp
  obtain v where v: "register_client True p ?s = Some (Inr (?s\<lparr>sv_clients := v\<rparr>))"
    "elems v = elems (sv_clients ?s) @ [p]" "list_ok (?s\<lparr>sv_clients := v\<rparr>)"
    using register_ok [OF inv(1) t(2)] np by (auto simp: listed_def)
  let ?y = "y\<lparr>y_server := ?s\<lparr>sv_clients := v\<rparr>, y_main := Accepting\<rparr>"
  have "r' = Inr (?s\<lparr>sv_clients := v\<rparr>)" using 1(3) v(1) t(1) by simp
  then have r: "r = Inr ?y" using 1(1) by simp
  have loop: "looping ?y q \<longleftrightarrow> looping y q" for q by (simp add: looping_def)
  have listed: "listed ?y = insert p (listed y)" using v(2) by (simp add: listed_def)
  have nc: "y_threads y q \<noteq> Created sk" for q sk
    using inv(5) [of q sk] pend t(3) by (auto simp: looping_def)
  have "blocks_ok (?s\<lparr>sv_clients := v\<rparr>) A = blocks_ok ?s A" for A by (simp add: blocks_ok_def)
  then have "sys_inv env ?y"
    unfolding sys_inv_def loop listed
    using inv v(3) pend nc by (simp add: pending_client_def disj_commute)
  with r show ?thesis by blast
qed

text \<open>A thread that replaces its own block, with the same id or a fresh one, in a state with the same list.\<close>

lemma own_block_keeps:
  assumes "sys_inv env y" and "y_threads y p \<noteq> Ended" and "sv_heap (y_server y) p \<noteq> None"
    and "sv_clients s = sv_clients (y_server y)" and "ht_inv (sv_table s)"
    and "sv_heap s = (sv_heap (y_server y))(p \<mapsto> c)" and "sv_is_running s = sv_is_running (y_server y)"
    and "pc_ok env pc"
    and "looping y p \<and> cc_thread_id c = cc_thread_id (the (sv_heap (y_server y) p)) \<or> fresh_id y (cc_thread_id c) \<and> \<not> looping y p"
  shows "sys_inv env (y\<lparr>y_server := s, y_threads := (y_threads y)(p := Looping pc sk)\<rparr>)"
proof -
  let ?y = "y\<lparr>y_server := s, y_threads := (y_threads y)(p := Looping pc sk)\<rparr>" and ?s = "y_server y"
  note inv = sys_invD [OF assms(1)]
  have sets: "listed ?y = listed y" "pending_client ?y = pending_client y" "{q. looping ?y q} = insert p {q. looping y q}"
    using assms(4) by (auto simp: listed_def pending_client_def looping_def)
  have heap: "dom (sv_heap s) = dom (sv_heap ?s)" using assms(3,6) by auto
  have blocks: "blocks_ok s (insert p {q. looping y q})" if running: "sv_is_running ?s"
  proof -
    have b: "blocks_ok ?s {q. looping y q}" using inv(8) [OF running] .
    have other: "cc_thread_id (the (sv_heap ?s q)) \<noteq> cc_thread_id c" if q: "looping y q" "q \<noteq> p" for q
    proof -
      have "sv_heap ?s q \<noteq> None" using b q(1) by (simp add: blocks_ok_def)
      then obtain d where d: "sv_heap ?s q = Some d" by auto
      show ?thesis
      proof (cases "looping y p")
        case True
        with assms(9) have "cc_thread_id c = cc_thread_id (the (sv_heap ?s p))" by blast
        moreover have "cc_thread_id (the (sv_heap ?s q)) \<noteq> cc_thread_id (the (sv_heap ?s p))"
          using b q True unfolding blocks_ok_def by blast
        ultimately show ?thesis by simp
      next
        case False
        with assms(9) have "fresh_id y (cc_thread_id c)" by blast
        with q(1) d show ?thesis by (auto simp: fresh_id_def looping_def)
      qed
    qed
    have "cc_thread_id c \<noteq> cc_thread_id (the (sv_heap ?s q))" if "looping y q" "q \<noteq> p" for q
      using other [OF that] by simp
    with b other show ?thesis unfolding blocks_ok_def assms(6) by auto
  qed
  show ?thesis
  proof (rule sys_invI, unfold sets)
    show "list_ok (y_server ?y)" using inv(1) assms(4) by (simp add: list_ok_def)
    show "ht_inv (sv_table (y_server ?y))" using assms(5) by simp
    show "listed y \<inter> pending_client y = {}" by (rule inv(3))
    show "dom (sv_heap (y_server ?y)) = listed y \<union> pending_client y" using heap inv(4) by simp
    show "q \<in> pending_client y" if "y_threads ?y q = Created sk'" for q sk'
      using that inv(5) [of q sk'] by (auto split: if_splits)
    show "pc_ok env pc'" if "y_threads ?y q = Looping pc' sk'" for q pc' sk'
      using that inv(6) [of q pc' sk'] assms(8) by (auto split: if_splits)
    show "y_threads ?y q \<noteq> Ended \<longleftrightarrow> q \<in> dom (sv_heap (y_server ?y))" if "sv_is_running (y_server ?y)" for q
      using that inv(7) [of q] assms(2,3,7) heap by auto
    show "blocks_ok (y_server ?y) (insert p {q. looping y q})" if "sv_is_running (y_server ?y)"
      using that blocks assms(7) by simp
  qed
qed

lemma start_keeps:
  assumes "sys_inv env y" and "sys_step env y (Start p) r"
  shows "\<exists>y'. r = Inr y' \<and> sys_inv env y'"
  using assms(2)
proof (cases rule: sys_step_Start [consumes 1])
  case (1 sk self)
  let ?s = "y_server y"
  note inv = sys_invD [OF assms(1)]
  have "p \<in> dom (sv_heap ?s)" using inv(4) inv(5) [OF 1(2)] by blast
  then obtain c where c: "sv_heap ?s p = Some c" by blast
  obtain pc w where w: "connection_start self (world_of ?s c sk) = (pc, w)" by (cases "connection_start self (world_of ?s c sk)")
  then have pc: "pc = Outer" "w_table w = sv_table ?s" "w_clients w = sv_clients ?s" "cc_thread_id (w_client w) = self"
    by (auto simp: connection_start_def world_of_def)
  have "start_thread self p sk ?s = Inr (pc, w_sock w, server_of w p ?s)"
    using c w by (simp add: start_thread_def load_client_def)
  then have r: "r = Inr (y\<lparr>y_server := server_of w p ?s, y_threads := (y_threads y)(p := Looping pc (w_sock w))\<rparr>)"
    using 1(1) by simp
  have "sys_inv env (y\<lparr>y_server := server_of w p ?s, y_threads := (y_threads y)(p := Looping pc (w_sock w))\<rparr>)"
    by (rule own_block_keeps [OF assms(1), where c = "w_client w"])
      (use 1(2,3) c pc inv(2) in \<open>simp_all add: server_of_def looping_def\<close>)
  with r show ?thesis by blast
qed

lemma serve_keeps:
  assumes "sys_inv env y" and "sys_step env y (Serve p) (Inr y')"
  shows "sys_inv env y'"
  using assms(2)
proof (cases rule: sys_step_Serve [consumes 1])
  case (1 pc sk r)
  let ?s = "y_server y"
  note inv = sys_invD [OF assms(1)]
  obtain pc' sk' s' where r: "r = Inr (pc', sk', s')"
    "y' = y\<lparr>y_server := s', y_threads := (y_threads y)(p := Looping pc' sk')\<rparr>"
    using 1(1) by (cases r) auto
  have pc: "pc_ok env pc" using inv(6) [OF 1(2)] .
  have loop: "looping y p" using 1(2) by (simp add: looping_def)
  show ?thesis
  proof (cases "sv_is_running ?s")
    case True
    have "y_threads y p \<noteq> Ended" using 1(2) by simp
    then have "p \<in> dom (sv_heap ?s)" using inv(7) [OF True] by blast
    then obtain c where c: "sv_heap ?s p = Some c" by blast
    then obtain w' where w': "connection_step env True pc (world_of ?s c sk) = Some (Inr (pc', w'))"
      "sk' = w_sock w'" "s' = server_of w' p ?s"
      using 1(4) True r(1) by (auto simp: serve_def load_client_def map_res_Inr_iff)
    from connection_step_keeps [OF w'(1) pc] have k: "pc_ok env pc'" "ht_inv (w_table w')"
      "w_clients w' = sv_clients ?s" "cc_thread_id (w_client w') = cc_thread_id c"
      using inv(2) by (simp_all add: keeps_shared_def world_of_def)
    show ?thesis unfolding r(2)
      by (rule own_block_keeps [OF assms(1), where c = "w_client w'"])
        (use 1(2) c k w' loop in \<open>simp_all add: server_of_def\<close>)
  next
    case False
    then have s': "s' = ?s" "pc_ok env pc'" using 1(4) r(1) by (auto simp: serve_def split: thread_pc.splits)
    have sets: "listed y' = listed y" "pending_client y' = pending_client y"
      by (simp_all add: r(2) s'(1) listed_def pending_client_def)
    show ?thesis
    proof (rule sys_invI, unfold sets)
      show "q \<in> pending_client y" if "y_threads y' q = Created sk2" for q sk2
        using that inv(5) [of q sk2] by (auto simp: r(2) split: if_splits)
      show "pc_ok env pc2" if "y_threads y' q = Looping pc2 sk2" for q pc2 sk2
        using that inv(6) [of q pc2 sk2] s'(2) by (auto simp: r(2) split: if_splits)
    qed (use inv(1-4) False in \<open>simp_all add: r(2) s'(1)\<close>)
  qed
qed

lemma ended_keeps:
  assumes "sys_inv env y" and "\<not> sv_is_running (y_server y)" and "looping y p"
  shows "sys_inv env (y\<lparr>y_threads := (y_threads y)(p := Ended)\<rparr>)"
proof -
  let ?y = "y\<lparr>y_threads := (y_threads y)(p := Ended)\<rparr>"
  note inv = sys_invD [OF assms(1)]
  have sets: "listed ?y = listed y" "pending_client ?y = pending_client y"
    by (simp_all add: listed_def pending_client_def)
  show ?thesis
  proof (rule sys_invI, unfold sets)
    show "q \<in> pending_client y" if "y_threads ?y q = Created sk" for q sk
      using that inv(5) [of q sk] by (auto split: if_splits)
    show "pc_ok env pc" if "y_threads ?y q = Looping pc sk" for q pc sk
      using that inv(6) [of q pc sk] by (auto split: if_splits)
  qed (use inv(1-4) assms(2) in simp_all)
qed

lemma clean_keeps:
  assumes "sys_inv env y" and "in_time y (Clean p)" and "sys_step env y (Clean p) r"
  shows "\<exists>y'. r = Inr y' \<and> sys_inv env y'"
  using assms(3)
proof (cases rule: sys_step_Clean [consumes 1])
  case (1 sk)
  let ?s = "y_server y"
  note inv = sys_invD [OF assms(1)]
  have loop: "looping y p" using 1(2) by (simp add: looping_def)
  show ?thesis
  proof (cases "sv_is_running ?s")
    case False
    then have "r = Inr (y\<lparr>y_threads := (y_threads y)(p := Ended)\<rparr>)" using 1(1) by (simp add: connection_cleanup_def)
    with ended_keeps [OF assms(1) False loop] show ?thesis by blast
  next
    case True
    have "y_threads y p \<noteq> Ended" using 1(2) by simp
    then have "p \<in> dom (sv_heap ?s)" using inv(7) [OF True] by blast
    moreover have "p \<notin> pending_client y" using assms(2) by (auto simp: pending_client_def split: main_pc.splits)
    ultimately have p: "p \<in> listed y" using inv(4) by blast
    then obtain k where k: "k < length (elems (sv_clients ?s))" "elems (sv_clients ?s) ! k = p"
      by (auto simp: listed_def in_set_conv_nth)
    obtain v where v: "connection_cleanup p ?s =
        Inr (?s\<lparr>sv_closed := sv_closed ?s @ [cc_socket_fd (the (sv_heap ?s p))],
          sv_heap := (sv_heap ?s)(p := None), sv_clients := v\<rparr>)"
      "vector_inv v" "\<not> v_lock v" "elems v = swap_remove k (elems (sv_clients ?s))"
      using cleanup_registered [OF inv(1) listed_blocks [OF assms(1) True] True k] by blast
    let ?s' = "?s\<lparr>sv_closed := sv_closed ?s @ [cc_socket_fd (the (sv_heap ?s p))],
          sv_heap := (sv_heap ?s)(p := None), sv_clients := v\<rparr>"
    let ?y = "y\<lparr>y_server := ?s', y_threads := (y_threads y)(p := Ended)\<rparr>"
    have dist: "distinct (elems (sv_clients ?s))" using inv(1) by (simp add: list_ok_def)
    have ms: "mset (elems v) = mset (elems (sv_clients ?s)) - {#p#}" using v(4) mset_swap_remove [OF k(1)] k(2) by simp
    have elems: "distinct (elems v)" "set (elems v) = set (elems (sv_clients ?s)) - {p}"
    proof -
      have "mset (elems v) = mset (remove1 p (elems (sv_clients ?s)))" using ms by simp
      then have "set (elems v) = set (remove1 p (elems (sv_clients ?s)))" "distinct (elems v) = distinct (remove1 p (elems (sv_clients ?s)))"
        using mset_eq_setD mset_eq_imp_distinct_iff by blast+
      then show "distinct (elems v)" "set (elems v) = set (elems (sv_clients ?s)) - {p}"
        using dist by (simp_all add: set_remove1_eq)
    qed
    have sets: "listed ?y = listed y - {p}" "pending_client ?y = pending_client y"
      "{q. looping ?y q} = {q. looping y q} - {p}"
      using elems(2) by (auto simp: listed_def pending_client_def looping_def)
    have "sys_inv env ?y"
    proof (rule sys_invI, unfold sets)
      show "list_ok (y_server ?y)" using v(2,3) elems(1) by (simp add: list_ok_def)
      show "ht_inv (sv_table (y_server ?y))" using inv(2) by simp
      show "(listed y - {p}) \<inter> pending_client y = {}" using inv(3) by blast
      show "dom (sv_heap (y_server ?y)) = (listed y - {p}) \<union> pending_client y"
        using inv(4) \<open>p \<notin> pending_client y\<close> by auto
      show "q \<in> pending_client y" if "y_threads ?y q = Created sk2" for q sk2
        using that inv(5) [of q sk2] by (auto split: if_splits)
      show "pc_ok env pc" if "y_threads ?y q = Looping pc sk2" for q pc sk2
        using that inv(6) [of q pc sk2] by (auto split: if_splits)
      show "y_threads ?y q \<noteq> Ended \<longleftrightarrow> q \<in> dom (sv_heap (y_server ?y))" for q
        using inv(7) [OF True, of q] by auto
      show "blocks_ok (y_server ?y) ({q. looping y q} - {p})"
        using inv(8) [OF True] by (simp add: blocks_ok_def)
    qed
    moreover have "r = Inr ?y" using 1(1) v(1) by simp
    ultimately show ?thesis by blast
  qed
qed

lemma close_keeps:
  assumes "sys_inv env y" and "sys_step env y Close r"
  shows "\<exists>y'. r = Inr y' \<and> sys_inv env y' \<and> sv_heap (y_server y') = (\<lambda>_. None) \<and> listed y' = {}"
  using assms(2)
proof (cases rule: sys_step_Close [consumes 1])
  case (1 fd r')
  let ?s = "y_server y" and ?ps = "elems (sv_clients (y_server y))"
  note inv = sys_invD [OF assms(1)]
  have pend: "pending_client y = {}" using 1(2) by (simp add: pending_client_def)
  have dom: "dom (sv_heap ?s) = set ?ps" using inv(4) pend by (simp add: listed_def)
  have blocks: "\<forall>p \<in> set ?ps. sv_heap ?s p \<noteq> None" using dom by auto
  obtain v where v: "server_close fd ?s =
      Some (Inr (?s\<lparr>sv_closed := sv_closed ?s @ map (socket_of ?s) (rev ?ps) @ [fd],
        sv_heap := (\<lambda>p. if p \<in> set ?ps then None else sv_heap ?s p), sv_clients := v\<rparr>, 2 * unat (ht_count (sv_table ?s)) + 2))"
    "elems v = []" "vector_inv v" "\<not> v_lock v"
    using server_close_ok [OF inv(1) blocks destroy_ok [OF inv(2)], of fd] by blast
  have empty: "(\<lambda>p. if p \<in> set ?ps then None else sv_heap ?s p) = (\<lambda>_. None)"
    using dom by (auto simp: fun_eq_iff domIff)
  let ?s' = "?s\<lparr>sv_closed := sv_closed ?s @ map (socket_of ?s) (rev ?ps) @ [fd], sv_heap := (\<lambda>_. None), sv_clients := v\<rparr>"
  let ?y = "y\<lparr>y_server := ?s', y_main := Exited\<rparr>"
  have sets: "listed ?y = {}" "pending_client ?y = {}" using v(2) by (simp_all add: listed_def pending_client_def)
  have "sys_inv env ?y"
  proof (rule sys_invI, unfold sets)
    show "q \<in> {}" if "y_threads ?y q = Created sk" for q sk using that inv(5) [of q sk] pend by simp
    show "pc_ok env pc" if "y_threads ?y q = Looping pc sk" for q pc sk using that inv(6) [of q pc sk] by simp
  qed (use v inv(2) 1(3) in \<open>simp_all add: list_ok_def\<close>)
  moreover have "r = Inr ?y"
  proof -
    have "r' = Inr (?s', 2 * unat (ht_count (sv_table ?s)) + 2)" using 1(4) v(1) unfolding empty by simp
    then show ?thesis using 1(1) by simp
  qed
  ultimately show ?thesis using sets(1) by (intro exI [of _ ?y]) simp
qed

lemma sigint_keeps:
  assumes "sys_inv env y"
  shows "sys_inv env (y\<lparr>y_server := handle_sigint (y_server y)\<rparr>)"
  using assms by (rule sys_inv_same) (simp add: same_clients_def handle_sigint_def)

lemma sys_step_keeps:
  assumes "sys_inv env y" and "in_time y a" and "sys_step env y a (Inr y')"
  shows "sys_inv env y'"
proof (cases a)
  case (Accept p)
  with assms accept_keeps show ?thesis by blast
next
  case (Register p ok)
  with register_keeps assms show ?thesis by fastforce
next
  case (Start p)
  with start_keeps assms show ?thesis by fastforce
next
  case (Serve p)
  with serve_keeps assms show ?thesis by blast
next
  case (Clean p)
  with clean_keeps assms show ?thesis by fastforce
next
  case Sigint
  with assms(3) have "y' = y\<lparr>y_server := handle_sigint (y_server y)\<rparr>" by (auto elim: sys_step_Sigint)
  with sigint_keeps [OF assms(1)] show ?thesis by simp
next
  case Close
  with close_keeps assms show ?thesis by fastforce
qed

lemma reachable_inv: "reachable env y \<Longrightarrow> sys_inv env y"
  by (induction rule: reachable.induct) (auto intro: sys_inv_start sys_step_keeps)

section \<open>A run\<close>

text \<open>One client connects, its thread starts, and it is registered.\<close>

lemma sample_run:
  "\<exists>y sk c. reachable env y \<and> listed y = {100} \<and> y_main y = Accepting \<and> sv_is_running (y_server y) \<and>
    y_threads y 100 = Looping Outer sk \<and> sk_in sk = es \<and> sv_heap (y_server y) 100 = Some c \<and> cc_is_thread_running c"
proof -
  obtain s where s: "server_start True = Some s" "sv_is_running s" "sv_heap s = (\<lambda>_. None)"
    using vector_create_ok [of 10] by (fastforce simp: server_start_def)
  let ?y0 = "system_start s" and ?sk = "\<lparr>sk_in = es, sk_out = []\<rparr>" and ?c = "sample_client 4 0"
  let ?s1 = "s\<lparr>sv_heap := (sv_heap s)(100 \<mapsto> ?c)\<rparr>"
  let ?y1 = "?y0\<lparr>y_server := ?s1, y_main := Registering 100, y_threads := (y_threads ?y0)(100 := Created ?sk)\<rparr>"
  have r0: "reachable env ?y0" using s(1) by (rule reachable.init)
  have "accept_client 100 0 (Some (4, ''127.0.0.1'', 40000)) True (y_server ?y0) = (?s1, Some 100)"
    by (simp add: accept_client_def system_start_def sample_client_def)
  from sys_step.accept [OF _ _ _ _ this, of env ?sk] have "sys_step env ?y0 (Accept 100) (Inr ?y1)"
    using s(2,3) by (simp add: system_start_def)
  from reachable.step [OF r0 _ this] have r1: "reachable env ?y1" by simp
  have created: "y_threads ?y1 100 = Created ?sk" by simp
  have fresh: "fresh_id ?y1 7" by (simp add: fresh_id_def system_start_def)
  obtain pc w where w: "connection_start 7 (world_of ?s1 ?c ?sk) = (pc, w)" by (cases "connection_start 7 (world_of ?s1 ?c ?sk)")
  let ?s2 = "server_of w 100 ?s1"
  let ?y2 = "?y1\<lparr>y_server := ?s2, y_threads := (y_threads ?y1)(100 := Looping pc (w_sock w))\<rparr>"
  have "start_thread 7 100 ?sk (y_server ?y1) = Inr (pc, w_sock w, ?s2)"
    using w by (simp add: start_thread_def load_client_def)
  with sys_step.start [OF created fresh, of env] have "sys_step env ?y1 (Start 100) (Inr ?y2)" by simp
  from reachable.step [OF r1 _ this] have r2: "reachable env ?y2" by simp
  have clients: "sv_clients ?s2 = sv_clients s" using w by (auto simp: connection_start_def world_of_def server_of_def)
  obtain v where v: "vector_create 10 True = Some v" "vector_inv v" "elems v = []" "v_size v = 10" "\<not> v_lock v" "sv_clients s = v"
    using vector_create_ok [of 10] s(1) by (fastforce simp: server_start_def)
  have ok: "list_ok ?s2" "vector_room (sv_clients ?s2)" "100 \<notin> set (elems (sv_clients ?s2))"
    unfolding list_ok_def clients vector_room_def using v by simp_all
  obtain v' where v': "register_client True 100 ?s2 = Some (Inr (?s2\<lparr>sv_clients := v'\<rparr>))"
    "elems v' = elems (sv_clients ?s2) @ [100]"
    using register_ok [OF ok] by blast
  let ?y3 = "?y2\<lparr>y_server := ?s2\<lparr>sv_clients := v'\<rparr>, y_main := Accepting\<rparr>"
  have reg: "y_main ?y2 = Registering 100" "register_client True 100 (y_server ?y2) = Some (Inr (?s2\<lparr>sv_clients := v'\<rparr>))"
    using v'(1) by simp_all
  have "sys_step env ?y2 (Register 100 True) (Inr ?y3)" using sys_step.register [OF reg, of env] by simp
  from reachable.step [OF r2 _ this] have r3: "reachable env ?y3" using ok(2) by simp
  have "sv_is_running ?s2" "sv_heap ?s2 100 = Some (w_client w)" using s(2) by (simp_all add: server_of_def)
  moreover have "pc = Outer" "sk_in (w_sock w) = es" "cc_is_thread_running (w_client w)"
    using w by (auto simp: connection_start_def world_of_def sample_client_def)
  ultimately show ?thesis using r3 v'(2) v(3,6) clients
    by (intro exI [of _ ?y3] exI [of _ "w_sock w"] exI [of _ "w_client w"]) (simp add: listed_def)
qed

section \<open>Properties\<close>

text \<open>
  C17. As long as clients are registered in time, the blocks on the heap are at any moment those
  of the listed clients and of the one being registered: nothing dangles and nothing is
  lost. No block is listed twice, started threads have different ids, and the table is well
  formed.
\<close>

theorem clients_match_blocks:
  assumes "reachable env y"
  shows "dom (sv_heap (y_server y)) = listed y \<union> pending_client y \<and> listed y \<inter> pending_client y = {} \<and>
    distinct (elems (sv_clients (y_server y))) \<and> \<not> v_lock (sv_clients (y_server y)) \<and> ht_inv (sv_table (y_server y)) \<and>
    (sv_is_running (y_server y) \<longrightarrow> (\<forall>p. y_threads y p \<noteq> Ended \<longleftrightarrow> p \<in> listed y \<union> pending_client y))"
proof -
  note inv = sys_invD [OF reachable_inv [OF assms]]
  show ?thesis using inv(1-4,7) by (simp add: list_ok_def)
qed

theorem clients_match_blocks_witness:
  "\<exists>y. reachable zero_memory y \<and> dom (sv_heap (y_server y)) = {100} \<and> y_threads y 100 \<noteq> Ended"
proof -
  obtain y where y: "reachable zero_memory y" "listed y = {100}" "y_main y = Accepting" "sv_is_running (y_server y)"
    using sample_run by blast
  with clients_match_blocks [OF y(1)] show ?thesis by (intro exI [of _ y]) (simp add: pending_client_def)
qed


lemma empty_line_step:
  assumes "recv CONNECTION_RECV_LENGTH (sk_in (w_sock w)) = (Some c, es)" and "LF \<in> set c" and "set c \<subseteq> {CR, LF}"
    and "env_realloc_ok env"
  shows "connection_step env True (Reading new_line_buffer) w = Some (Inl OutOfBounds)"
proof -
  have "c \<noteq> []" using assms(2) by auto
  from connection_step_chunk [OF assms(1) this assms(4) new_line_buffer_inv] assms(2)
  obtain l k where l: "lb_inv env ([] @ c) l" "connection_step env True (Reading new_line_buffer) w =
      continue_outer (finish_line env l k (after_read es w))" by auto
  obtain t where t: "lb_command l = c @ t" "lb_command_free_len l = int (length t)" "lb_command_len l = length c + length t"
    using l(1) unfolding lb_inv_def by auto
  have "nat (int (lb_command_len l) - lb_command_free_len l) = length c" using t(2,3) by simp
  moreover have "strip_line_end (c @ t) (length c) = Inl OutOfBounds"
    by (rule strip_all_breaks) (use assms(3) in simp_all)
  ultimately show ?thesis unfolding l(2) finish_line_def t(1) by (simp add: continue_outer_def)
qed


text \<open>
  C18. When the server shuts down in such a run, it ends without a fault, with no client block
  left on the heap and none listed.
\<close>

theorem shutdown_leaves_nothing:
  assumes "reachable env y" and "y_main y = Accepting" and "\<not> sv_is_running (y_server y)"
  shows "\<exists>y'. sys_step env y Close (Inr y') \<and> reachable env y' \<and> y_main y' = Exited \<and>
    sv_heap (y_server y') = (\<lambda>_. None) \<and> listed y' = {}"
proof -
  note inv = reachable_inv [OF assms(1)]
  have "server_close 3 (y_server y) \<noteq> None"
    using sys_invD(1) [OF inv] by (simp add: list_ok_def server_close_def vector_lock_def)
  then obtain r where r: "server_close 3 (y_server y) = Some r" by blast
  note close = sys_step.close [OF assms(2,3) r, of env]
  obtain y' where y': "map_res (\<lambda>(s, _). y\<lparr>y_server := s, y_main := Exited\<rparr>) r = Inr y'"
    "sv_heap (y_server y') = (\<lambda>_. None)" "listed y' = {}"
    using close_keeps [OF inv close] by blast
  have "y_main y' = Exited" using y'(1) by (cases r) auto
  with close y' reachable.step [OF assms(1) _ close [unfolded y'(1)]] show ?thesis by auto
qed

theorem shutdown_leaves_nothing_witness:
  "\<exists>y y'. reachable zero_memory y \<and> listed y = {100} \<and> sys_step zero_memory y Close (Inr y') \<and> listed y' = {}"
proof -
  obtain y where y: "reachable zero_memory y" "listed y = {100}" "y_main y = Accepting"
    using sample_run [of zero_memory "[]"] by blast
  let ?y = "y\<lparr>y_server := handle_sigint (y_server y)\<rparr>"
  have "reachable zero_memory ?y" using y(1) by (rule reachable.step [OF _ _ sys_step.sigint]) simp
  moreover have "listed ?y = {100}" "y_main ?y = Accepting" "\<not> sv_is_running (y_server ?y)"
    using y(2,3) by (simp_all add: listed_def handle_sigint_def)
  ultimately show ?thesis using shutdown_leaves_nothing [of zero_memory ?y] by blast
qed

end
