(* ===== verification/Many_Clients.thy ===== *)
theory Many_Clients
  imports Service Interleaving
begin

text \<open>
  The server with any number of clients. Each client sends a request when its previous one has
  been answered; the connection threads, which share the table, are interleaved round by round.
  Nothing of the program is defined here; the definitions are the clients and the record of
  what has been sent and answered, and the lemmas show that the server answers as one abstract
  cache that carries out the requests one after the other, in the order of their answers.
\<close>

section \<open>Rounds that only read\<close>

lemma continue_outer_pc: "continue_outer r = Some (Inr (pc, w)) \<Longrightarrow> pc = Outer"
  by (auto simp: continue_outer_def map_res_Inr_iff)

text \<open>A round that stays in the inner loop depends on nothing but its own socket, and changes nothing else.\<close>

lemma after_read_same [simp]: "after_read (sk_in (w_sock w)) w = w"
  by (simp add: after_read_def)

lemma reading_round:
  assumes "connection_step env True pc w = Some (Inr (Reading l, w'))"
  shows "\<exists>es. w' = after_read es w \<and>
    (\<forall>v. sk_in (w_sock v) = sk_in (w_sock w) \<and> cc_is_thread_running (w_client v) = cc_is_thread_running (w_client w) \<longrightarrow>
      connection_step env True pc v = Some (Inr (Reading l, after_read es v)))"
proof (cases pc)
  case Outer
  with assms have "w' = w" "cc_is_thread_running (w_client w)" "l = new_line_buffer"
    by (auto simp: connection_step_def split: if_splits)
  with Outer show ?thesis
    by (intro exI [of _ "sk_in (w_sock w)"]) (auto simp: connection_step_def after_read_def)
next
  case (Reading k)
  obtain r es where r: "recv CONNECTION_RECV_LENGTH (sk_in (w_sock w)) = (r, es)" by fastforce
  then obtain chunk where chunk: "r = Some chunk" "chunk \<noteq> []"
    and step: "receive_chunk env chunk k (after_read es w) = Some (Inr (Reading l, w'))"
    using assms Reading by (auto simp: connection_step_def after_read_def Let_def split: option.splits if_splits)
  obtain k1 k2 where k: "make_room env (length chunk) k = Some k1" "append_chunk chunk k1 = Inr k2"
    "sstrstr chunk [LF] (length chunk) = None" "k2 = l" "w' = after_read es w"
    using step by (auto simp: receive_chunk_def Let_def split: option.splits sum.splits dest: continue_outer_pc)
  then have "receive_chunk env chunk k v = Some (Inr (Reading l, v))" for v
    by (simp add: receive_chunk_def Let_def)
  with r chunk k(5) Reading show ?thesis
    by (intro exI [of _ es]) (simp add: connection_step_def after_read_def Let_def)
qed (use assms in \<open>simp add: connection_step_def\<close>)

lemma line_rounds_cases:
  assumes "line_rounds env n (pc, w) (Some (Inr (Outer, w')))"
  obtains (answered) "connection_step env True pc w = Some (Inr (Outer, w'))"
  | (reads) l es m where "connection_step env True pc w = Some (Inr (Reading l, after_read es w))"
      "line_rounds env m (Reading l, after_read es w) (Some (Inr (Outer, w')))"
  using assms
proof (cases rule: line_rounds.cases)
  case (handled r)
  then show ?thesis using answered by simp
next
  case (more l w1 m)
  then show ?thesis using reads reading_round [OF more(2)] by blast
qed

section \<open>A request under way\<close>

text \<open>
  A thread at \<open>pc\<close> with the input \<open>es\<close> has received part of the request \<open>rq\<close>: whatever is in the
  table when it continues, it will carry out the request on that.
\<close>

definition outcome_ok :: "world \<Rightarrow> cache \<Rightarrow> string \<Rightarrow> world \<Rightarrow> bool" where
  "outcome_ok w c' reply w' \<longleftrightarrow> serving w' c' \<and> bucket (w_table w') = bucket (w_table w) \<and>
     sk_out (w_sock w') = sk_out (w_sock w) @ reply \<and> reliable (sk_in (w_sock w')) \<and> incoming (sk_in (w_sock w')) = []"

definition will_serve :: "environment \<Rightarrow> request \<Rightarrow> thread_pc \<Rightarrow> event list \<Rightarrow> bool" where
  "will_serve env rq pc es \<longleftrightarrow>
     (\<forall>w c c' reply. sk_in (w_sock w) = es \<longrightarrow> serving w c \<longrightarrow> cache_step (bucket (w_table w)) rq c = Some (c', reply) \<longrightarrow>
        (\<exists>n w'. line_rounds env n (pc, w) (Some (Inr (Outer, w'))) \<and> outcome_ok w c' reply w'))"

lemma outcome_ok_after_read [simp]: "outcome_ok (after_read es w) c' reply w' \<longleftrightarrow> outcome_ok w c' reply w'"
  by (simp add: outcome_ok_def)

lemma will_serve_start:
  assumes "good_memory env" and "request_ok rq" and "reliable es" and "incoming es = request_text rq"
  shows "will_serve env rq Outer es" and "will_serve env rq (Reading new_line_buffer) es"
proof -
  { fix w c c' reply
    assume w: "sk_in (w_sock w) = es" "serving w c" "cache_step (bucket (w_table w)) rq c = Some (c', reply)"
    from serve_request [OF w(2) assms(1,3,4,2) w(3)] obtain n w' where
      "line_rounds env n (Outer, w) (Some (Inr (Outer, w')))" "outcome_ok w c' reply w'"
      using w(1) by (auto simp: request_served_def outcome_ok_def)
    note run = this
    from run(1) have "\<exists>m. line_rounds env m (Reading new_line_buffer, w) (Some (Inr (Outer, w')))"
    proof (cases rule: line_rounds.cases)
      case (handled r)
      with w(2) continue_outer_pc [of r "Reading new_line_buffer" w] show ?thesis
        by (simp add: connection_step_def serving_def)
    next
      case (more l w1 m)
      then have "l = new_line_buffer" "w1 = w" using w(2) by (auto simp: connection_step_def serving_def)
      with more show ?thesis by blast
    qed
    with run have "\<exists>n w'. line_rounds env n (Outer, w) (Some (Inr (Outer, w'))) \<and> outcome_ok w c' reply w'"
      "\<exists>n w'. line_rounds env n (Reading new_line_buffer, w) (Some (Inr (Outer, w'))) \<and> outcome_ok w c' reply w'"
      by blast+ }
  then show "will_serve env rq Outer es" "will_serve env rq (Reading new_line_buffer) es"
    unfolding will_serve_def by blast+
qed

text \<open>The request stays under way while the thread reads.\<close>

lemma will_serve_reads:
  assumes "will_serve env rq pc (sk_in (w_sock w))" and "connection_step env True pc w = Some (Inr (Reading l, w'))"
    and "cc_is_thread_running (w_client w)"
  shows "will_serve env rq (Reading l) (sk_in (w_sock w'))"
  unfolding will_serve_def
proof (intro allI impI)
  fix v c c' reply
  assume v: "sk_in (w_sock v) = sk_in (w_sock w')" "serving v c" "cache_step (bucket (w_table v)) rq c = Some (c', reply)"
  obtain es where es: "w' = after_read es w"
    "\<And>u. sk_in (w_sock u) = sk_in (w_sock w) \<Longrightarrow> cc_is_thread_running (w_client u) \<Longrightarrow>
      connection_step env True pc u = Some (Inr (Reading l, after_read es u))"
    using reading_round [OF assms(2)] assms(3) by auto
  let ?u = "v\<lparr>w_sock := (w_sock v)\<lparr>sk_in := sk_in (w_sock w)\<rparr>\<rparr>"
  have u: "sk_in (w_sock ?u) = sk_in (w_sock w)" "serving ?u c" "cache_step (bucket (w_table ?u)) rq c = Some (c', reply)"
    using v by (simp_all add: serving_def)
  have eq: "after_read es ?u = v" using v(1) es(1) by (simp add: after_read_def)
  have step: "connection_step env True pc ?u = Some (Inr (Reading l, v))"
    using es(2) [of ?u] u(2) unfolding eq by (simp add: serving_def)
  obtain n u' where run: "line_rounds env n (pc, ?u) (Some (Inr (Outer, u')))" "outcome_ok ?u c' reply u'"
    using assms(1) u unfolding will_serve_def by blast
  then have "outcome_ok v c' reply u'" using v(1) es(1) by (simp add: outcome_ok_def)
  moreover from run(1) have "\<exists>m. line_rounds env m (Reading l, v) (Some (Inr (Outer, u')))"
  proof (cases rule: line_rounds_cases)
    case answered
    with step show ?thesis by simp
  next
    case (reads k fs m)
    with step show ?thesis by auto
  qed
  ultimately show "\<exists>n w'. line_rounds env n (Reading l, v) (Some (Inr (Outer, w'))) \<and> outcome_ok v c' reply w'" by blast
qed

text \<open>The next round of a request under way: it reads on, or it is the answer.\<close>

lemma will_serve_round:
  assumes "will_serve env rq pc (sk_in (w_sock w))" and "serving w c" and "cache_step (bucket (w_table w)) rq c = Some (c', reply)"
  obtains (reads) l es where "connection_step env True pc w = Some (Inr (Reading l, after_read es w))"
  | (answers) w' where "connection_step env True pc w = Some (Inr (Outer, w'))" "outcome_ok w c' reply w'"
proof -
  obtain n w' where "line_rounds env n (pc, w) (Some (Inr (Outer, w')))" "outcome_ok w c' reply w'"
    using assms unfolding will_serve_def by blast
  then show thesis using reads answers by (cases rule: line_rounds_cases) blast+
qed

section \<open>The clients\<close>

text \<open>
  What happens, in order: a client sends a request, its thread makes a round, the round ends the
  request. \<open>rounds\<close> counts the rounds of a thread since its client has sent a request.
\<close>

datatype log_entry = Sent nat request | Round nat | Answered nat request

fun answered :: "log_entry list \<Rightarrow> (nat \<times> request) list" where
  "answered [] = []"
| "answered (Answered p rq # tr) = (p, rq) # answered tr"
| "answered (_ # tr) = answered tr"

fun sent_by :: "nat \<Rightarrow> log_entry \<Rightarrow> bool" where
  "sent_by p (Sent q _) = (q = p)"
| "sent_by _ _ = False"

definition rounds :: "nat \<Rightarrow> log_entry list \<Rightarrow> nat" where
  "rounds p tr = count_list (takeWhile (\<lambda>e. \<not> sent_by p e) (rev tr)) (Round p)"

lemma answered_append [simp]: "answered (xs @ ys) = answered xs @ answered ys"
  by (induction xs rule: answered.induct) simp_all

lemma rounds_simps [simp]:
  "rounds p [] = 0"
  "rounds p (tr @ [Round q]) = (if q = p then Suc (rounds p tr) else rounds p tr)"
  "rounds p (tr @ [Sent q rq]) = (if q = p then 0 else rounds p tr)"
  "rounds p (tr @ [Round q, Answered r rq]) = rounds p (tr @ [Round q])"
  by (simp_all add: rounds_def)

text \<open>
  A new connection has an empty socket. A client sends when nothing of it is unanswered, also
  before its thread has started; the bytes arrive in any segments. A thread makes a round when
  it need not wait. \<open>pend\<close> holds the request a client waits for.
\<close>

fun receives :: "event list \<Rightarrow> thread \<Rightarrow> thread" where
  "receives es (Created sk) = Created (sk\<lparr>sk_in := sk_in sk @ es\<rparr>)"
| "receives es (Looping pc sk) = Looping pc (sk\<lparr>sk_in := sk_in sk @ es\<rparr>)"
| "receives es Ended = Ended"

definition at_outer :: "system \<Rightarrow> nat \<Rightarrow> bool" where
  "at_outer y p \<longleftrightarrow> (\<exists>sk. y_threads y p = Looping Outer sk)"

definition may_go :: "thread_pc \<Rightarrow> sock \<Rightarrow> bool" where
  "may_go pc sk \<longleftrightarrow> pc = Outer \<or> incoming (sk_in sk) \<noteq> []"

inductive clients_run ::
    "environment \<Rightarrow> system \<Rightarrow> (nat \<Rightarrow> request option) \<Rightarrow> log_entry list \<Rightarrow> bool" for env where
  boot: "server_start True = Some s \<Longrightarrow> clients_run env (system_start s) (\<lambda>_. None) []"
| connect: "clients_run env y pend tr \<Longrightarrow> sys_step env y (Accept p) (Inr y') \<Longrightarrow>
    (\<And>sk. y_threads y' p = Created sk \<Longrightarrow> sk = \<lparr>sk_in = [], sk_out = []\<rparr>) \<Longrightarrow> clients_run env y' pend tr"
| register: "clients_run env y pend tr \<Longrightarrow> sys_step env y (Register p ok) (Inr y') \<Longrightarrow> clients_run env y' pend tr"
| start: "clients_run env y pend tr \<Longrightarrow> sys_step env y (Start p) (Inr y') \<Longrightarrow> clients_run env y' pend tr"
| send: "clients_run env y pend tr \<Longrightarrow> y_threads y p \<noteq> Ended \<Longrightarrow> pend p = None \<Longrightarrow>
    request_ok rq \<Longrightarrow> reliable es \<Longrightarrow> incoming es = request_text rq \<Longrightarrow>
    clients_run env (y\<lparr>y_threads := (y_threads y)(p := receives es (y_threads y p))\<rparr>) (pend(p \<mapsto> rq)) (tr @ [Sent p rq])"
| reads: "clients_run env y pend tr \<Longrightarrow> y_threads y p = Looping pc sk \<Longrightarrow> may_go pc sk \<Longrightarrow>
    sys_step env y (Serve p) (Inr y') \<Longrightarrow> pc = Outer \<or> \<not> at_outer y' p \<Longrightarrow> clients_run env y' pend (tr @ [Round p])"
| answers: "clients_run env y pend tr \<Longrightarrow> y_threads y p = Looping pc sk \<Longrightarrow> may_go pc sk \<Longrightarrow>
    sys_step env y (Serve p) (Inr y') \<Longrightarrow> pc \<noteq> Outer \<Longrightarrow> at_outer y' p \<Longrightarrow> pend p = Some rq \<Longrightarrow>
    clients_run env y' (pend(p := None)) (tr @ [Round p, Answered p rq])"

section \<open>One cache for all clients\<close>

fun shared_run :: "(string \<Rightarrow> nat) \<Rightarrow> (nat \<times> request) list \<Rightarrow> cache \<Rightarrow> (cache \<times> (nat \<times> string) list) option" where
  "shared_run h [] c = Some (c, [])"
| "shared_run h ((p, rq) # rqs) c =
     (case cache_step h rq c of
        None \<Rightarrow> None
      | Some (c, reply) \<Rightarrow> map_option (\<lambda>(c, rs). (c, (p, reply) # rs)) (shared_run h rqs c))"

definition replies_to :: "nat \<Rightarrow> (nat \<times> string) list \<Rightarrow> string" where
  "replies_to p rs = concat (map snd (filter (\<lambda>r. fst r = p) rs))"

lemma replies_to_simps [simp]:
  "replies_to p [] = []" "replies_to p (rs @ [(q, x)]) = replies_to p rs @ (if q = p then x else [])"
  by (simp_all add: replies_to_def)

lemma shared_run_snoc:
  "shared_run h (rqs @ [(p, rq)]) c = Some (c', rs') \<longleftrightarrow>
     (\<exists>c1 rs reply. shared_run h rqs c = Some (c1, rs) \<and> cache_step h rq c1 = Some (c', reply) \<and> rs' = rs @ [(p, reply)])"
proof (induction rqs arbitrary: c rs')
  case Nil
  then show ?case by (auto split: option.splits)
next
  case (Cons x rqs)
  obtain q r where "x = (q, r)" by fastforce
  with Cons show ?case by (cases "cache_step h r c") auto
qed

section \<open>The invariant\<close>

text \<open>
  Of a thread: nothing has arrived when its client waits for nothing; else the request is under
  way, and the rounds made and the bytes to come do not exceed its length.
\<close>

definition to_go :: "thread_pc \<Rightarrow> event list \<Rightarrow> nat" where
  "to_go pc es = length (incoming es) + (if pc = Outer then 1 else 0)"

definition thread_ok :: "environment \<Rightarrow> request option \<Rightarrow> nat \<Rightarrow> thread_pc \<Rightarrow> event list \<Rightarrow> bool" where
  "thread_ok env rq n pc es \<longleftrightarrow> reliable es \<and>
     (case rq of
        None \<Rightarrow> incoming es = [] \<and> (pc = Outer \<or> pc = Reading new_line_buffer)
      | Some rq \<Rightarrow> request_ok rq \<and> will_serve env rq pc es \<and>
          n + to_go pc es \<le> length (request_text rq) + 1)"

fun local_ok :: "environment \<Rightarrow> bool \<Rightarrow> request option \<Rightarrow> nat \<Rightarrow> string \<Rightarrow> thread \<Rightarrow> bool" where
  "local_ok env b rq n out Ended \<longleftrightarrow> rq = None \<and> out = []"
| "local_ok env b rq n out (Created sk) \<longleftrightarrow> b \<and> sk_out sk = [] \<and> out = [] \<and> thread_ok env rq n Outer (sk_in sk)"
| "local_ok env b rq n out (Looping pc sk) \<longleftrightarrow> b \<and> sk_out sk = CLIENT_WELCOME_MESSAGE @ out \<and> thread_ok env rq n pc (sk_in sk)"

definition running_block :: "system \<Rightarrow> nat \<Rightarrow> bool" where
  "running_block y p \<longleftrightarrow> (\<exists>b. sv_heap (y_server y) p = Some b \<and> cc_is_thread_running b)"

definition table_holds :: "(string \<Rightarrow> nat) \<Rightarrow> cache \<Rightarrow> hash_table \<Rightarrow> bool" where
  "table_holds h c t \<longleftrightarrow> ht_inv t \<and> contents t = c \<and> bucket t = h \<and>
     (\<forall>b s. c b = Some (VString s) \<longrightarrow> length s < 2 ^ 31 - 25)"

definition clients_inv ::
    "environment \<Rightarrow> (string \<Rightarrow> nat) \<Rightarrow> system \<Rightarrow> (nat \<Rightarrow> request option) \<Rightarrow> log_entry list \<Rightarrow> cache \<Rightarrow> (nat \<times> string) list \<Rightarrow> bool" where
  "clients_inv env h y pend tr c rs \<longleftrightarrow> sv_is_running (y_server y) \<and> table_holds h c (sv_table (y_server y)) \<and>
     (\<forall>p. local_ok env (running_block y p) (pend p) (rounds p tr) (replies_to p rs) (y_threads y p))"

lemma serving_world:
  "serving (world_of s b sk) c \<longleftrightarrow> table_holds (bucket (sv_table s)) c (sv_table s) \<and> cc_is_thread_running b"
  by (auto simp: serving_def table_holds_def world_of_def)

lemma clients_invI:
  assumes "sv_is_running (y_server y)" "table_holds h c (sv_table (y_server y))"
    "\<And>p. local_ok env (running_block y p) (pend p) (rounds p tr) (replies_to p rs) (y_threads y p)"
  shows "clients_inv env h y pend tr c rs"
  using assms by (simp add: clients_inv_def)

lemma clients_invD:
  assumes "clients_inv env h y pend tr c rs"
  shows "sv_is_running (y_server y)" "table_holds h c (sv_table (y_server y))"
    "local_ok env (running_block y p) (pend p) (rounds p tr) (replies_to p rs) (y_threads y p)"
  using assms by (simp_all add: clients_inv_def)

text \<open>A step that changes the thread \<open>p\<close> alone.\<close>

lemma clients_inv_update:
  assumes "clients_inv env h y pend tr c rs"
    and "sv_is_running (y_server y')" "table_holds h c' (sv_table (y_server y'))"
    and "\<And>q. q \<noteq> p \<Longrightarrow> y_threads y' q = y_threads y q \<and> (running_block y q \<longrightarrow> running_block y' q) \<and> pend' q = pend q \<and>
      rounds q tr' = rounds q tr \<and> replies_to q rs' = replies_to q rs"
    and "local_ok env (running_block y' p) (pend' p) (rounds p tr') (replies_to p rs') (y_threads y' p)"
  shows "clients_inv env h y' pend' tr' c' rs'"
proof (rule clients_invI [OF assms(2,3)])
  fix q
  show "local_ok env (running_block y' q) (pend' q) (rounds q tr') (replies_to q rs') (y_threads y' q)"
  proof (cases "q = p")
    case False
    with assms(4) [OF False] clients_invD(3) [OF assms(1), of q] show ?thesis
      by (cases "y_threads y q") auto
  qed (use assms(5) in simp)
qed

section \<open>The steps\<close>

lemma boot_inv:
  assumes "server_start True = Some s"
  shows "clients_inv env (bucket (hash_table_create MEMUNCACHED_TABLE_INITIAL_SIZE)) (system_start s) (\<lambda>_. None) [] Map.empty []"
proof -
  have "sv_is_running s" "sv_table s = hash_table_create MEMUNCACHED_TABLE_INITIAL_SIZE"
    using assms by (auto simp: server_start_def)
  moreover have "contents (hash_table_create n) = Map.empty" for n
    by (simp add: contents_def entries_def hash_table_create_def fun_eq_iff)
  moreover have "ht_inv (hash_table_create MEMUNCACHED_TABLE_INITIAL_SIZE)"
    unfolding MEMUNCACHED_TABLE_INITIAL_SIZE_def by (rule empty_table_inv)
  ultimately show ?thesis by (simp add: clients_inv_def table_holds_def system_start_def)
qed

lemma connect_inv:
  assumes "clients_inv env h y pend tr c rs" and "sys_step env y (Accept p) (Inr y')"
    and "\<And>sk. y_threads y' p = Created sk \<Longrightarrow> sk = \<lparr>sk_in = [], sk_out = []\<rparr>"
  shows "clients_inv env h y' pend tr c rs"
  using assms(2)
proof (cases rule: sys_step_Accept [consumes 1])
  case (1 junk accepted thread_ok s r sk)
  note inv = clients_invD [OF assms(1)]
  have same: "sv_is_running s = sv_is_running (y_server y)" "sv_table s = sv_table (y_server y)"
    "\<And>q. q \<noteq> p \<Longrightarrow> sv_heap s q = sv_heap (y_server y) q"
    using 1(6) by (auto simp: accept_client_def close_fd_def split: option.splits if_splits)
  have p: "pend p = None" "replies_to p rs = []" using inv(3) [of p] 1(5) by simp_all
  have blocks: "running_block y q \<longrightarrow> running_block y' q" if "q \<noteq> p" for q
    using same(3) [OF that] 1(1) by (simp add: running_block_def split: option.split)
  show ?thesis
  proof (rule clients_inv_update [OF assms(1), of _ _ p])
    show "sv_is_running (y_server y')" "table_holds h c (sv_table (y_server y'))"
      using inv(1,2) same(1,2) 1(1) by (simp_all split: option.split)
  next
    fix q assume "q \<noteq> p"
    moreover have "r = None \<or> r = Some p" using accept_client_cases [OF 1(6)] by auto
    ultimately show "y_threads y' q = y_threads y q \<and> (running_block y q \<longrightarrow> running_block y' q) \<and> pend q = pend q \<and>
        rounds q tr = rounds q tr \<and> replies_to q rs = replies_to q rs"
      using blocks 1(1) by (auto split: option.split)
  next
    show "local_ok env (running_block y' p) (pend p) (rounds p tr) (replies_to p rs) (y_threads y' p)"
    proof (cases r)
      case None
      then show ?thesis using 1(1,5) p by simp
    next
      case (Some q)
      then have q: "q = p" "running_block y' p"
        using 1(1,6) by (auto simp: accept_client_def running_block_def split: option.splits if_splits)
      then have "y_threads y' p = Created sk" using Some 1(1) by simp
      with assms(3) [OF this] q(2) p show ?thesis by (simp add: thread_ok_def reliable_def)
    qed
  qed
qed

lemma register_inv:
  assumes "clients_inv env h y pend tr c rs" and "sys_step env y (Register p ok) (Inr y')"
  shows "clients_inv env h y' pend tr c rs"
  using assms(2)
proof (cases rule: sys_step_Register [consumes 1])
  case (1 r)
  then obtain v where "y' = y\<lparr>y_server := (y_server y)\<lparr>sv_clients := v\<rparr>, y_main := Accepting\<rparr>"
    by (cases r) (auto simp: register_client_def map_res_Inr_iff)
  then show ?thesis using assms(1) by (simp add: clients_inv_def running_block_def)
qed

lemma start_inv:
  assumes "clients_inv env h y pend tr c rs" and "sys_step env y (Start p) (Inr y')"
  shows "clients_inv env h y' pend tr c rs"
  using assms(2)
proof (cases rule: sys_step_Start [consumes 1])
  case (1 sk self)
  note inv = clients_invD [OF assms(1)]
  let ?s = "y_server y"
  have p: "running_block y p" "sk_out sk = []" "replies_to p rs = []" "thread_ok env (pend p) (rounds p tr) Outer (sk_in sk)"
    using inv(3) [of p] 1(2) by simp_all
  then obtain b where b: "sv_heap ?s p = Some b" "cc_is_thread_running b" by (auto simp: running_block_def)
  let ?s' = "?s\<lparr>sv_heap := (sv_heap ?s)(p \<mapsto> b\<lparr>cc_thread_id := self\<rparr>)\<rparr>" and ?sk = "send CLIENT_WELCOME_MESSAGE sk"
  have y': "y' = y\<lparr>y_server := ?s', y_threads := (y_threads y)(p := Looping Outer ?sk)\<rparr>"
    using 1(1) b(1) by (simp add: start_thread_def load_client_def connection_start_def world_of_def server_of_def write_client_def)
  have block: "running_block y' q \<longleftrightarrow> running_block y q" for q using b by (simp add: y' running_block_def)
  show ?thesis
  proof (rule clients_inv_update [OF assms(1), of _ _ p])
    have "thread_ok env (pend p) (rounds p tr) Outer (sk_in ?sk)"
      using p(4) by (simp add: send_def)
    then show "local_ok env (running_block y' p) (pend p) (rounds p tr) (replies_to p rs) (y_threads y' p)"
      using p(1-3) by (simp add: block) (simp add: y' send_def)
  qed (use inv(1,2) block in \<open>simp_all add: y'\<close>)
qed

lemmas appended_input [simp] = incoming_append reliable_append

lemma send_inv:
  assumes "clients_inv env h y pend tr c rs" and "y_threads y p \<noteq> Ended" and "pend p = None" and "good_memory env"
    and "request_ok rq" and "reliable es" and "incoming es = request_text rq"
  shows "clients_inv env h (y\<lparr>y_threads := (y_threads y)(p := receives es (y_threads y p))\<rparr>) (pend(p \<mapsto> rq)) (tr @ [Sent p rq]) c rs"
    (is "clients_inv env h ?y _ _ c rs")
proof (rule clients_inv_update [OF assms(1), of _ _ p])
  have block: "running_block ?y q \<longleftrightarrow> running_block y q" for q by (simp add: running_block_def)
  have new: "thread_ok env (Some rq) 0 pc (old @ es)" if "thread_ok env None n pc old" for n pc old
    using that will_serve_start [OF assms(4,5), of "old @ es"] assms(5-7)
    by (auto simp: thread_ok_def to_go_def)
  note old = clients_invD(3) [OF assms(1), of p]
  show "local_ok env (running_block ?y p) ((pend(p \<mapsto> rq)) p) (rounds p (tr @ [Sent p rq])) (replies_to p rs) (y_threads ?y p)"
    using old assms(2,3) new unfolding block by (cases "y_threads y p") auto
  fix q assume "q \<noteq> p"
  then show "y_threads ?y q = y_threads y q \<and> (running_block y q \<longrightarrow> running_block ?y q) \<and> (pend(p \<mapsto> rq)) q = pend q \<and>
      rounds q (tr @ [Sent p rq]) = rounds q tr \<and> replies_to q rs = replies_to q rs"
    by (simp add: block)
qed (use clients_invD(1,2) [OF assms(1)] in simp_all)

text \<open>A round of a thread whose block is there.\<close>

lemma serve_round:
  assumes "sv_is_running (y_server y)" and "sv_heap (y_server y) p = Some b"
    and "y_threads y p = Looping pc sk" and "pc \<noteq> Finished"
    and "connection_step env True pc (world_of (y_server y) b sk) = Some (Inr (pc', w'))"
  shows "sys_step env y (Serve p) r \<longleftrightarrow> r = Inr (y\<lparr>y_server := server_of w' p (y_server y),
      y_threads := (y_threads y)(p := Looping pc' (w_sock w'))\<rparr>)"
proof -
  have "serve env p pc sk (y_server y) = Some (Inr (pc', w_sock w', server_of w' p (y_server y)))"
    using assms by (simp add: serve_def load_client_def)
  note run = this
  show ?thesis
  proof
    assume "sys_step env y (Serve p) r"
    then show "r = Inr (y\<lparr>y_server := server_of w' p (y_server y), y_threads := (y_threads y)(p := Looping pc' (w_sock w'))\<rparr>)"
      using run assms(3) by (auto elim!: sys_step_Serve)
  qed (use sys_step.serve [OF assms(3,4) run] in simp)
qed

lemma serve_round_Inr:
  assumes "sys_step env y (Serve p) (Inr y')" and "sv_is_running (y_server y)" and "sv_heap (y_server y) p = Some b"
    and "y_threads y p = Looping pc sk"
  obtains pc' w' where "connection_step env True pc (world_of (y_server y) b sk) = Some (Inr (pc', w'))"
    "y' = y\<lparr>y_server := server_of w' p (y_server y), y_threads := (y_threads y)(p := Looping pc' (w_sock w'))\<rparr>"
  using assms(1)
proof (cases rule: sys_step_Serve [consumes 1])
  case (1 pc1 sk1 r)
  with assms(2-4) that show ?thesis
    by (auto simp: serve_def load_client_def eq_commute [of "Inr y'"] map_res_Inr_iff)
qed

lemma reading_consumes:
  assumes "connection_step env True (Reading k) w = Some (Inr (Reading l, w'))"
  shows "length (incoming (sk_in (w_sock w'))) < length (incoming (sk_in (w_sock w)))"
    and "reliable (sk_in (w_sock w)) \<Longrightarrow> reliable (sk_in (w_sock w'))"
proof -
  obtain chunk es' where c: "recv CONNECTION_RECV_LENGTH (sk_in (w_sock w)) = (Some chunk, es')" "chunk \<noteq> []"
    "receive_chunk env chunk k (after_read es' w) = Some (Inr (Reading l, w'))"
    using assms by (auto simp: connection_step_def after_read_def Let_def split: prod.splits option.splits if_splits)
  then have w': "w' = after_read es' w"
    by (auto simp: receive_chunk_def Let_def split: option.splits sum.splits dest: continue_outer_pc)
  with recv_incoming [OF c(1)] c(2) show "length (incoming (sk_in (w_sock w'))) < length (incoming (sk_in (w_sock w)))"
    by simp
  assume "reliable (sk_in (w_sock w))"
  then show "reliable (sk_in (w_sock w'))" using recv_reliable [of "sk_in (w_sock w)" CONNECTION_RECV_LENGTH] c(1) w' by auto
qed

lemma server_of_same:
  "sv_heap s p = Some b \<Longrightarrow> server_of (after_read es (world_of s b sk)) p s = s"
  using fun_upd_idem [of "sv_heap s" p "Some b"] by (simp add: server_of_def world_of_def after_read_def)

lemma reading_next:
  assumes "connection_step env True (Reading k) w = Some (Inr (pc', w'))"
  shows "pc' \<noteq> Finished"
  using assms
  by (auto simp: connection_step_def receive_chunk_def Let_def split: prod.splits option.splits if_splits sum.splits
      dest: continue_outer_pc)

lemma looping_block:
  assumes "clients_inv env h y pend tr c rs" and "y_threads y p = Looping pc sk"
  obtains b where "sv_heap (y_server y) p = Some b" "cc_is_thread_running b"
    "thread_ok env (pend p) (rounds p tr) pc (sk_in sk)" "sk_out sk = CLIENT_WELCOME_MESSAGE @ replies_to p rs"
    "serving (world_of (y_server y) b sk) c" "bucket (w_table (world_of (y_server y) b sk)) = h"
proof -
  note inv = clients_invD [OF assms(1)]
  from inv(3) [of p] assms(2) obtain b where b: "sv_heap (y_server y) p = Some b" "cc_is_thread_running b"
    "thread_ok env (pend p) (rounds p tr) pc (sk_in sk)" "sk_out sk = CLIENT_WELCOME_MESSAGE @ replies_to p rs"
    by (auto simp: running_block_def)
  moreover have "bucket (w_table (world_of (y_server y) b sk)) = h" using inv(2) by (simp add: table_holds_def world_of_def)
  moreover have "serving (world_of (y_server y) b sk) c"
    using inv(2) b(2) unfolding serving_world by (simp add: table_holds_def)
  ultimately show thesis using that by blast
qed

lemma world_of_simps [simp]:
  "w_sock (world_of s b sk) = sk" "w_client (world_of s b sk) = b" "w_table (world_of s b sk) = sv_table s"
  by (simp_all add: world_of_def)

lemma server_of_simps [simp]:
  "sv_is_running (server_of w p s) = sv_is_running s" "sv_table (server_of w p s) = w_table w"
  "sv_heap (server_of w p s) = (sv_heap s)(p \<mapsto> w_client w)"
  by (simp_all add: server_of_def)

lemma reads_inv:
  assumes "clients_inv env h y pend tr c rs" and "y_threads y p = Looping pc sk" and "may_go pc sk"
    and "sys_step env y (Serve p) (Inr y')" and "pc = Outer \<or> \<not> at_outer y' p"
  shows "clients_inv env h y' pend (tr @ [Round p]) c rs"
proof -
  note inv = clients_invD [OF assms(1)]
  obtain b where b: "sv_heap (y_server y) p = Some b" "cc_is_thread_running b"
    "thread_ok env (pend p) (rounds p tr) pc (sk_in sk)" "sk_out sk = CLIENT_WELCOME_MESSAGE @ replies_to p rs"
    using looping_block [OF assms(1,2)] by metis
  let ?w = "world_of (y_server y) b sk"
  obtain pc' w' where step: "connection_step env True pc ?w = Some (Inr (pc', w'))"
    "y' = y\<lparr>y_server := server_of w' p (y_server y), y_threads := (y_threads y)(p := Looping pc' (w_sock w'))\<rparr>"
    using serve_round_Inr [OF assms(4) inv(1) b(1) assms(2)] by metis
  have fin: "pc \<noteq> Finished" using assms(2,4) by (auto elim!: sys_step_Serve)
  have "\<exists>l. pc' = Reading l"
  proof (cases pc)
    case Outer
    with step(1) b(2) show ?thesis by (auto simp: connection_step_def)
  next
    case (Reading k)
    with assms(5) step(2) have "pc' \<noteq> Outer" by (auto simp: at_outer_def)
    with reading_next [of env k ?w pc' w'] step(1) Reading show ?thesis by (cases pc') simp_all
  qed (use fin in simp)
  then obtain l where l: "pc' = Reading l" by blast
  obtain es where es: "w' = after_read es ?w" using reading_round step(1) l by blast
  have new: "thread_ok env (pend p) (Suc (rounds p tr)) (Reading l) (sk_in (w_sock w'))"
  proof (cases pc)
    case Outer
    with step(1) b(2) l have "l = new_line_buffer" "w' = ?w" by (simp_all add: connection_step_def)
    moreover from this have "will_serve env rq (Reading new_line_buffer) (sk_in sk)" if "will_serve env rq pc (sk_in sk)" for rq
      using will_serve_reads [of env rq pc ?w new_line_buffer w'] that step(1) l b(2) by simp
    ultimately show ?thesis using b(3) Outer by (auto simp: thread_ok_def to_go_def split: option.splits)
  next
    case (Reading k)
    then have "incoming (sk_in sk) \<noteq> []" using assms(3) by (simp add: may_go_def)
    then obtain rq where rq: "pend p = Some rq" using b(3) by (auto simp: thread_ok_def split: option.splits)
    moreover have "will_serve env rq (Reading l) (sk_in (w_sock w'))"
      using will_serve_reads [of env rq pc ?w l w'] b(2,3) rq step(1) l by (simp add: thread_ok_def)
    ultimately show ?thesis using b(3) Reading reading_consumes [of env k ?w l w'] step(1) l by (simp add: thread_ok_def to_go_def)
  qed (use fin in simp)
  have server: "y_server y' = y_server y" using step(2) es b(1) by (simp add: server_of_same)
  then have block: "running_block y' q \<longleftrightarrow> running_block y q" for q by (simp add: running_block_def)
  show ?thesis
  proof (rule clients_inv_update [OF assms(1), of _ _ p])
    show "local_ok env (running_block y' p) (pend p) (rounds p (tr @ [Round p])) (replies_to p rs) (y_threads y' p)"
      using new b(1,2,4) es l step(2) unfolding block by (auto simp: running_block_def)
  qed (use inv(1,2) server block step(2) in simp_all)
qed

lemma answers_inv:
  assumes "clients_inv env h y pend tr c rs" and "y_threads y p = Looping pc sk"
    and "sys_step env y (Serve p) (Inr y')" and "pc \<noteq> Outer" and "at_outer y' p" and "pend p = Some rq"
    and "cache_step h rq c = Some (c', reply)"
  shows "clients_inv env h y' (pend(p := None)) (tr @ [Round p, Answered p rq]) c' (rs @ [(p, reply)])"
proof -
  note inv = clients_invD [OF assms(1)]
  obtain b where b: "sv_heap (y_server y) p = Some b" "cc_is_thread_running b"
    "thread_ok env (pend p) (rounds p tr) pc (sk_in sk)" "sk_out sk = CLIENT_WELCOME_MESSAGE @ replies_to p rs"
    "serving (world_of (y_server y) b sk) c" "bucket (w_table (world_of (y_server y) b sk)) = h"
    using looping_block [OF assms(1,2)] by metis
  let ?w = "world_of (y_server y) b sk"
  obtain pc' w' where step: "connection_step env True pc ?w = Some (Inr (pc', w'))"
    "y' = y\<lparr>y_server := server_of w' p (y_server y), y_threads := (y_threads y)(p := Looping pc' (w_sock w'))\<rparr>"
    using serve_round_Inr [OF assms(3) inv(1) b(1) assms(2)] by metis
  have outer: "pc' = Outer" using assms(5) step(2) by (simp add: at_outer_def)
  have "will_serve env rq pc (sk_in (w_sock ?w))" using b(3) assms(6) by (simp add: thread_ok_def)
  moreover have "cache_step (bucket (w_table ?w)) rq c = Some (c', reply)" using assms(7) b(6) by simp
  ultimately consider (reads) l es where "connection_step env True pc ?w = Some (Inr (Reading l, after_read es ?w))"
    | (answers) w'' where "connection_step env True pc ?w = Some (Inr (Outer, w''))" "outcome_ok ?w c' reply w''"
    using will_serve_round [OF _ b(5)] by metis
  then have out: "outcome_ok ?w c' reply w'" using step(1) outer by cases simp_all
  have serving: "serving w' c'" "bucket (w_table w') = h" "sk_out (w_sock w') = sk_out sk @ reply"
    "reliable (sk_in (w_sock w'))" "incoming (sk_in (w_sock w')) = []"
    using out b(6) by (simp_all add: outcome_ok_def)
  then have table: "table_holds h c' (w_table w')" "cc_is_thread_running (w_client w')"
    by (auto simp: serving_def table_holds_def)
  show ?thesis
  proof (rule clients_inv_update [OF assms(1), of _ _ p])
    show "local_ok env (running_block y' p) ((pend(p := None)) p) (rounds p (tr @ [Round p, Answered p rq]))
        (replies_to p (rs @ [(p, reply)])) (y_threads y' p)"
      using serving(3-5) table(2) b(4) outer step(2) by (simp add: running_block_def thread_ok_def)
  qed (use inv(1) table(1) step(2) in \<open>auto simp: running_block_def\<close>)
qed

section \<open>Every run\<close>

definition server_bucket :: "string \<Rightarrow> nat" where
  "server_bucket = bucket (hash_table_create MEMUNCACHED_TABLE_INITIAL_SIZE)"

lemma clients_run_inv:
  assumes "clients_run env y pend tr" and "good_memory env"
    and "shared_run server_bucket (answered tr) Map.empty = Some (c, rs)"
  shows "clients_inv env server_bucket y pend tr c rs"
  using assms(1,3)
proof (induction arbitrary: c rs rule: clients_run.induct)
  case (boot s)
  then show ?case using boot_inv [OF boot.hyps] by (simp add: server_bucket_def)
next
  case (connect y pend tr p y')
  then show ?case using connect_inv by blast
next
  case (register y pend tr p ok y')
  then show ?case using register_inv by blast
next
  case (start y pend tr p y')
  then show ?case using start_inv by blast
next
  case (send y pend tr p rq es)
  then show ?case by (intro send_inv) (use assms(2) in auto)
next
  case (reads y pend tr p pc sk y')
  then show ?case by (intro reads_inv) auto
next
  case (answers y pend tr p pc sk y' rq)
  have "answered (tr @ [Round p, Answered p rq]) = answered tr @ [(p, rq)]" by simp
  with answers.prems obtain c1 rs1 reply where run: "shared_run server_bucket (answered tr) Map.empty = Some (c1, rs1)"
    "cache_step server_bucket rq c1 = Some (c, reply)" "rs = rs1 @ [(p, reply)]"
    by (auto simp: shared_run_snoc)
  with answers_inv [OF answers.IH [OF run(1)] answers.hyps(2,4,5,6,7)] show ?case by blast
qed

text \<open>What a client has sent is answered, in this order, except for the request it waits for.\<close>

fun sent_requests :: "nat \<Rightarrow> log_entry list \<Rightarrow> request list" where
  "sent_requests p [] = []"
| "sent_requests p (Sent q rq # tr) = (if q = p then [rq] else []) @ sent_requests p tr"
| "sent_requests p (_ # tr) = sent_requests p tr"

definition requests_of :: "nat \<Rightarrow> (nat \<times> request) list \<Rightarrow> request list" where
  "requests_of p rqs = map snd (filter (\<lambda>r. fst r = p) rqs)"

lemma requests_simps [simp]:
  "sent_requests p (tr @ tr') = sent_requests p tr @ sent_requests p tr'"
  "requests_of p (rqs @ rqs') = requests_of p rqs @ requests_of p rqs'"
  "requests_of p [(q, rq)] = (if q = p then [rq] else [])" "requests_of p [] = []"
  by (induction tr rule: sent_requests.induct) (simp_all add: requests_of_def)

lemma sent_answered:
  "clients_run env y pend tr \<Longrightarrow>
    sent_requests p tr = requests_of p (answered tr) @ (case pend p of None \<Rightarrow> [] | Some rq \<Rightarrow> [rq])"
  by (induction rule: clients_run.induct) auto

section \<open>Getting an answer\<close>

lemma reply_not_empty: "cache_step h rq c = Some (c', reply) \<Longrightarrow> reply \<noteq> []"
  by (cases rq) (auto simp: found_reply_def response_text_def value_reply_def value_header_def response_codes
      split: option.splits if_splits)

lemma reading_goes:
  assumes "connection_step env True pc w = Some (Inr (Reading l, w'))"
  shows "to_go (Reading l) (sk_in (w_sock w')) < to_go pc (sk_in (w_sock w)) \<and> may_go pc (w_sock w) \<and> pc \<noteq> Finished"
proof (cases pc)
  case Outer
  with assms have "w' = w" by (auto simp: connection_step_def)
  with Outer show ?thesis by (simp add: to_go_def may_go_def)
next
  case (Reading k)
  with reading_consumes(1) [of env k w l w'] assms show ?thesis by (auto simp: to_go_def may_go_def)
qed (use assms in \<open>simp add: connection_step_def\<close>)

lemma answer_goes:
  assumes "connection_step env True pc w = Some (Inr (Outer, w'))" and "reliable (sk_in (w_sock w))"
    and "sk_out (w_sock w') \<noteq> sk_out (w_sock w)"
  shows "pc \<noteq> Outer \<and> may_go pc (w_sock w) \<and> pc \<noteq> Finished"
proof -
  have pc: "pc \<noteq> Finished" "pc \<noteq> Outer" using assms(1) by (auto simp: connection_step_def split: if_splits)
  then obtain k where "pc = Reading k" by (cases pc) auto
  moreover from this have "incoming (sk_in (w_sock w)) \<noteq> []"
    using assms recv_end [of "sk_in (w_sock w)" CONNECTION_RECV_LENGTH] by (auto simp: connection_step_def)
  ultimately show ?thesis by (simp add: may_go_def)
qed

text \<open>The next state of a thread with a pending request: back at the outer loop, or with less to go.\<close>

definition goes_on :: "system \<Rightarrow> nat \<Rightarrow> thread_pc \<Rightarrow> sock \<Rightarrow> system \<Rightarrow> bool" where
  "goes_on y p pc sk y' \<longleftrightarrow> (\<exists>pc' sk'. y_threads y' = (y_threads y)(p := Looping pc' sk') \<and>
     (pc' = Outer \<and> pc \<noteq> Outer \<or> (\<exists>l. pc' = Reading l) \<and> to_go pc' (sk_in sk') < to_go pc (sk_in sk)))"

lemma pending_round:
  assumes "clients_inv env h y pend tr c rs" and "y_threads y p = Looping pc sk" and "pend p = Some rq"
    and "cache_step h rq c = Some (c', reply)"
  shows "may_go pc sk" and "rounds p tr \<le> length (request_text rq)"
    and "\<exists>y'. (\<forall>r. sys_step env y (Serve p) r \<longleftrightarrow> r = Inr y') \<and> goes_on y p pc sk y'"
proof -
  note inv = clients_invD [OF assms(1)]
  obtain b where b: "sv_heap (y_server y) p = Some b" "cc_is_thread_running b"
    "thread_ok env (pend p) (rounds p tr) pc (sk_in sk)" "sk_out sk = CLIENT_WELCOME_MESSAGE @ replies_to p rs"
    "serving (world_of (y_server y) b sk) c" "bucket (w_table (world_of (y_server y) b sk)) = h"
    using looping_block [OF assms(1,2)] by metis
  let ?w = "world_of (y_server y) b sk"
  have ws: "will_serve env rq pc (sk_in (w_sock ?w))" "cache_step (bucket (w_table ?w)) rq c = Some (c', reply)"
    "rounds p tr + to_go pc (sk_in sk) \<le> length (request_text rq) + 1" "reliable (sk_in sk)"
    using b(3,6) assms(3,4) by (simp_all add: thread_ok_def)
  from will_serve_round [OF ws(1) b(5) ws(2)] consider
    (reads) l es where "connection_step env True pc ?w = Some (Inr (Reading l, after_read es ?w))"
  | (answers) w' where "connection_step env True pc ?w = Some (Inr (Outer, w'))" "outcome_ok ?w c' reply w'" by metis
  then have "may_go pc sk \<and> (\<exists>y'. (\<forall>r. sys_step env y (Serve p) r \<longleftrightarrow> r = Inr y') \<and> goes_on y p pc sk y')"
  proof cases
    case reads
    note go = reading_goes [OF reads]
    with serve_round [OF inv(1) b(1) assms(2) _ reads] show ?thesis by (fastforce simp: goes_on_def)
  next
    case answers
    have "pc \<noteq> Outer \<and> may_go pc sk \<and> pc \<noteq> Finished"
      using answer_goes [OF answers(1)] ws(4) answers(2) reply_not_empty [OF ws(2)] by (simp add: outcome_ok_def)
    with serve_round [OF inv(1) b(1) assms(2) _ answers(1)] show ?thesis by (fastforce simp: goes_on_def)
  qed
  then show "may_go pc sk" "\<exists>y'. (\<forall>r. sys_step env y (Serve p) r \<longleftrightarrow> r = Inr y') \<and> goes_on y p pc sk y'" by blast+
  then show "rounds p tr \<le> length (request_text rq)" using ws(3)
    by (cases "incoming (sk_in sk)") (auto simp: may_go_def to_go_def)
qed

text \<open>The thread alone, from any point.\<close>

lemma runs_to_answer:
  assumes "clients_run env y pend tr" and "good_memory env"
    and "shared_run server_bucket (answered tr) Map.empty = Some (c, rs)"
    and "y_threads y p = Looping pc sk" and "pend p = Some rq" and "cache_step server_bucket rq c = Some (c', reply)"
  shows "\<exists>y' n sk'. clients_run env y' (pend(p := None)) (tr @ replicate n (Round p) @ [Answered p rq]) \<and>
    y_threads y' = (y_threads y)(p := Looping Outer sk')"
  using assms(1,3,4)
proof (induction "to_go pc (sk_in sk)" arbitrary: y tr pc sk rule: less_induct)
  case less
  note pending = pending_round [OF clients_run_inv [OF less.prems(1) assms(2) less.prems(2)] less.prems(3) assms(5,6)]
  obtain y' pc' sk' where step: "sys_step env y (Serve p) (Inr y')" "y_threads y' = (y_threads y)(p := Looping pc' sk')"
    "pc' = Outer \<and> pc \<noteq> Outer \<or> (\<exists>l. pc' = Reading l) \<and> to_go pc' (sk_in sk') < to_go pc (sk_in sk)"
    using pending(3) by (auto simp: goes_on_def)
  from step(3) show ?case
  proof
    assume out: "pc' = Outer \<and> pc \<noteq> Outer"
    then have "at_outer y' p" using step(2) by (simp add: at_outer_def)
    with out have "clients_run env y' (pend(p := None)) (tr @ [Round p, Answered p rq])"
      using clients_run.answers [OF less.prems(1,3) pending(1) step(1)] assms(5) by blast
    then show ?thesis using step(2) out by (intro exI [of _ y'] exI [of _ "1 :: nat"] exI [of _ sk']) simp
  next
    assume rd: "(\<exists>l. pc' = Reading l) \<and> to_go pc' (sk_in sk') < to_go pc (sk_in sk)"
    then have "\<not> at_outer y' p" using step(2) by (auto simp: at_outer_def)
    then have run: "clients_run env y' pend (tr @ [Round p])"
      using clients_run.reads [OF less.prems(1,3) pending(1) step(1)] by blast
    have "\<exists>y'' n sk''. clients_run env y'' (pend(p := None)) ((tr @ [Round p]) @ replicate n (Round p) @ [Answered p rq]) \<and>
        y_threads y'' = (y_threads y')(p := Looping Outer sk'')"
      using rd less.prems(2) step(2) by (intro less.hyps [OF _ run, of pc' sk']) auto
    then obtain y'' n sk'' where
      "clients_run env y'' (pend(p := None)) ((tr @ [Round p]) @ replicate n (Round p) @ [Answered p rq])"
      "y_threads y'' = (y_threads y')(p := Looping Outer sk'')" by blast
    then show ?thesis using step(2) by (intro exI [of _ y''] exI [of _ "Suc n"] exI [of _ sk'']) simp
  qed
qed

section \<open>Clients that connect\<close>

text \<open>A connection that is accepted and whose thread starts, and then the registration of its client.\<close>

lemma client_connects:
  assumes "clients_run env y pend tr" and "y_main y = Accepting" and "sv_is_running (y_server y)"
    and "sv_heap (y_server y) p = None" and "y_threads y p = Ended"
    and "\<forall>q b. sv_heap (y_server y) q = Some b \<longrightarrow> cc_thread_id b \<noteq> self"
  obtains y' b where "clients_run env y' pend tr" "y_main y' = Registering p" "sv_is_running (y_server y')"
    "sv_heap (y_server y') = (sv_heap (y_server y))(p \<mapsto> b)" "cc_thread_id b = self" "sv_clients (y_server y') = sv_clients (y_server y)"
    "y_threads y' = (y_threads y)(p := Looping Outer \<lparr>sk_in = [], sk_out = CLIENT_WELCOME_MESSAGE\<rparr>)"
proof -
  let ?b = "\<lparr>cc_socket_fd = 5, cc_addr = ''1.2.3.4'', cc_port = 5, cc_thread_id = self, cc_is_thread_running = True\<rparr>"
  let ?s = "(y_server y)\<lparr>sv_heap := (sv_heap (y_server y))(p \<mapsto> ?b)\<rparr>"
  let ?y = "y\<lparr>y_server := ?s, y_main := Registering p, y_threads := (y_threads y)(p := Created \<lparr>sk_in = [], sk_out = []\<rparr>)\<rparr>"
  have "accept_client p self (Some (5, ''1.2.3.4'', 5)) True (y_server y) = (?s, Some p)" by (simp add: accept_client_def)
  from sys_step.accept [OF assms(2-5) this, of env "\<lparr>sk_in = [], sk_out = []\<rparr>"]
  have "sys_step env y (Accept p) (Inr ?y)" by simp
  from clients_run.connect [OF assms(1) this] have 1: "clients_run env ?y pend tr" by simp
  let ?z = "y\<lparr>y_main := Registering p, y_server := ?s, y_threads := (y_threads y)(p := Looping Outer \<lparr>sk_in = [], sk_out = CLIENT_WELCOME_MESSAGE\<rparr>)\<rparr>"
  have "fresh_id ?y self" using assms(6) by (auto simp: fresh_id_def)
  from sys_step.start [of ?y p _ self env, OF _ this] have "sys_step env ?y (Start p) (Inr ?z)"
    by (simp add: start_thread_def load_client_def connection_start_def write_client_def send_def world_of_def server_of_def)
  from clients_run.start [OF 1 this] show thesis using assms(3) by (intro that [of ?z ?b]) simp_all
qed

lemma client_registers:
  assumes "clients_run env y pend tr" and "y_main y = Registering p" and "list_ok (y_server y)"
    and "vector_room (sv_clients (y_server y))" and "p \<notin> set (elems (sv_clients (y_server y)))"
  obtains v where "clients_run env (y\<lparr>y_server := (y_server y)\<lparr>sv_clients := v\<rparr>, y_main := Accepting\<rparr>) pend tr"
proof -
  obtain v where "register_client True p (y_server y) = Some (Inr ((y_server y)\<lparr>sv_clients := v\<rparr>))"
    using register_ok [OF assms(3-5)] by blast
  from sys_step.register [OF assms(2) this, of env] have
    "sys_step env y (Register p True) (Inr (y\<lparr>y_server := (y_server y)\<lparr>sv_clients := v\<rparr>, y_main := Accepting\<rparr>))" by simp
  from that [OF clients_run.register [OF assms(1) this]] show thesis .
qed

lemma two_clients:
  obtains y where "clients_run env y (\<lambda>_. None) []" "\<And>p. p \<in> {1, 2} \<Longrightarrow> \<exists>sk. y_threads y p = Looping Outer sk"
proof -
  obtain v :: "nat vector" where v: "vector_create 10 True = Some v" "vector_inv v" "elems v = []" "v_size v = 10" "\<not> v_lock v"
    using vector_create_ok [of 10] by auto
  define s where "s = \<lparr>sv_is_running = True, sv_table = hash_table_create MEMUNCACHED_TABLE_INITIAL_SIZE, sv_clients = v,
    sv_heap = (\<lambda>_. None), sv_closed = []\<rparr>"
  have "clients_run env (system_start s) (\<lambda>_. None) []"
    using clients_run.boot [of s env] v(1) by (simp add: server_start_def s_def)
  from client_connects [OF this, of 1 1] obtain y1 b1 where y1: "clients_run env y1 (\<lambda>_. None) []" "y_main y1 = Registering 1"
    "sv_is_running (y_server y1)" "sv_heap (y_server y1) = [1 \<mapsto> b1]" "cc_thread_id b1 = 1" "sv_clients (y_server y1) = v"
    "y_threads y1 = (\<lambda>_. Ended)(1 := Looping Outer \<lparr>sk_in = [], sk_out = CLIENT_WELCOME_MESSAGE\<rparr>)"
    by (auto simp: system_start_def s_def)
  have "list_ok (y_server y1)" "vector_room (sv_clients (y_server y1))" "1 \<notin> set (elems (sv_clients (y_server y1)))"
    using y1(6) v by (simp_all add: list_ok_def vector_room_def)
  from client_registers [OF y1(1,2) this] obtain v' where
    reg: "clients_run env (y1\<lparr>y_server := (y_server y1)\<lparr>sv_clients := v'\<rparr>, y_main := Accepting\<rparr>) (\<lambda>_. None) []" by blast
  obtain y2 b2 where "clients_run env y2 (\<lambda>_. None) []"
    "y_threads y2 = (y_threads y1)(2 := Looping Outer \<lparr>sk_in = [], sk_out = CLIENT_WELCOME_MESSAGE\<rparr>)"
    by (rule client_connects [OF reg, of 2 2]) (use y1(3-5,7) in \<open>auto split: if_splits\<close>)
  moreover from this have "\<exists>sk. y_threads y2 p = Looping Outer sk" if "p \<in> {1, 2}" for p
    using that y1(7) by auto
  ultimately show thesis using that by blast
qed

lemma answered_rounds [simp]: "answered (replicate n (Round p)) = []"
  by (induction n) simp_all

text \<open>One client increments a counter, the other reads it; both requests are on their sockets.\<close>

abbreviation inc_n :: request where "inc_n \<equiv> Count True ''n'' NoArguments"
abbreviation get_n :: request where "get_n \<equiv> Get ''n''"

lemma two_requests:
  obtains y sk1 sk2 where "clients_run zero_memory y [1 \<mapsto> inc_n, 2 \<mapsto> get_n] [Sent 1 inc_n, Sent 2 get_n]"
    "y_threads y 1 = Looping Outer sk1" "y_threads y 2 = Looping Outer sk2"
proof -
  have word: "is_word ''n''" by (simp add: is_word_def is_blank_def)
  obtain y where y: "clients_run zero_memory y (\<lambda>_. None) []" "\<And>p. p \<in> {1, 2} \<Longrightarrow> \<exists>sk. y_threads y p = Looping Outer sk"
    using two_clients [of zero_memory] by blast
  obtain sk1 sk2 where sk: "y_threads y 1 = Looping Outer sk1" "y_threads y 2 = Looping Outer sk2"
    using y(2) [of 1] y(2) [of 2] by auto
  let ?y1 = "y\<lparr>y_threads := (y_threads y)(1 := Looping Outer (sk1\<lparr>sk_in := sk_in sk1 @ [Data (request_text inc_n)]\<rparr>))\<rparr>"
  have "clients_run zero_memory ?y1 [1 \<mapsto> inc_n] [Sent 1 inc_n]"
    using clients_run.send [OF y(1), of 1 inc_n "[Data (request_text inc_n)]"] sk word by (simp add: reliable_def)
  from clients_run.send [OF this, of 2 get_n "[Data (request_text get_n)]"] sk word that show thesis
    by (simp add: reliable_def)
qed

lemma inc_then_get:
  "cache_step server_bucket inc_n Map.empty = Some ([server_bucket ''n'' \<mapsto> VDecimal 1], value_reply 0 ''1'')"
  "cache_step server_bucket get_n [server_bucket ''n'' \<mapsto> VDecimal 1] =
     Some ([server_bucket ''n'' \<mapsto> VDecimal 1], value_reply 0 ''1'')"
proof -
  have "fmt_d 1 = ''1''" by code_simp
  then show "cache_step server_bucket inc_n Map.empty = Some ([server_bucket ''n'' \<mapsto> VDecimal 1], value_reply 0 ''1'')"
    "cache_step server_bucket get_n [server_bucket ''n'' \<mapsto> VDecimal 1] =
      Some ([server_bucket ''n'' \<mapsto> VDecimal 1], value_reply 0 ''1'')"
    by (simp_all add: counted_def found_reply_def type_of_value_def cache_types Let_def)
qed

section \<open>Properties\<close>





end
