(* ===== verification/Handlers.thy ===== *)
theory Handlers
  imports Commands
begin

text \<open>
  The handlers of GET, DEL, INC, DEC, SET and ADD as sequences of operations on the shared table
  and of writes to the client, so that those of several threads can be interleaved between the
  operations. The operations themselves are not interrupted: this is what would remain if the
  table were as thread-safe as its documentation says. A payload has been read before; the
  fields of an entry that is returned are read together with it.
\<close>

section \<open>Handlers\<close>

text \<open>What is written is the bytes and the number of bytes past the end of the buffer, or a fault.\<close>

datatype handler =
    Finish
  | Write "(string \<times> nat) res" handler
  | Table table_op "table_out \<Rightarrow> handler"

definition found_message :: "cache_value option \<Rightarrow> (string \<times> nat) res" where
  "found_message cache_value =
     (case cache_value of
        None \<Rightarrow> Inr (response_text RESPONSE_404_NOT_FOUND [], 0)
      | Some cv \<Rightarrow>
          if cv_type cv = CACHE_VALUE_DECIMAL then
            (case cv_value cv of
               VDecimal d \<Rightarrow> Inr (value_reply (cv_type cv) (fmt_d (sint d)), 0)
             | v \<Rightarrow> Inl (bad_read v))
          else if cv_type cv = CACHE_VALUE_REAL then
            (case cv_value cv of
               VReal r \<Rightarrow> Inr (value_reply (cv_type cv) (fmt_lf r), 0)
             | v \<Rightarrow> Inl (bad_read v))
          else if cv_type cv = CACHE_VALUE_STRING then string_reply cv
          else Inr (response_text RESPONSE_200_OK [], 0))"

definition found :: "table_out \<Rightarrow> cache_value option" where
  "found out = (case out of Found e \<Rightarrow> e | Done _ \<Rightarrow> None)"

definition get_handler :: "string \<Rightarrow> handler \<Rightarrow> handler" where
  "get_handler key rest = Table (OpGet key) (\<lambda>out. Write (found_message (found out)) rest)"

definition del_handler :: "string \<Rightarrow> handler" where
  "del_handler key = get_handler key (Table (OpDel key) (\<lambda>_. Finish))"

text \<open>\<open>op\<close> is \<open>OpInc\<close> or \<open>OpDec\<close>.\<close>

definition count_handler ::
    "(string \<Rightarrow> double \<Rightarrow> table_op) \<Rightarrow> string \<Rightarrow> string option \<Rightarrow> string option \<Rightarrow> handler" where
  "count_handler op key offset initial =
     (let v_offset = (case offset of None \<Rightarrow> int_to_double 1 | Some s \<Rightarrow> atof s)
      in Table (op key v_offset) (\<lambda>out.
           if found out = None then
             let initial_d = (case initial of None \<Rightarrow> 1 | Some s \<Rightarrow> atoll s);
                 initial_r = (case initial of None \<Rightarrow> int_to_double 1 | Some s \<Rightarrow> atof s);
                 decimal = (case initial of None \<Rightarrow> True
                   | Some s \<Rightarrow> char_at s 0 \<noteq> NUL \<and> char_at s 1 \<noteq> CHR ''.'')
             in Table
                  (if decimal then OpSet key CACHE_VALUE_DECIMAL (VDecimal initial_d) 0
                   else OpSet key CACHE_VALUE_REAL (VReal initial_r) 0)
                  (\<lambda>_. get_handler key Finish)
           else get_handler key Finish))"

text \<open>SET and ADD from the point where the payload has been read.\<close>

definition replace_handler :: "string \<Rightarrow> string \<Rightarrow> int \<Rightarrow> string option \<Rightarrow> handler" where
  "replace_handler key type v_length payload =
     Table (OpDel key) (\<lambda>_.
       case payload of
         None \<Rightarrow> Write (Inl NullDeref) Finish
       | Some p \<Rightarrow>
           if v_length < 0 then Write (Inl OutOfBounds) Finish
           else
             let p = p[nat v_length := NUL, nat v_length + 1 := NUL];
                 v_type = word_of_int (schar (char_at type 0) - schar (CHR ''0''));
                 store = (\<lambda>v sz. Table (OpSet key v_type v sz)
                   (\<lambda>_. Write (Inr (response_text RESPONSE_200_OK [], 0)) Finish))
             in if v_type = CACHE_VALUE_DECIMAL then store (VDecimal (atoll p)) 0
                else if v_type = CACHE_VALUE_REAL then store (VReal (atof p)) 0
                else if v_type = CACHE_VALUE_STRING then store (VString p) (word_of_int v_length)
                else Write (Inr (response_text RESPONSE_400_BAD_REQUEST
                  ''The argument LENGTH must be 0, 1, or 2.'', 0)) Finish)"

definition store_handler :: "string \<Rightarrow> string \<Rightarrow> int \<Rightarrow> string option \<Rightarrow> bool \<Rightarrow> handler" where
  "store_handler key type v_length payload overwrite =
     (if overwrite then replace_handler key type v_length payload
      else Table (OpGet key) (\<lambda>out.
        if found out \<noteq> None then Write (Inr (response_text RESPONSE_409_KEY_EXISTS [], 0)) Finish
        else replace_handler key type v_length payload))"

section \<open>A handler alone\<close>

primrec run_handler :: "handler \<Rightarrow> world \<Rightarrow> world res" where
  "run_handler Finish w = Inr w"
| "run_handler (Write m rest) w =
     bind_res m (\<lambda>(bytes, over). run_handler rest (write_client bytes (overrun over w)))"
| "run_handler (Table op rest) w =
     bind_res (ht_exec (w_table w) op) (\<lambda>(t, out). run_handler (rest out) (w\<lparr>w_table := t\<rparr>))"

lemma world_table_same [simp]: "w\<lparr>w_table := w_table w\<rparr> = w"
  by simp

lemma get_handler_run:
  "run_handler (get_handler key rest) w = bind_res (memuncached_get key w) (run_handler rest)"
proof (cases "hash_table_get (w_table w) key")
  case (Inr e)
  show ?thesis
  proof (cases e)
    case (Some cv)
    with Inr show ?thesis
      by (cases "string_reply cv") (auto simp: get_handler_def memuncached_get_def found_message_def found_def reply_defs
          split: heap_value.splits)
  qed (use Inr in \<open>simp add: get_handler_def memuncached_get_def found_message_def found_def reply_defs\<close>)
qed (simp add: get_handler_def memuncached_get_def)

lemma del_handler_run: "run_handler (del_handler key) w = memuncached_del key w"
  by (cases "memuncached_get key w")
    (auto simp: del_handler_def get_handler_run memuncached_del_def bind_res_def map_res_def split: sum.split)

lemma get_handler_alone: "run_handler (get_handler key Finish) w = memuncached_get key w"
  by (cases "memuncached_get key w") (simp_all add: get_handler_run)

lemma count_handler_run:
  assumes "\<And>t k x. ht_exec t (op k x) = map_res (\<lambda>(t, r). (t, Found r)) (table_op t k x)"
  shows "run_handler (count_handler op key offset initial) w = memuncached_count table_op key offset initial w"
proof -
  let ?x = "case offset of None \<Rightarrow> int_to_double 1 | Some s \<Rightarrow> atof s"
  show ?thesis
  proof (cases "table_op (w_table w) key ?x")
    case (Inr r)
    obtain t e where r: "r = (t, e)" by fastforce
    have set: "bind_res (map_res (\<lambda>(t, b). (t, Done b)) x) (\<lambda>(t, out). run_handler (get_handler key Finish) (w\<lparr>w_table := t\<rparr>)) =
        bind_res (map_res fst x) (\<lambda>t. memuncached_get key (w\<lparr>w_table := t\<rparr>))" for x :: "(hash_table \<times> bool) res"
      by (cases x) (auto simp: get_handler_alone)
    show ?thesis
      using Inr r set by (simp add: count_handler_def memuncached_count_def Let_def assms found_def get_handler_alone)
  qed (simp add: count_handler_def memuncached_count_def Let_def assms)
qed

lemma inc_dec_handler_run:
  "run_handler (count_handler OpInc key offset initial) w = memuncached_inc key offset initial w"
  "run_handler (count_handler OpDec key offset initial) w = memuncached_dec key offset initial w"
  unfolding memuncached_inc_def memuncached_dec_def by (rule count_handler_run, simp)+

lemma replace_handler_run:
  "run_handler (replace_handler key type v_length payload) w = store_payload key type v_length payload True w"
proof (cases "hash_table_del (w_table w) key")
  case (Inr r)
  obtain t b where r: "r = (t, b)" by fastforce
  have set: "bind_res (map_res (\<lambda>(t, b). (t, Done b)) x)
        (\<lambda>(t, out). run_handler (Write (Inr (response_text RESPONSE_200_OK [], 0)) Finish) (w\<lparr>w_table := t\<rparr>)) =
      map_res (\<lambda>(t, _). REPLY_SUCCESS [] (w\<lparr>w_table := t\<rparr>)) x" for x :: "(hash_table \<times> bool) res"
    by (cases x) (auto simp: reply_defs)
  show ?thesis
  proof (cases payload)
    case None
    with Inr r show ?thesis by (simp add: replace_handler_def store_payload_def)
  next
    case (Some p)
    with Inr r set show ?thesis
      by (simp add: replace_handler_def store_payload_def Let_def del: run_handler.simps(2)) (simp add: reply_defs)
  qed
qed (simp add: replace_handler_def store_payload_def)

lemma store_handler_run:
  "run_handler (store_handler key type v_length payload overwrite) w = store_payload key type v_length payload overwrite w"
proof (cases overwrite)
  case False
  have new: "store_payload key type v_length payload False w = store_payload key type v_length payload True w"
    if "hash_table_get (w_table w) key = Inr None" using that by (simp add: store_payload_def)
  show ?thesis
  proof (cases "hash_table_get (w_table w) key")
    case (Inr e)
    with False new replace_handler_run show ?thesis
      by (cases e) (simp_all add: store_handler_def found_def, simp add: store_payload_def reply_defs)
  qed (use False in \<open>simp add: store_handler_def store_payload_def\<close>)
qed (simp add: store_handler_def replace_handler_run)

section \<open>Commands\<close>

text \<open>A command that works on the table, with its arguments; of SET and ADD the payload block and \<open>v_length\<close>.\<close>

datatype command =
    GetCommand string
  | DelCommand string
  | CountCommand bool string "string option" "string option"
  | StoreCommand bool string string nat string

fun command_key :: "command \<Rightarrow> string" where
  "command_key (GetCommand key) = key"
| "command_key (DelCommand key) = key"
| "command_key (CountCommand _ key _ _) = key"
| "command_key (StoreCommand _ key _ _ _) = key"

fun command_handler :: "command \<Rightarrow> handler" where
  "command_handler (GetCommand key) = get_handler key Finish"
| "command_handler (DelCommand key) = del_handler key"
| "command_handler (CountCommand up key offset initial) = count_handler (if up then OpInc else OpDec) key offset initial"
| "command_handler (StoreCommand overwrite key type n p) = store_handler key type (int n) (Some p) overwrite"

text \<open>The command as a whole, as Commands has it.\<close>

fun command_run :: "command \<Rightarrow> world \<Rightarrow> world res" where
  "command_run (GetCommand key) = memuncached_get key"
| "command_run (DelCommand key) = memuncached_del key"
| "command_run (CountCommand up key offset initial) = (if up then memuncached_inc else memuncached_dec) key offset initial"
| "command_run (StoreCommand overwrite key type n p) = store_payload key type (int n) (Some p) overwrite"

fun command_ok :: "command \<Rightarrow> bool" where
  "command_ok (StoreCommand _ _ _ n p) \<longleftrightarrow> length p = n + 2 \<and> n < 2 ^ 31"
| "command_ok _ \<longleftrightarrow> True"

lemma command_handler_run: "run_handler (command_handler c) w = command_run c w"
  by (cases c) (simp_all add: get_handler_alone del_handler_run inc_dec_handler_run store_handler_run)

section \<open>Handlers of several threads\<close>

text \<open>
  Each thread has its handler and its own state; the table is shared, and the field \<open>w_table\<close> of
  the threads' states is not used.
\<close>

definition handler_step :: "handler \<times> world \<Rightarrow> hash_table \<Rightarrow> ((handler \<times> world) \<times> hash_table) res" where
  "handler_step hw t =
     (case hw of (h, w) \<Rightarrow>
        (case h of
           Finish \<Rightarrow> Inr ((Finish, w), t)
         | Write m rest \<Rightarrow> map_res (\<lambda>(bytes, over). ((rest, write_client bytes (overrun over w)), t)) m
         | Table op rest \<Rightarrow> map_res (\<lambda>(t, out). ((rest out, w), t)) (ht_exec t op)))"

fun run_handlers ::
    "nat list \<Rightarrow> (handler \<times> world) list \<times> hash_table \<Rightarrow> ((handler \<times> world) list \<times> hash_table) res" where
  "run_handlers [] s = Inr s"
| "run_handlers (i # is) (hs, t) =
     (if length hs \<le> i then run_handlers is (hs, t)
      else bind_res (handler_step (hs ! i) t) (\<lambda>(hw, t). run_handlers is (hs[i := hw], t)))"

section \<open>Different buckets\<close>

fun key_of :: "table_op \<Rightarrow> string" where
  "key_of (OpSet k _ _ _) = k"
| "key_of (OpGet k) = k"
| "key_of (OpInc k _) = k"
| "key_of (OpDec k _) = k"
| "key_of (OpDel k) = k"

text \<open>An operation of the specification works on its own cell.\<close>

definition cell_exec :: "table_op \<Rightarrow> cache_value option \<Rightarrow> (cache_value option \<times> table_out) res" where
  "cell_exec op e = map_res (\<lambda>(m, out). (m 0, out)) (map_exec (\<lambda>_. 0) (\<lambda>_. e) op)"

lemma map_exec_cell:
  "map_exec bk m op = map_res (\<lambda>(e, out). (m(bk (key_of op) := e), out)) (cell_exec op (m (bk (key_of op))))"
proof (cases op)
  case (OpInc k x)
  then show ?thesis
    by (cases "m (bk k)") (auto simp: cell_exec_def map_res_def bind_res_def fun_upd_idem split: sum.splits option.splits)
next
  case (OpDec k x)
  then show ?thesis
    by (cases "m (bk k)") (auto simp: cell_exec_def map_res_def bind_res_def fun_upd_idem split: sum.splits option.splits)
qed (simp_all add: cell_exec_def fun_upd_idem)

text \<open>All operations of a handler are on keys of the bucket \<open>b\<close>; it makes at most \<open>n\<close> steps.\<close>

primrec confined :: "(string \<Rightarrow> nat) \<Rightarrow> nat \<Rightarrow> handler \<Rightarrow> nat \<Rightarrow> bool" where
  "confined bk b Finish n \<longleftrightarrow> True"
| "confined bk b (Write m rest) n \<longleftrightarrow> 0 < n \<and> confined bk b rest (n - 1)"
| "confined bk b (Table op rest) n \<longleftrightarrow>
     0 < n \<and> bk (key_of op) = b \<and> op_ok op \<and> (\<forall>out. confined bk b (rest out) (n - 1))"

lemma confined_more: "confined bk b h n \<Longrightarrow> n \<le> n' \<Longrightarrow> confined bk b h n'"
proof (induction h arbitrary: n n')
  case (Write m rest)
  from Write.IH [of "n - 1" "n' - 1"] Write.prems show ?case by simp
next
  case (Table op rest)
  from Table.IH [of _ "n - 1" "n' - 1"] Table.prems show ?case by simp
qed simp

lemma confined_handlers:
  "confined bk (bk key) (get_handler key Finish) 4" "confined bk (bk key) (del_handler key) 4"
  "confined bk (bk key) (count_handler OpInc key offset initial) 4" "confined bk (bk key) (count_handler OpDec key offset initial) 4"
  by (simp_all add: get_handler_def del_handler_def count_handler_def Let_def cache_types)

lemma confined_replace:
  assumes "length p = n + 2" and "n < 2 ^ 31"
  shows "confined bk (bk key) (replace_handler key type (int n) (Some p)) 3"
proof -
  have "unat (word_of_nat n :: size_t) = n" using assms(2) by (simp add: unat_of_nat)
  with assms(1) show ?thesis
    by (simp add: replace_handler_def Let_def cache_types)
qed

lemma confined_store:
  assumes "length p = n + 2" and "n < 2 ^ 31"
  shows "confined bk (bk key) (store_handler key type (int n) (Some p) overwrite) 4"
  using confined_replace [OF assms] confined_more [OF confined_replace [OF assms], of 4] by (simp add: store_handler_def)

lemma confined_command: "command_ok c \<Longrightarrow> confined bk (bk (command_key c)) (command_handler c) 4"
  using confined_handlers [of bk] confined_store [of _ _ bk] by (cases c) auto

text \<open>
  What is left of a handler, run alone on a table that agrees with the shared one in its bucket,
  ends in \<open>v\<close>. A step keeps this.
\<close>

definition would_end :: "(string \<Rightarrow> nat) \<Rightarrow> (nat \<rightharpoonup> cache_value) \<Rightarrow> nat \<Rightarrow> handler \<times> world \<Rightarrow> world \<Rightarrow> bool" where
  "would_end bk m b hw v \<longleftrightarrow>
     (\<exists>t0 m0. table_rel bk t0 m0 \<and> m0 b = m b \<and> run_handler (fst hw) ((snd hw)\<lparr>w_table := t0\<rparr>) = Inr v)"

lemma write_on_table: "write_client x (overrun n (w\<lparr>w_table := t\<rparr>)) = (write_client x (overrun n w))\<lparr>w_table := t\<rparr>"
  by (simp add: write_client_def overrun_def)

lemma would_end_step:
  assumes "would_end bk m b (h, w) v" and "confined bk b h n" and "table_rel bk t m"
  obtains h' w' t' e where "handler_step (h, w) t = Inr ((h', w'), t')" "table_rel bk t' (m(b := e))"
    "would_end bk (m(b := e)) b (h', w') v" "confined bk b h' (n - 1)"
proof -
  obtain t0 m0 where t0: "table_rel bk t0 m0" "m0 b = m b" "run_handler h (w\<lparr>w_table := t0\<rparr>) = Inr v"
    using assms(1) by (auto simp: would_end_def)
  have same: "m(b := m b) = m" by simp
  show thesis
  proof (cases h)
    case Finish
    with assms that [of Finish w t "m b"] show ?thesis by (simp add: handler_step_def)
  next
    case (Write msg rest)
    with t0(3) obtain bytes over where msg: "msg = Inr (bytes, over)"
      "run_handler rest (write_client bytes (overrun over (w\<lparr>w_table := t0\<rparr>))) = Inr v"
      by (auto simp: bind_res_Inr_iff)
    then have "would_end bk m b (rest, write_client bytes (overrun over w)) v"
      unfolding write_on_table would_end_def using t0(1,2) by auto
    with msg(1) Write assms(2,3) that [of rest "write_client bytes (overrun over w)" t "m b"] show ?thesis
      by (simp add: handler_step_def)
  next
    case (Table op rest)
    then have op: "bk (key_of op) = b" "op_ok op" "\<And>out. confined bk b (rest out) (n - 1)" using assms(2) by simp_all
    from t0(3) Table obtain t1 out where t1: "ht_exec t0 op = Inr (t1, out)" "run_handler (rest out) (w\<lparr>w_table := t1\<rparr>) = Inr v"
      by (auto simp: bind_res_Inr_iff)
    with ht_exec_refines [OF t0(1) op(2)] obtain e where
      e: "cell_exec op (m b) = Inr (e, out)" "table_rel bk t1 (m0(b := e))"
      unfolding map_exec_cell op(1) t0(2) by (auto simp: map_res_Inr_iff)
    with ht_exec_refines [OF assms(3) op(2)] obtain t' where t': "ht_exec t op = Inr (t', out)" "table_rel bk t' (m(b := e))"
      unfolding map_exec_cell op(1) by (cases "ht_exec t op") auto
    have "would_end bk (m(b := e)) b (rest out, w) v"
      unfolding would_end_def using e(2) t1(2) by (intro exI [of _ t1] exI [of _ "m0(b := e)"]) simp
    with t' op(3) Table that [of "rest out" w t' e] show ?thesis by (simp add: handler_step_def)
  qed
qed

text \<open>All threads, each with its bucket, its end and a bound on its steps.\<close>

definition handlers_inv ::
    "(string \<Rightarrow> nat) \<Rightarrow> (nat \<rightharpoonup> cache_value) \<Rightarrow> nat list \<Rightarrow> world list \<Rightarrow> (nat \<Rightarrow> nat) \<Rightarrow>
      (handler \<times> world) list \<times> hash_table \<Rightarrow> bool" where
  "handlers_inv bk m0 bs vs n s \<longleftrightarrow>
     (case s of (hs, t) \<Rightarrow> length bs = length hs \<and> (\<exists>m. table_rel bk t m \<and> (\<forall>b. b \<notin> set bs \<longrightarrow> m b = m0 b) \<and>
        (\<forall>i < length hs. would_end bk m (bs ! i) (hs ! i) (vs ! i) \<and> confined bk (bs ! i) (fst (hs ! i)) (n i))))"

lemma handlers_inv_step:
  assumes "handlers_inv bk m0 bs vs n (hs, t)" and "i < length hs" and "distinct bs"
  obtains hw t' where "handler_step (hs ! i) t = Inr (hw, t')" "handlers_inv bk m0 bs vs (n(i := n i - 1)) (hs[i := hw], t')"
proof -
  obtain m where m: "length bs = length hs" "table_rel bk t m" "\<And>b. b \<notin> set bs \<Longrightarrow> m b = m0 b"
    "\<And>j. j < length hs \<Longrightarrow> would_end bk m (bs ! j) (hs ! j) (vs ! j)" "\<And>j. j < length hs \<Longrightarrow> confined bk (bs ! j) (fst (hs ! j)) (n j)"
    using assms(1) by (auto simp: handlers_inv_def)
  obtain h w where hw: "hs ! i = (h, w)" by fastforce
  have "would_end bk m (bs ! i) (h, w) (vs ! i)" "confined bk (bs ! i) h (n i)" using m(4,5) [OF assms(2)] hw by simp_all
  from would_end_step [OF this m(2)]
  obtain h' w' t' e where step: "handler_step (h, w) t = Inr ((h', w'), t')" "table_rel bk t' (m(bs ! i := e))"
    "would_end bk (m(bs ! i := e)) (bs ! i) (h', w') (vs ! i)" "confined bk (bs ! i) h' (n i - 1)" .
  have other: "would_end bk (m(bs ! i := e)) (bs ! j) (hs ! j) (vs ! j)" if "j < length hs" "j \<noteq> i" for j
  proof -
    have "bs ! j \<noteq> bs ! i" using that assms(2,3) m(1) by (simp add: nth_eq_iff_index_eq)
    with m(4) [OF that(1)] show ?thesis by (simp add: would_end_def)
  qed
  have "would_end bk (m(bs ! i := e)) (bs ! j) (hs[i := (h', w')] ! j) (vs ! j) \<and>
      confined bk (bs ! j) (fst (hs[i := (h', w')] ! j)) ((n(i := n i - 1)) j)" if "j < length hs" for j
    by (cases "j = i") (use that step(3,4) other m(5) in simp_all)
  moreover have "(m(bs ! i := e)) b = m0 b" if "b \<notin> set bs" for b
    using that m(3) assms(2) m(1) by (metis fun_upd_other nth_mem)
  ultimately have "handlers_inv bk m0 bs vs (n(i := n i - 1)) (hs[i := (h', w')], t')"
    unfolding handlers_inv_def using step(2) m(1) by (simp del: fun_upd_apply) blast
  with step(1) hw that show thesis by simp
qed

lemma handlers_inv_run:
  assumes "handlers_inv bk m0 bs vs n s" and "distinct bs"
  shows "\<exists>s'. run_handlers is s = Inr s' \<and> handlers_inv bk m0 bs vs (\<lambda>i. n i - count_list is i) s'"
  using assms(1)
proof (induction "is" arbitrary: n s)
  case (Cons i "is")
  obtain hs t where s: "s = (hs, t)" by fastforce
  have n: "(\<lambda>j. (n(i := n i - 1)) j - count_list is j) = (\<lambda>j. n j - count_list (i # is) j)" by (auto simp: fun_eq_iff)
  show ?case
  proof (cases "length hs \<le> i")
    case True
    then have "handlers_inv bk m0 bs vs (n(i := n i - 1)) s" using Cons.prems s by (auto simp: handlers_inv_def)
    from Cons.IH [OF this] show ?thesis unfolding n using True s by simp
  next
    case False
    then obtain hw t' where step: "handler_step (hs ! i) t = Inr (hw, t')"
      "handlers_inv bk m0 bs vs (n(i := n i - 1)) (hs[i := hw], t')"
      using handlers_inv_step [of bk m0 bs vs n hs t i] Cons.prems s assms(2) by auto
    from Cons.IH [OF step(2)] show ?thesis unfolding n using step(1) False s by simp
  qed
qed simp

section \<open>The same bucket\<close>

lemma run_handlers_append: "run_handlers (is @ js) s = bind_res (run_handlers is s) (run_handlers js)"
proof (induction "is" s rule: run_handlers.induct)
  case (2 i "is" hs t)
  then show ?case by (cases "handler_step (hs ! i) t") auto
qed simp

text \<open>A thread that makes all its remaining steps at once.\<close>

lemma thread_finishes:
  assumes "confined bk b h n" and "run_handler h (w\<lparr>w_table := t\<rparr>) = Inr v" and "i < length hs" and "hs ! i = (h, w)"
  shows "run_handlers (replicate n i) (hs, t) = Inr (hs[i := (Finish, v\<lparr>w_table := w_table w\<rparr>)], w_table v)"
  using assms
proof (induction n arbitrary: h w t hs)
  case 0
  then show ?case using list_update_id [of hs i] by (cases h) auto
next
  case (Suc n)
  show ?case
  proof (cases h)
    case Finish
    with Suc.prems Suc.IH [of Finish t w hs] list_update_id [of hs i] show ?thesis by (simp add: handler_step_def)
  next
    case (Write m rest)
    with Suc.prems(2) obtain bytes over where m: "m = Inr (bytes, over)"
      "run_handler rest ((write_client bytes (overrun over w))\<lparr>w_table := t\<rparr>) = Inr v"
      by (auto simp: bind_res_Inr_iff write_on_table)
    with Write Suc.prems Suc.IH [OF _ m(2), of "hs[i := (rest, write_client bytes (overrun over w))]"] show ?thesis
      by (simp add: handler_step_def)
  next
    case (Table op rest)
    with Suc.prems(2) obtain t' out where t': "ht_exec t op = Inr (t', out)"
      "run_handler (rest out) (w\<lparr>w_table := t'\<rparr>) = Inr v"
      by (auto simp: bind_res_Inr_iff)
    with Table Suc.prems Suc.IH [OF _ t'(2), of "hs[i := (rest out, w)]"] show ?thesis
      by (simp add: handler_step_def)
  qed
qed

lemma replace_finishes:
  assumes "ht_inv t" and "length p = n + 2" and "n < 2 ^ 31" and "type_arg type \<le> 2"
  obtains t' where "run_handler (replace_handler key type (int n) (Some p)) (w\<lparr>w_table := t\<rparr>) = Inr (REPLY_SUCCESS [] (w\<lparr>w_table := t'\<rparr>))"
    "ht_inv t'" "bucket t' = bucket t" "entries t' = (entries t)(bucket t key \<mapsto> payload_entry key (type_arg type) (take n p))"
proof -
  have "ht_inv (w_table (w\<lparr>w_table := t\<rparr>))" "True \<or> lookup (w\<lparr>w_table := t\<rparr>) key = None" using assms(1) by simp_all
  from store_payload_ok [OF this assms(2-4)] that show thesis by (auto simp: replace_handler_run)
qed

lemma success_on_table: "(REPLY_SUCCESS [] (w\<lparr>w_table := t\<rparr>))\<lparr>w_table := w_table w\<rparr> = REPLY_SUCCESS [] w"
  by (simp add: reply_defs)

section \<open>Properties\<close>

text \<open>
  C10. Commands of any number of threads on keys of different buckets do not disturb each other,
  however the operations on the table that they are made of are interleaved: when each thread
  has made four steps all are done, and each client has been sent what it would have been sent
  had its command been the only one; every bucket holds what that command alone leaves in it,
  and the other buckets are as before.
\<close>

theorem commands_on_separate_buckets:
  assumes "ht_inv t" and "length ws = length cs" and "length vs = length cs" and "list_all command_ok cs"
    and "distinct (map (\<lambda>c. bucket t (command_key c)) cs)"
    and "\<forall>i < length cs. command_run (cs ! i) ((ws ! i)\<lparr>w_table := t\<rparr>) = Inr (vs ! i)"
    and "\<forall>i < length cs. 4 \<le> count_list is i"
  shows "\<exists>us t'. run_handlers is (zip (map command_handler cs) ws, t) = Inr (zip (replicate (length cs) Finish) us, t') \<and>
    length us = length cs \<and>
    (\<forall>i < length cs. (us ! i)\<lparr>w_table := w_table (vs ! i)\<rparr> = vs ! i \<and>
      entries t' (bucket t (command_key (cs ! i))) = entries (w_table (vs ! i)) (bucket t (command_key (cs ! i)))) \<and>
    (\<forall>b. b \<notin> (\<lambda>c. bucket t (command_key c)) ` set cs \<longrightarrow> entries t' b = entries t b)"
proof -
  let ?bk = "bucket t" and ?bs = "map (\<lambda>c. bucket t (command_key c)) cs" and ?hs = "zip (map command_handler cs) ws"
  have rel: "table_rel ?bk t (entries t)" using assms(1) by (simp add: table_rel_def)
  have "would_end ?bk (entries t) (?bs ! i) (?hs ! i) (vs ! i) \<and> confined ?bk (?bs ! i) (fst (?hs ! i)) 4" if "i < length cs" for i
    unfolding would_end_def using that assms(2,4,6) rel
    by (auto simp: command_handler_run list_all_length intro!: confined_command exI [of _ t])
  then have "handlers_inv ?bk (entries t) ?bs vs (\<lambda>_. 4) (?hs, t)"
    using rel assms(2) by (auto simp: handlers_inv_def)
  from handlers_inv_run [OF this assms(5), of "is"] obtain hs t' where run: "run_handlers is (?hs, t) = Inr (hs, t')"
    "handlers_inv ?bk (entries t) ?bs vs (\<lambda>i. 4 - count_list is i) (hs, t')" by fastforce
  then obtain m where m: "length hs = length cs" "table_rel ?bk t' m" "\<And>b. b \<notin> set ?bs \<Longrightarrow> m b = entries t b"
    "\<And>i. i < length cs \<Longrightarrow> would_end ?bk m (?bs ! i) (hs ! i) (vs ! i)"
    "\<And>i. i < length cs \<Longrightarrow> confined ?bk (?bs ! i) (fst (hs ! i)) (4 - count_list is i)"
    by (auto simp: handlers_inv_def)
  have fin: "fst (hs ! i) = Finish" if "i < length cs" for i
    using m(5) [OF that] assms(7) that by (cases "fst (hs ! i)") simp_all
  have hs: "hs = zip (replicate (length cs) Finish) (map snd hs)"
    by (rule nth_equalityI) (use m(1) fin in \<open>auto simp: prod_eq_iff\<close>)
  have ends: "(snd (hs ! i))\<lparr>w_table := w_table (vs ! i)\<rparr> = vs ! i \<and> entries t' (?bs ! i) = entries (w_table (vs ! i)) (?bs ! i)"
    if i: "i < length cs" for i
  proof -
    obtain t0 m0 where t0: "table_rel ?bk t0 m0" "m0 (?bs ! i) = m (?bs ! i)" "(snd (hs ! i))\<lparr>w_table := t0\<rparr> = vs ! i"
      using m(4) [OF i] fin [OF i] by (auto simp: would_end_def)
    have "w_table (vs ! i) = t0" using t0(3) by (metis world.select_convs(1) world.surjective world.update_convs(1))
    with t0 m(2) show ?thesis by (simp add: table_rel_def)
  qed
  show ?thesis
  proof (intro exI [of _ "map snd hs"] exI [of _ t'] conjI)
    show "run_handlers is (?hs, t) = Inr (zip (replicate (length cs) Finish) (map snd hs), t')" using run(1) hs by simp
  qed (use m ends in \<open>auto simp: table_rel_def\<close>)
qed

theorem commands_on_separate_buckets_witness:
  "\<exists>us t'. run_handlers [0, 1, 0, 1, 1, 0, 1, 0]
      (zip (map command_handler [StoreCommand True ''a'' ''2'' 1 ''xyz'', GetCommand ''b''])
        [fresh_world (hash_table_create 10) [], fresh_world (hash_table_create 10) []], hash_table_create 10) =
      Inr (zip [Finish, Finish] us, t') \<and>
    sk_out (w_sock (us ! 0)) = response_text RESPONSE_200_OK [] \<and> sk_out (w_sock (us ! 1)) = response_text RESPONSE_404_NOT_FOUND [] \<and>
    entries t' 6 = Some \<lparr>cv_key = ''a'', cv_type = 2, cv_value = VString ''x'', cv_length = 1\<rparr>"
proof -
  let ?t = "hash_table_create 10" and ?cs = "[StoreCommand True ''a'' ''2'' 1 ''xyz'', GetCommand ''b'']"
  let ?w = "fresh_world ?t []"
  have b: "bucket ?t ''a'' = 6" "bucket ?t ''b'' = 9" by code_simp+
  have ty: "type_arg ''2'' = 2" by code_simp
  have inv: "ht_inv ?t" by (rule ht_create_inv) simp_all
  have e: "entries ?t = (\<lambda>_. None)" by (simp add: entries_def hash_table_create_def fun_eq_iff)
  obtain t1 where t1: "store_payload ''a'' ''2'' (int 1) (Some ''xyz'') True ?w = Inr (REPLY_SUCCESS [] (?w\<lparr>w_table := t1\<rparr>))"
    "entries t1 = (entries ?t)(bucket ?t ''a'' \<mapsto> payload_entry ''a'' (type_arg ''2'') (take 1 ''xyz''))"
    using store_payload_ok [of ?w True "''a''" "''xyz''" 1 "''2''"] inv ty by auto
  let ?vs = "[REPLY_SUCCESS [] (?w\<lparr>w_table := t1\<rparr>), REPLY_NOT_FOUND ?w]"
  have "memuncached_get ''b'' ?w = Inr (REPLY_NOT_FOUND ?w)"
    using inv e by (simp add: memuncached_get_def hash_table_get_eq)
  moreover have same: "?w\<lparr>w_table := ?t\<rparr> = ?w" by (simp add: fresh_world_def)
  ultimately have ends: "\<forall>i < length ?cs. command_run (?cs ! i) (([?w, ?w] ! i)\<lparr>w_table := ?t\<rparr>) = Inr (?vs ! i)"
    using t1(1) by (auto simp: less_Suc_eq same)
  have side: "length [?w, ?w] = length ?cs" "length ?vs = length ?cs" "list_all command_ok ?cs"
    "distinct (map (\<lambda>c. bucket ?t (command_key c)) ?cs)" "\<forall>i < length ?cs. 4 \<le> count_list [0, 1, 0, 1, 1, 0, 1, 0] i"
    using b by (simp_all add: less_Suc_eq)
  obtain us t' where us: "run_handlers [0, 1, 0, 1, 1, 0, 1, 0] (zip (map command_handler ?cs) [?w, ?w], ?t) =
      Inr (zip (replicate (length ?cs) Finish) us, t')"
    "\<forall>i < length ?cs. (us ! i)\<lparr>w_table := w_table (?vs ! i)\<rparr> = ?vs ! i \<and>
      entries t' (bucket ?t (command_key (?cs ! i))) = entries (w_table (?vs ! i)) (bucket ?t (command_key (?cs ! i)))"
    using commands_on_separate_buckets [OF inv side(1-4) ends side(5)] by blast
  have sock: "w_sock u = w_sock v" if "u\<lparr>w_table := x\<rparr> = v" for u v :: world and x using that by auto
  have "w_sock (us ! 0) = w_sock (?vs ! 0)" "w_sock (us ! 1) = w_sock (?vs ! 1)"
    using us(2) [rule_format, of 0] us(2) [rule_format, of 1] by (auto intro: sock)
  moreover have "entries t' 6 = entries t1 6" using us(2) [rule_format, of 0] b(1) by (simp add: reply_defs)
  ultimately show ?thesis using us(1) t1(2) b(1) ty
    by (intro exI [of _ us] exI [of _ t']) (simp add: reply_defs payload_entry_def payload_value_def cache_types send_def)
qed

text \<open>
  C29. ADD looks for the key and stores it in separate operations on the table, so even if those
  cannot be interrupted, two clients that add the same missing key can both be told 200; the
  value of the first is gone.
\<close>

theorem both_adds_succeed:
  assumes "ht_inv t" and "entries t (bucket t k0) = None" and "bucket t k1 = bucket t k0"
    and "length p0 = n0 + 2" and "n0 < 2 ^ 31" and "type_arg ty0 \<le> 2"
    and "length p1 = n1 + 2" and "n1 < 2 ^ 31" and "type_arg ty1 \<le> 2"
  shows "\<exists>is t'. run_handlers is
      ([(command_handler (StoreCommand False k0 ty0 n0 p0), w0), (command_handler (StoreCommand False k1 ty1 n1 p1), w1)], t) =
      Inr ([(Finish, REPLY_SUCCESS [] w0), (Finish, REPLY_SUCCESS [] w1)], t') \<and>
    entries t' = (entries t)(bucket t k0 \<mapsto> payload_entry k1 (type_arg ty1) (take n1 p1))"
proof -
  let ?h0 = "replace_handler k0 ty0 (int n0) (Some p0)" and ?h1 = "replace_handler k1 ty1 (int n1) (Some p1)"
  have looked: "run_handlers [0, 1]
      ([(command_handler (StoreCommand False k0 ty0 n0 p0), w0), (command_handler (StoreCommand False k1 ty1 n1 p1), w1)], t) =
      Inr ([(?h0, w0), (?h1, w1)], t)"
    using assms(1-3) by (simp add: store_handler_def handler_step_def hash_table_get_eq found_def)
  obtain t0 where t0: "run_handler ?h0 (w0\<lparr>w_table := t\<rparr>) = Inr (REPLY_SUCCESS [] (w0\<lparr>w_table := t0\<rparr>))"
    "ht_inv t0" "bucket t0 = bucket t" "entries t0 = (entries t)(bucket t k0 \<mapsto> payload_entry k0 (type_arg ty0) (take n0 p0))"
    using replace_finishes [OF assms(1,4,5,6)] by metis
  obtain t1 where t1: "run_handler ?h1 (w1\<lparr>w_table := t0\<rparr>) = Inr (REPLY_SUCCESS [] (w1\<lparr>w_table := t1\<rparr>))"
    "entries t1 = (entries t0)(bucket t0 k1 \<mapsto> payload_entry k1 (type_arg ty1) (take n1 p1))"
    using replace_finishes [OF t0(2) assms(7,8,9)] by metis
  note first = thread_finishes [OF confined_replace [OF assms(4,5), of "\<lambda>_. 0"] t0(1), of 0 "[(?h0, w0), (?h1, w1)]"]
  note second = thread_finishes [OF confined_replace [OF assms(7,8), of "\<lambda>_. 0"] t1(1), of 1 "[(Finish, REPLY_SUCCESS [] w0), (?h1, w1)]"]
  have "run_handlers ([0, 1] @ replicate 3 0 @ replicate 3 1)
      ([(command_handler (StoreCommand False k0 ty0 n0 p0), w0), (command_handler (StoreCommand False k1 ty1 n1 p1), w1)], t) =
      Inr ([(Finish, REPLY_SUCCESS [] w0), (Finish, REPLY_SUCCESS [] w1)], t1)"
    unfolding run_handlers_append looked using first second by (simp add: success_on_table) (simp add: reply_defs)
  moreover have "entries t1 = (entries t)(bucket t k0 \<mapsto> payload_entry k1 (type_arg ty1) (take n1 p1))"
    using t1(2) t0(3,4) assms(3) by simp
  ultimately show ?thesis by blast
qed

theorem both_adds_succeed_witness:
  "\<exists>is t'. run_handlers is
      ([(command_handler (StoreCommand False ''a'' ''2'' 1 ''xyz''), fresh_world (hash_table_create 10) []),
        (command_handler (StoreCommand False ''a'' ''2'' 2 ''vwyz''), fresh_world (hash_table_create 10) [])], hash_table_create 10) =
      Inr ([(Finish, REPLY_SUCCESS [] (fresh_world (hash_table_create 10) [])),
        (Finish, REPLY_SUCCESS [] (fresh_world (hash_table_create 10) []))], t') \<and>
    entries t' (bucket (hash_table_create 10) ''a'') = Some \<lparr>cv_key = ''a'', cv_type = 2, cv_value = VString ''vw'', cv_length = 2\<rparr>"
proof -
  let ?w = "fresh_world (hash_table_create 10) []"
  have ty: "type_arg ''2'' = 2" by code_simp
  have inv: "ht_inv (hash_table_create 10)" by (rule ht_create_inv) simp_all
  have e: "entries (hash_table_create 10) b = None" for b by (simp add: entries_def hash_table_create_def)
  have args: "length ''xyz'' = 1 + 2" "(1 :: nat) < 2 ^ 31" "length ''vwyz'' = 2 + 2" "(2 :: nat) < 2 ^ 31" "type_arg ''2'' \<le> 2"
    using ty by simp_all
  from both_adds_succeed [OF inv e refl args(1,2,5,3,4,5), where ?w0.0 = ?w and ?w1.0 = ?w and ?k0.0 = "''a''"]
  show ?thesis by (elim exE conjE) (intro exI conjI, assumption, simp add: ty payload_entry_def payload_value_def cache_types)
qed

text \<open>
  C30. SET of an existing key deletes it before it stores the new value: a GET of the same key
  from another client can be answered 404 although the key has a value before and after.
\<close>

theorem set_hides_key:
  assumes "ht_inv t" and "entries t (bucket t k0) \<noteq> None" and "bucket t k1 = bucket t k0"
    and "length p = n + 2" and "n < 2 ^ 31" and "type_arg ty \<le> 2"
  shows "\<exists>is t'. run_handlers is
      ([(command_handler (StoreCommand True k0 ty n p), w0), (command_handler (GetCommand k1), w1)], t) =
      Inr ([(Finish, REPLY_SUCCESS [] w0), (Finish, REPLY_NOT_FOUND w1)], t') \<and>
    entries t' = (entries t)(bucket t k0 \<mapsto> payload_entry k0 (type_arg ty) (take n p))"
proof -
  obtain t' where t': "run_handler (replace_handler k0 ty (int n) (Some p)) (w0\<lparr>w_table := t\<rparr>) =
      Inr (REPLY_SUCCESS [] (w0\<lparr>w_table := t'\<rparr>))"
    "entries t' = (entries t)(bucket t k0 \<mapsto> payload_entry k0 (type_arg ty) (take n p))"
    using replace_finishes [OF assms(1,4,5,6)] by metis
  obtain t1 where del: "hash_table_del t k0 = Inr (t1, entries t (bucket t k0) \<noteq> None)" "ht_inv t1"
    "entries t1 = (entries t)(bucket t k0 := None)" "bucket t1 = bucket t"
    using hash_table_del_ok [OF assms(1), of k0] by metis
  then have t1: "ht_exec t (OpDel k0) = Inr (t1, Done True)" using assms(2) by simp
  obtain rest where rest: "replace_handler k0 ty (int n) (Some p) = Table (OpDel k0) rest" by (simp add: replace_handler_def)
  have run: "run_handler (rest (Done True)) (w0\<lparr>w_table := t1\<rparr>) = Inr (REPLY_SUCCESS [] (w0\<lparr>w_table := t'\<rparr>))"
    using t'(1) t1 rest by simp
  have steps: "confined (bucket t) (bucket t k0) (rest (Done True)) 2"
    using confined_replace [OF assms(4,5), of "bucket t" k0 ty] rest by simp
  have get: "ht_exec t1 (OpGet k1) = Inr (t1, Found None)" using del(2-4) assms(3) by (simp add: hash_table_get_eq)
  have between: "run_handlers [0, 1, 1]
      ([(command_handler (StoreCommand True k0 ty n p), w0), (command_handler (GetCommand k1), w1)], t) =
      Inr ([(rest (Done True), w0), (Finish, REPLY_NOT_FOUND w1)], t1)"
    unfolding command_handler.simps store_handler_def get_handler_def rest using get t1
    by (simp add: handler_step_def found_def found_message_def reply_defs)
  note last = thread_finishes [OF steps run, of 0 "[(rest (Done True), w0), (Finish, REPLY_NOT_FOUND w1)]"]
  have "run_handlers ([0, 1, 1] @ replicate 2 0)
      ([(command_handler (StoreCommand True k0 ty n p), w0), (command_handler (GetCommand k1), w1)], t) =
      Inr ([(Finish, REPLY_SUCCESS [] w0), (Finish, REPLY_NOT_FOUND w1)], t')"
    unfolding run_handlers_append using between last by (simp add: success_on_table) (simp add: reply_defs)
  with t'(2) show ?thesis by blast
qed

theorem set_hides_key_witness:
  "\<exists>is t'. run_handlers is
      ([(command_handler (StoreCommand True ''n'' ''2'' 1 ''xyz''), fresh_world (one_counter 5) []),
        (command_handler (GetCommand ''n''), fresh_world (one_counter 5) [])], one_counter 5) =
      Inr ([(Finish, REPLY_SUCCESS [] (fresh_world (one_counter 5) [])), (Finish, REPLY_NOT_FOUND (fresh_world (one_counter 5) []))], t') \<and>
    entries t' 0 = Some \<lparr>cv_key = ''n'', cv_type = 2, cv_value = VString ''x'', cv_length = 1\<rparr>"
proof -
  let ?w = "fresh_world (one_counter 5) []"
  have ty: "type_arg ''2'' = 2" by code_simp
  have b: "entries (one_counter 5) (bucket (one_counter 5) ''n'') \<noteq> None" by (simp add: one_counter_inv)
  have args: "length ''xyz'' = 1 + 2" "(1 :: nat) < 2 ^ 31" "type_arg ''2'' \<le> 2" using ty by simp_all
  from set_hides_key [OF one_counter_inv(1) b refl args, where ?w0.0 = ?w and ?w1.0 = ?w]
  show ?thesis
    by (elim exE conjE)
      (intro exI conjI, assumption, simp add: ty payload_entry_def payload_value_def cache_types one_counter_inv)
qed

end
