(* ===== verification/Client_Recv.thy ===== *)
theory Client_Recv
  imports Requests
begin

text \<open>
  \<open>memuncached_recv\<close> of libmemuncached.c: the client library reads a reply into its buffer,
  which it keeps from call to call and grows with \<open>realloc\<close>, and leaves pointers to the parts
  of the reply in the client's record. The lemmas show when the parser returns what the
  server has sent, and how a buffer that moves breaks it.
\<close>

section \<open>State\<close>

text \<open>
  The record of a client. The block of the buffer is \<open>mc_buffer\<close>, and \<open>mc_buffer_size\<close> the size
  the code assumes. Pointers into the buffer are offsets, \<open>None\<close> for \<open>NULL\<close>. The socket is
  passed separately.
\<close>

record memuncached_client =
  mc_buffer :: string
  mc_buffer_size :: int
  mc_code :: int32
  mc_description :: "nat option"
  mc_body_size :: size_t
  mc_body :: "nat option"
  mc_body_type :: "8 word"

text \<open>
  The locals of \<open>memuncached_recv\<close>. \<open>line_start\<close> is the one pointer that is not adjusted after
  \<open>realloc\<close>: \<open>r_stale\<close> says that it points into a block that is gone.
\<close>

record reader =
  r_client :: memuncached_client
  r_total_size :: nat
  r_payload_read_size :: nat
  r_line_number :: nat
  r_line_start :: nat
  r_stale :: bool

text \<open>
  What a \<open>realloc\<close> to a new size does, and the bytes found in the new part of a block.
\<close>

datatype growth = Fails | InPlace | Moves

record client_env =
  ce_realloc :: "nat \<Rightarrow> growth"
  ce_junk :: "nat \<Rightarrow> char"

section \<open>Scanning a line\<close>

definition find_break :: "string \<Rightarrow> nat \<Rightarrow> nat \<Rightarrow> nat option" where
  "find_break b i e = (case dropWhile (\<lambda>j. b ! j \<noteq> LF) [i..<e] of [] \<Rightarrow> None | j # _ \<Rightarrow> Some j)"

definition last_space :: "string \<Rightarrow> nat \<Rightarrow> nat \<Rightarrow> nat option" where
  "last_space b i e = (case filter (\<lambda>j. b ! j = SP) [i..<e] of [] \<Rightarrow> None | j # js \<Rightarrow> Some (last (j # js)))"

text \<open>The first line: code and description.\<close>

definition parse_status_line :: "reader \<Rightarrow> reader res" where
  "parse_status_line r =
     (if r_line_number r \<noteq> 0 then Inr r
      else if r_stale r then Inl DanglingAccess
      else
        let c = r_client r; start = r_line_start r
        in case find_break (mc_buffer c) start (r_total_size r) of
             None \<Rightarrow> Inr r
           | Some i \<Rightarrow>
               if i = 0 \<or> length (mc_buffer c) \<le> start + 3 then Inl OutOfBounds
               else
                 let b = (mc_buffer c)[i - 1 := NUL, start + 3 := NUL]
                 in Inr (r\<lparr>r_line_number := 1, r_line_start := i + 1,
                      r_client := c\<lparr>mc_buffer := b, mc_code := atoi (drop start b),
                        mc_description := Some (start + 4)\<rparr>\<rparr>))"

text \<open>
  The second line: the size of the body and, behind a space, its type. The result has the
  value of \<open>read_size\<close> after it.
\<close>

definition parse_size_line :: "nat \<Rightarrow> reader \<Rightarrow> (reader \<times> nat) res" where
  "parse_size_line read_size r =
     (if r_line_number r \<noteq> 1 then Inr (r, read_size)
      else if r_stale r then Inl DanglingAccess
      else
        let c = r_client r; start = r_line_start r
        in case find_break (mc_buffer c) start (r_total_size r) of
             None \<Rightarrow> Inr (r, read_size)
           | Some i \<Rightarrow>
               if i = 0 then Inl OutOfBounds
               else
                 let b = (mc_buffer c)[i - 1 := NUL];
                     whitespace = last_space (mc_buffer c) start i;
                     b' = (case whitespace of None \<Rightarrow> b | Some j \<Rightarrow> b[j := NUL]);
                     type = (case whitespace of None \<Rightarrow> mc_body_type c
                             | Some j \<Rightarrow> ucast (atoi (drop (j + 1) b')))
                 in Inr (r\<lparr>r_line_number := 2, r_line_start := i + 1,
                      r_client := c\<lparr>mc_buffer := b', mc_body_type := type,
                        mc_body_size := scast (atoi (drop start b')), mc_body := Some (i + 1)\<rparr>\<rparr>,
                      r_total_size r - (i + 1)))"

section \<open>A round of the loop\<close>

text \<open>\<open>recv\<close> has written \<open>s\<close> behind the bytes received so far.\<close>

definition store_chunk :: "string \<Rightarrow> reader \<Rightarrow> reader res" where
  "store_chunk s r =
     (let c = r_client r
      in if length (mc_buffer c) < r_total_size r + length s then Inl OutOfBounds
         else Inr (r\<lparr>r_total_size := r_total_size r + length s,
                r_client := c\<lparr>mc_buffer := write_at (r_total_size r) s (mc_buffer c)\<rparr>\<rparr>))"

text \<open>
  Growing a full buffer; \<open>False\<close> is the failure of \<open>realloc\<close>. \<open>description\<close> and \<open>body\<close> are
  offsets here, as the code moves them along with the block.
\<close>

definition grow_buffer :: "client_env \<Rightarrow> reader \<Rightarrow> (reader \<times> bool) res" where
  "grow_buffer env r =
     (let c = r_client r; free_len = mc_buffer_size c - (int (r_total_size r) + 1);
          size = mc_buffer_size c * 2
      in if 0 \<le> free_len then Inr (r, True)
         else if 2 ^ 31 \<le> size then Inl SignedOverflow
         else
           case ce_realloc env (nat size) of
             Fails \<Rightarrow> Inr (r\<lparr>r_client := c\<lparr>mc_buffer_size := size\<rparr>\<rparr>, False)
           | g \<Rightarrow> Inr (r\<lparr>r_stale := (r_stale r \<or> g = Moves),
                   r_client := c\<lparr>mc_buffer_size := size,
                     mc_buffer := mc_buffer c @ map (ce_junk env) [length (mc_buffer c)..<nat size]\<rparr>\<rparr>, True))"

text \<open>\<open>Some b\<close> is the return of \<open>b\<close>, \<open>None\<close> the next round.\<close>

definition count_payload :: "client_env \<Rightarrow> nat \<Rightarrow> reader \<Rightarrow> (reader \<times> bool option) res" where
  "count_payload env read_size r =
     (let r = (if r_line_number r = 2
               then r\<lparr>r_payload_read_size := r_payload_read_size r + read_size\<rparr> else r)
      in if r_line_number r = 2 \<and> mc_body_size (r_client r) + 3 \<le> of_nat (r_payload_read_size r)
         then Inr (r, Some True)
         else map_res (\<lambda>(r, ok). (r, if ok then None else Some False)) (grow_buffer env r))"

definition recv_round :: "client_env \<Rightarrow> string \<Rightarrow> reader \<Rightarrow> (reader \<times> bool option) res" where
  "recv_round env s r =
     bind_res (store_chunk s r) (\<lambda>r.
     bind_res (parse_status_line r) (\<lambda>r.
     bind_res (parse_size_line (length s) r) (\<lambda>(r, read_size).
     count_payload env read_size r)))"

lemma recv_shrinks:
  assumes "(Some s, es') = recv n es" and "s \<noteq> []"
  shows "pending es' < pending es"
proof -
  have "0 < n" using recv_bound [OF assms(1) [symmetric]] assms(2) by (cases n) auto
  with recv_pending [OF assms(1) [symmetric]] assms(2) show ?thesis by simp
qed

function recv_loop :: "client_env \<Rightarrow> reader \<Rightarrow> event list \<Rightarrow> (memuncached_client \<times> event list \<times> bool) res" where
  "recv_loop env r es =
     (case recv (nat (mc_buffer_size (r_client r) - int (r_total_size r))) es of
        (None, es') \<Rightarrow> Inr (r_client r, es', False)
      | (Some s, es') \<Rightarrow>
          if s = [] then Inr (r_client r, es', False)
          else bind_res (recv_round env s r) (\<lambda>(r, result).
            case result of
              Some ok \<Rightarrow> Inr (r_client r, es', ok)
            | None \<Rightarrow> recv_loop env r es'))"
  by pat_completeness auto

termination by (relation "measure (\<lambda>(env, r, es). pending es)") (auto dest: recv_shrinks)

declare recv_loop.simps [simp del]

definition memuncached_recv ::
    "client_env \<Rightarrow> memuncached_client \<Rightarrow> event list \<Rightarrow> (memuncached_client \<times> event list \<times> bool) res" where
  "memuncached_recv env c es =
     (let c = c\<lparr>mc_body := None, mc_body_size := 0, mc_body_type := 0, mc_code := 0, mc_description := None\<rparr>
      in recv_loop env
        \<lparr>r_client = c, r_total_size = 0, r_payload_read_size = 0, r_line_number = 0, r_line_start = 0,
         r_stale = False\<rparr> es)"

section \<open>Scanning finds line breaks and spaces\<close>

lemma upt_split: "i \<le> j \<Longrightarrow> j < e \<Longrightarrow> [i..<e] = [i..<j] @ j # [Suc j..<e]"
  by (metis le_add_diff_inverse upt_add_eq_append upt_conv_Cons less_imp_le_nat)

lemma nth_middle: "length x = i \<Longrightarrow> i \<le> j \<Longrightarrow> j < i + length y \<Longrightarrow> (x @ y @ t) ! j \<in> set y"
  by (auto simp: nth_append)

lemma find_break_None:
  assumes "length x = i" and "LF \<notin> set y"
  shows "find_break (x @ y @ t) i (i + length y) = None"
proof -
  have "(x @ y @ t) ! j \<noteq> LF" if "j \<in> set [i..<i + length y]" for j
    using nth_middle [OF assms(1), of j y t] that assms(2) by auto
  then have "dropWhile (\<lambda>j. (x @ y @ t) ! j \<noteq> LF) [i..<i + length y] = []"
    unfolding dropWhile_eq_Nil_conv by blast
  then show ?thesis unfolding find_break_def by (simp only: list.case)
qed

lemma find_break_Some:
  assumes "length x = i" and "LF \<notin> set u" and "e = i + length (u @ LF # v)"
  shows "find_break (x @ (u @ LF # v) @ t) i e = Some (i + length u)"
proof -
  let ?b = "x @ (u @ LF # v) @ t" and ?j = "i + length u"
  have split: "[i..<e] = [i..<?j] @ ?j # [Suc ?j..<e]" using assms(3) by (intro upt_split) simp_all
  have "?b ! j \<noteq> LF" if "j \<in> set [i..<?j]" for j
    using nth_middle [OF assms(1), of j u "LF # v @ t"] that assms(2) by auto
  moreover have "?b ! ?j = LF" using assms(1) by (simp add: nth_append)
  ultimately have "dropWhile (\<lambda>j. ?b ! j \<noteq> LF) [i..<e] = ?j # [Suc ?j..<e]"
    unfolding split by (subst dropWhile_append2) simp_all
  then show ?thesis by (simp add: find_break_def)
qed

lemma last_space_None:
  assumes "length x = i" and "SP \<notin> set y"
  shows "last_space (x @ y @ t) i (i + length y) = None"
proof -
  have "(x @ y @ t) ! j \<noteq> SP" if "j \<in> set [i..<i + length y]" for j
    using nth_middle [OF assms(1), of j y t] that assms(2) by auto
  then have "filter (\<lambda>j. (x @ y @ t) ! j = SP) [i..<i + length y] = []" unfolding filter_empty_conv by blast
  then show ?thesis by (simp add: last_space_def)
qed

lemma last_space_Some:
  assumes "length x = i" and "SP \<notin> set v" and "e = i + length (u @ SP # v)"
  shows "last_space (x @ (u @ SP # v) @ t) i e = Some (i + length u)"
proof -
  let ?b = "x @ (u @ SP # v) @ t" and ?j = "i + length u"
  have split: "[i..<e] = [i..<?j] @ ?j # [Suc ?j..<e]" using assms(3) by (intro upt_split) simp_all
  have "?b ! j \<noteq> SP" if "j \<in> set [Suc ?j..<e]" for j
  proof -
    have "length (x @ u @ [SP]) = Suc ?j" using assms(1) by simp
    from nth_middle [OF this, of j v t] have "?b ! j \<in> set v" using that assms(3) by auto
    with assms(2) show ?thesis by auto
  qed
  then have none: "filter (\<lambda>j. ?b ! j = SP) [Suc ?j..<e] = []" unfolding filter_empty_conv by blast
  have "?b ! ?j = SP" using assms(1) by (simp add: nth_append)
  then have "filter (\<lambda>j. ?b ! j = SP) [i..<e] = filter (\<lambda>j. ?b ! j = SP) [i..<?j] @ [?j]"
    unfolding split filter_append using none by simp
  then show ?thesis by (simp add: last_space_def split: list.split)
    (metis append_is_Nil_conv last.simps last_appendR list.distinct(1) last_snoc)
qed

section \<open>The buffer while a reply arrives\<close>

text \<open>The bytes \<open>x\<close> are at the start of the buffer, some overwritten by terminators.\<close>

definition holds :: "reader \<Rightarrow> string \<Rightarrow> bool" where
  "holds r x \<longleftrightarrow> (\<exists>t. mc_buffer (r_client r) = x @ t) \<and> r_total_size r = length x \<and>
     mc_buffer_size (r_client r) = int (length (mc_buffer (r_client r)))"

lemma store_chunk_holds:
  assumes "holds r x" and "int (length x + length s) \<le> mc_buffer_size (r_client r)"
  shows "\<exists>b. store_chunk s r = Inr (r\<lparr>r_total_size := length x + length s, r_client := r_client r\<lparr>mc_buffer := b\<rparr>\<rparr>) \<and>
    holds (r\<lparr>r_total_size := length x + length s, r_client := r_client r\<lparr>mc_buffer := b\<rparr>\<rparr>) (x @ s)"
proof -
  obtain t where t: "mc_buffer (r_client r) = x @ t" using assms(1) by (auto simp: holds_def)
  have len: "length s \<le> length t" using assms t by (simp add: holds_def)
  then have w: "write_at (length x) s (x @ t) = x @ s @ drop (length s) t" by (simp add: write_at_append)
  show ?thesis
    using assms t len w by (intro exI [of _ "x @ s @ drop (length s) t"]) (simp add: store_chunk_def holds_def Let_def)
qed

section \<open>The lines of a reply\<close>

text \<open>
  A reply of the server: a code of three digits and its description, the size of the body with
  an optional type, the body, a zero byte and a line break.
\<close>

record reply =
  rp_code :: string
  rp_description :: string
  rp_type :: "nat option"
  rp_body :: string

definition status_line :: "reply \<Rightarrow> string" where
  "status_line rp = rp_code rp @ SP # rp_description rp"

definition size_line :: "reply \<Rightarrow> string" where
  "size_line rp = fmt_d (int (length (rp_body rp))) @ (case rp_type rp of None \<Rightarrow> [] | Some t \<Rightarrow> SP # fmt_d (int t))"

definition reply_text :: "reply \<Rightarrow> string" where
  "reply_text rp = status_line rp @ CRLF @ size_line rp @ CRLF @ rp_body rp @ [NUL, CR, LF]"

definition reply_ok :: "reply \<Rightarrow> bool" where
  "reply_ok rp \<longleftrightarrow> length (rp_code rp) = 3 \<and> list_all isdigit (rp_code rp) \<and> no_break (rp_description rp) \<and>
     (\<forall>t. rp_type rp = Some t \<longrightarrow> t < 128) \<and> 4 * length (reply_text rp) < 2 ^ 31"

definition start_reader :: "memuncached_client \<Rightarrow> reader" where
  "start_reader c =
     \<lparr>r_client = c\<lparr>mc_body := None, mc_body_size := 0, mc_body_type := 0, mc_code := 0, mc_description := None\<rparr>,
      r_total_size = 0, r_payload_read_size = 0, r_line_number = 0, r_line_start = 0, r_stale = False\<rparr>"

text \<open>The three phases of reading, with the bytes of the current line that have arrived.\<close>

definition phase0 :: "reader \<Rightarrow> string \<Rightarrow> bool" where
  "phase0 r x \<longleftrightarrow> holds r x \<and> r_line_number r = 0 \<and> r_line_start r = 0 \<and> \<not> r_stale r \<and>
     r_payload_read_size r = 0 \<and> mc_body_type (r_client r) = 0"

definition phase1 :: "reply \<Rightarrow> reader \<Rightarrow> string \<Rightarrow> bool" where
  "phase1 rp r x \<longleftrightarrow> (\<exists>h. holds r (h @ x) \<and> length h = length (status_line rp @ CRLF) \<and> r_line_start r = length h) \<and>
     r_line_number r = 1 \<and> \<not> r_stale r \<and> r_payload_read_size r = 0 \<and> mc_body_type (r_client r) = 0 \<and>
     mc_code (r_client r) = atoi (rp_code rp)"

definition phase2 :: "reply \<Rightarrow> reader \<Rightarrow> string \<Rightarrow> bool" where
  "phase2 rp r x \<longleftrightarrow> (\<exists>h. holds r (h @ x) \<and> length h = length (status_line rp @ CRLF @ size_line rp @ CRLF) \<and>
       mc_body (r_client r) = Some (length h)) \<and>
     r_line_number r = 2 \<and> mc_code (r_client r) = atoi (rp_code rp) \<and>
     mc_body_size (r_client r) = of_nat (length (rp_body rp)) \<and>
     mc_body_type (r_client r) = (case rp_type rp of None \<Rightarrow> 0 | Some t \<Rightarrow> of_nat t)"

lemma no_digit_NUL: "no_digit (NUL # t)"
  by (simp add: no_digit_def)

lemma atoi_digits_end:
  assumes "list_all isdigit s" and "s \<noteq> []"
  shows "atoi (s @ NUL # t) = atoi s"
proof -
  obtain c u where s: "s = c # u" "isdigit c" using assms by (cases s) auto
  have "takeWhile isdigit (s @ NUL # t) = s" "takeWhile isdigit s = s"
    using assms(1) by (simp_all add: list_all_iff takeWhile_append2 takeWhile_eq_all_conv)
  then have "strtol_digits (s @ NUL # t) = strtol_digits s" unfolding strtol_digits_def by (simp only:)
  then show ?thesis using s by (simp add: atoi_def strtol_int_def)
qed

lemma atoi_nat: "n < 2 ^ 31 \<Longrightarrow> atoi (fmt_d (int n) @ NUL # t) = of_nat n"
  using strtol_int_fmt_d [OF no_digit_NUL, of "int n" t] by (simp add: atoi_def clamp64_id)

lemma size_of_atoi: "n < 2 ^ 31 \<Longrightarrow> (scast (of_nat n :: int32) :: size_t) = of_nat n"
proof -
  assume n: "n < 2 ^ 31"
  then have "sint (word_of_int (int n) :: int32) = int n" by (intro sint_word_of_int32) simp_all
  then show ?thesis by (simp add: scast_eq)
qed

lemma type_of_atoi: "t < 128 \<Longrightarrow> (ucast (of_nat t :: int32) :: 8 word) = of_nat t"
  by (simp add: unsigned_of_nat take_bit_nat_eq_self)

lemma no_LF [simp]: "LF \<notin> set (fmt_d i)" "SP \<notin> set (fmt_d i)" "CR \<notin> set (fmt_d i)"
  using fmt_d_chars [of _ i] by fastforce+

lemma lines_no_LF:
  assumes "reply_ok rp"
  shows "LF \<notin> set (status_line rp @ [CR])" "LF \<notin> set (size_line rp @ [CR])"
  using assms by (auto simp: reply_ok_def status_line_def size_line_def no_break_def list_all_iff split: option.splits)

lemma parse_status_line_waits:
  assumes "phase0 r x" and "LF \<notin> set x"
  shows "parse_status_line r = Inr r"
proof -
  obtain t where t: "mc_buffer (r_client r) = [] @ x @ t" "r_total_size r = 0 + length x"
    using assms(1) by (auto simp: phase0_def holds_def)
  have "find_break ([] @ x @ t) 0 (0 + length x) = None" using assms(2) by (intro find_break_None) simp_all
  with assms(1) t show ?thesis by (simp add: parse_status_line_def phase0_def Let_def)
qed

lemma parse_status_line_ends:
  assumes "phase0 r (status_line rp @ CRLF @ q)" and "reply_ok rp"
  shows "\<exists>r'. parse_status_line r = Inr r' \<and> phase1 rp r' q"
proof -
  let ?l = "status_line rp"
  obtain t where t: "mc_buffer (r_client r) = [] @ ((?l @ [CR]) @ LF # q) @ t"
      "r_total_size r = 0 + length ((?l @ [CR]) @ LF # q)"
      "mc_buffer_size (r_client r) = int (length (mc_buffer (r_client r)))"
    using assms(1) by (auto simp: phase0_def holds_def CRLF_def)
  have code: "length (rp_code rp) = 3" "list_all isdigit (rp_code rp)" "rp_code rp \<noteq> []"
    using assms(2) by (auto simp: reply_ok_def)
  have find: "find_break ([] @ ((?l @ [CR]) @ LF # q) @ t) 0 (r_total_size r) = Some (0 + length (?l @ [CR]))"
    using lines_no_LF(1) [OF assms(2)] t(2) by (intro find_break_Some) simp_all
  let ?h = "rp_code rp @ NUL # rp_description rp @ [NUL, LF]"
  have b: "(((?l @ [CR]) @ LF # q) @ t)[length ?l := NUL, 3 := NUL] = ?h @ q @ t"
    using code(1) by (simp add: status_line_def list_update_append)
  let ?c = "r_client r"
  let ?r = "r\<lparr>r_line_number := 1, r_line_start := length ?l + 2,
      r_client := ?c\<lparr>mc_buffer := ?h @ q @ t, mc_code := atoi (rp_code rp), mc_description := Some 4\<rparr>\<rparr>"
  have "atoi (?h @ q @ t) = atoi (rp_code rp)" using atoi_digits_end [OF code(2,3)] by simp
  then have "parse_status_line r = Inr ?r"
    using assms(1) find b t(1) code(1)
    by (simp add: parse_status_line_def phase0_def Let_def status_line_def)
  moreover have "holds ?r (?h @ q)"
    using t code(1) unfolding holds_def by (intro conjI exI [of _ t]) (simp_all add: status_line_def)
  then have "phase1 rp ?r q"
    using assms(1) code(1) unfolding phase1_def
    by (intro conjI exI [of _ ?h]) (simp_all add: phase0_def status_line_def CRLF_def)
  ultimately show ?thesis by blast
qed

lemma parse_size_line_waits:
  assumes "phase1 rp r x" and "LF \<notin> set x"
  shows "parse_size_line k r = Inr (r, k)"
proof -
  obtain h t where t: "mc_buffer (r_client r) = h @ x @ t" "r_total_size r = length h + length x" "r_line_start r = length h"
    using assms(1) by (auto simp: phase1_def holds_def)
  have "find_break (h @ x @ t) (length h) (length h + length x) = None" using assms(2) by (intro find_break_None) simp_all
  with assms(1) t show ?thesis by (simp add: parse_size_line_def phase1_def Let_def)
qed

lemma parse_size_line_ends:
  assumes "phase1 rp r (size_line rp @ CRLF @ q)" and "reply_ok rp"
  shows "\<exists>r'. parse_size_line k r = Inr (r', length q) \<and> phase2 rp r' q \<and> r_payload_read_size r' = 0"
proof -
  let ?l = "size_line rp" and ?c = "r_client r" and ?n = "fmt_d (int (length (rp_body rp)))"
  obtain h t where t: "mc_buffer ?c = h @ ((?l @ [CR]) @ LF # q) @ t"
      "r_total_size r = length h + length ((?l @ [CR]) @ LF # q)" "r_line_start r = length h"
      "mc_buffer_size ?c = int (length (mc_buffer ?c))" "length h = length (status_line rp @ CRLF)"
    using assms(1) by (auto simp: phase1_def holds_def CRLF_def)
  have n: "length (rp_body rp) < 2 ^ 31" using assms(2) by (simp add: reply_ok_def reply_text_def)
  have find: "find_break (h @ ((?l @ [CR]) @ LF # q) @ t) (length h) (r_total_size r) = Some (length h + length (?l @ [CR]))"
    using lines_no_LF(2) [OF assms(2)] t(2) by (intro find_break_Some) simp_all
  have goal: ?thesis if
    b: "(case last_space (mc_buffer ?c) (length h) (length h + length (?l @ [CR])) of
          None \<Rightarrow> (mc_buffer ?c)[length h + length ?l := NUL]
        | Some j \<Rightarrow> (mc_buffer ?c)[length h + length ?l := NUL, j := NUL]) = h @ m @ [NUL, LF] @ q @ t"
    and m: "length m = length ?l" "atoi (m @ [NUL, LF] @ q @ t) = of_nat (length (rp_body rp))"
    and ty: "(case last_space (mc_buffer ?c) (length h) (length h + length (?l @ [CR])) of
          None \<Rightarrow> mc_body_type ?c
        | Some j \<Rightarrow> ucast (atoi (drop (j + 1) (h @ m @ [NUL, LF] @ q @ t)))) = (case rp_type rp of None \<Rightarrow> 0 | Some t \<Rightarrow> of_nat t)"
    for m
  proof -
    let ?b = "h @ m @ [NUL, LF] @ q @ t" and ?i = "length h + length ?l + 2"
    let ?r = "r\<lparr>r_line_number := 2, r_line_start := ?i,
      r_client := ?c\<lparr>mc_buffer := ?b, mc_body_type := (case rp_type rp of None \<Rightarrow> 0 | Some t \<Rightarrow> of_nat t),
        mc_body_size := of_nat (length (rp_body rp)), mc_body := Some ?i\<rparr>\<rparr>"
    have "parse_size_line k r = Inr (?r, length q)"
      using assms(1) find t(1-3) b ty m size_of_atoi [OF n]
      by (cases "last_space (mc_buffer ?c) (length h) (length h + length (?l @ [CR]))")
        (simp_all add: parse_size_line_def phase1_def Let_def del: drop_update_cancel)
    moreover have "holds ?r ((h @ m @ [NUL, LF]) @ q)"
      using t m(1) unfolding holds_def by (intro conjI exI [of _ t]) simp_all
    then have "phase2 rp ?r q"
      using assms(1) t(5) m(1) unfolding phase2_def
      by (intro conjI exI [of _ "h @ m @ [NUL, LF]"]) (simp_all add: phase1_def CRLF_def)
    moreover have "r_payload_read_size ?r = 0" using assms(1) by (simp add: phase1_def)
    ultimately show ?thesis by blast
  qed
  show ?thesis
  proof (cases "rp_type rp")
    case None
    then have l: "?l = ?n" by (simp add: size_line_def)
    have "last_space (h @ (?l @ [CR]) @ (LF # q) @ t) (length h) (length h + length (?l @ [CR])) = None"
      unfolding l by (intro last_space_None) simp_all
    then have s: "last_space (mc_buffer ?c) (length h) (length h + length (?l @ [CR])) = None" using t(1) by simp
    show ?thesis
    proof (rule goal [of ?l])
      show "atoi (?l @ [NUL, LF] @ q @ t) = of_nat (length (rp_body rp))" unfolding l using atoi_nat [OF n] by simp
    qed (use s t(1) None assms(1) in \<open>simp_all add: list_update_append phase1_def\<close>)
  next
    case (Some ty)
    let ?t = "fmt_d (int ty)"
    have l: "?l = ?n @ SP # ?t" using Some by (simp add: size_line_def)
    have "last_space (h @ (?n @ SP # ?t @ [CR]) @ (LF # q) @ t) (length h) (length h + length (?l @ [CR])) = Some (length h + length ?n)"
      unfolding l by (intro last_space_Some) simp_all
    then have s: "last_space (mc_buffer ?c) (length h) (length h + length (?l @ [CR])) = Some (length h + length ?n)"
      using t(1) l by simp
    have ty: "ty < 128" using assms(2) Some by (simp add: reply_ok_def)
    have at: "atoi (?t @ NUL # LF # q @ t) = of_nat ty" using ty by (intro atoi_nat) simp
    show ?thesis
    proof (rule goal [of "?n @ NUL # ?t"])
      show "atoi ((?n @ NUL # ?t) @ [NUL, LF] @ q @ t) = of_nat (length (rp_body rp))" using atoi_nat [OF n] by simp
      show "(case last_space (mc_buffer ?c) (length h) (length h + length (?l @ [CR])) of
          None \<Rightarrow> mc_body_type ?c
        | Some j \<Rightarrow> ucast (atoi (drop (j + 1) (h @ (?n @ NUL # ?t) @ [NUL, LF] @ q @ t)))) =
        (case rp_type rp of None \<Rightarrow> 0 | Some t \<Rightarrow> of_nat t)"
        unfolding s using at type_of_atoi [OF ty] Some by simp
    qed (use s t(1) l in \<open>simp_all add: list_update_append\<close>)
  qed
qed

section \<open>Rounds\<close>

definition header_size :: "reply \<Rightarrow> nat" where
  "header_size rp = length (status_line rp @ CRLF @ size_line rp @ CRLF)"

text \<open>Allocation succeeds, and does not move the buffer while the header is read.\<close>

definition steady :: "client_env \<Rightarrow> reply \<Rightarrow> bool" where
  "steady env rp \<longleftrightarrow> (\<forall>n. ce_realloc env n \<noteq> Fails) \<and> (\<forall>n \<le> 2 * header_size rp. ce_realloc env n \<noteq> Moves)"

definition reading :: "reply \<Rightarrow> reader \<Rightarrow> string \<Rightarrow> bool" where
  "reading rp r got \<longleftrightarrow>
     phase0 r got \<and> LF \<notin> set got \<or>
     (\<exists>q. got = status_line rp @ CRLF @ q \<and> phase1 rp r q \<and> LF \<notin> set q) \<or>
     (\<exists>q. got = status_line rp @ CRLF @ size_line rp @ CRLF @ q \<and> phase2 rp r q \<and>
       r_payload_read_size r = length q)"

lemma grow_buffer_ok:
  assumes "holds r x" and "4 * length x < 2 ^ 31" and "\<forall>n. ce_realloc env n \<noteq> Fails" and "x \<noteq> []"
  shows "\<exists>stale size b. grow_buffer env r = Inr (r\<lparr>r_stale := stale,
        r_client := (r_client r)\<lparr>mc_buffer_size := size, mc_buffer := mc_buffer (r_client r) @ b\<rparr>\<rparr>, True) \<and>
    holds (r\<lparr>r_stale := stale, r_client := (r_client r)\<lparr>mc_buffer_size := size, mc_buffer := mc_buffer (r_client r) @ b\<rparr>\<rparr>) x \<and>
    int (length x) < size \<and> (stale \<longrightarrow> r_stale r \<or> (\<exists>n \<le> 2 * length x. ce_realloc env n = Moves))"
proof -
  obtain t where t: "mc_buffer (r_client r) = x @ t" "r_total_size r = length x"
    "mc_buffer_size (r_client r) = int (length x + length t)" using assms(1) by (auto simp: holds_def)
  show ?thesis
  proof (cases t)
    case (Cons c u)
    with t assms(1) show ?thesis
      by (intro exI [of _ "r_stale r"] exI [of _ "mc_buffer_size (r_client r)"] exI [of _ "[]"])
        (simp add: grow_buffer_def holds_def)
  next
    case Nil
    let ?n = "2 * length x" and ?st = "r_stale r \<or> ce_realloc env (2 * length x) = Moves"
    let ?b = "map (ce_junk env) [length x..<?n]"
    have n: "nat (int (length x) * 2) = ?n" by simp
    have "grow_buffer env r = Inr (r\<lparr>r_stale := ?st,
        r_client := (r_client r)\<lparr>mc_buffer_size := int ?n, mc_buffer := mc_buffer (r_client r) @ ?b\<rparr>\<rparr>, True)"
      using t Nil assms(2,3) by (cases "ce_realloc env ?n") (simp_all add: grow_buffer_def Let_def n mult.commute)
    moreover have "int (length x) < int ?n" using assms(4) by simp
    ultimately show ?thesis using t Nil
      by (intro exI [of _ ?st] exI [of _ "int ?n"] exI [of _ ?b]) (auto simp: holds_def)
  qed
qed

definition reply_tail :: "reply \<Rightarrow> string" where
  "reply_tail rp = rp_body rp @ [NUL, CR, LF]"

lemma reply_text_alt: "reply_text rp = status_line rp @ CRLF @ size_line rp @ CRLF @ reply_tail rp"
  by (simp add: reply_text_def reply_tail_def)

text \<open>The end of a round that does not complete the reply.\<close>

lemma grow_reading:
  assumes "reading rp r got" and "got \<noteq> []" and "4 * length got < 2 ^ 31" and "steady env rp"
    and "r_line_number r \<noteq> 2 \<Longrightarrow> length got \<le> header_size rp"
  shows "\<exists>r'. map_res (\<lambda>(r, ok). (r, if ok then None else Some False)) (grow_buffer env r) = Inr (r', None) \<and>
    reading rp r' got \<and> int (length got) < mc_buffer_size (r_client r')"
proof -
  have st: "\<forall>n. ce_realloc env n \<noteq> Fails" using assms(4) by (simp add: steady_def)
  obtain x where x: "holds r x" "length x = length got"
    using assms(1) by (auto simp: reading_def phase0_def phase1_def phase2_def header_size_def)
  have xs: "4 * length x < 2 ^ 31" "x \<noteq> []" using x(2) assms(2,3) by auto
  obtain stale size b where g: "grow_buffer env r = Inr (r\<lparr>r_stale := stale,
        r_client := (r_client r)\<lparr>mc_buffer_size := size, mc_buffer := mc_buffer (r_client r) @ b\<rparr>\<rparr>, True)"
    "int (length x) < size" "stale \<longrightarrow> r_stale r \<or> (\<exists>n \<le> 2 * length x. ce_realloc env n = Moves)"
    "holds (r\<lparr>r_stale := stale, r_client := (r_client r)\<lparr>mc_buffer_size := size, mc_buffer := mc_buffer (r_client r) @ b\<rparr>\<rparr>) x"
    using grow_buffer_ok [OF x(1) xs(1) st xs(2)] by blast
  let ?r = "r\<lparr>r_stale := stale, r_client := (r_client r)\<lparr>mc_buffer_size := size, mc_buffer := mc_buffer (r_client r) @ b\<rparr>\<rparr>"
  have fresh: "\<not> stale" if "r_line_number r \<noteq> 2" "\<not> r_stale r"
    using g(3) that assms(4,5) x(2) by (auto simp: steady_def)
  have holds: "holds ?r y" if "holds r y" for y
  proof -
    have "mc_buffer_size (r_client ?r) = int (length (mc_buffer (r_client ?r)))" using g(4) by (simp add: holds_def)
    with that show ?thesis by (auto simp: holds_def)
  qed
  have "reading rp ?r got"
    using assms(1) unfolding reading_def
  proof (elim disjE exE conjE)
    assume "phase0 r got" "LF \<notin> set got"
    then have "phase0 ?r got" using holds fresh by (simp add: phase0_def)
    then show "phase0 ?r got \<and> LF \<notin> set got \<or>
      (\<exists>q. got = status_line rp @ CRLF @ q \<and> phase1 rp ?r q \<and> LF \<notin> set q) \<or>
      (\<exists>q. got = status_line rp @ CRLF @ size_line rp @ CRLF @ q \<and> phase2 rp ?r q \<and> r_payload_read_size ?r = length q)"
      using \<open>LF \<notin> set got\<close> by blast
  next
    fix q assume q: "got = status_line rp @ CRLF @ q" "phase1 rp r q" "LF \<notin> set q"
    then have "phase1 rp ?r q" using holds fresh by (auto simp: phase1_def)
    then show "phase0 ?r got \<and> LF \<notin> set got \<or>
      (\<exists>q. got = status_line rp @ CRLF @ q \<and> phase1 rp ?r q \<and> LF \<notin> set q) \<or>
      (\<exists>q. got = status_line rp @ CRLF @ size_line rp @ CRLF @ q \<and> phase2 rp ?r q \<and> r_payload_read_size ?r = length q)"
      using q by blast
  next
    fix q assume q: "got = status_line rp @ CRLF @ size_line rp @ CRLF @ q" "phase2 rp r q" "r_payload_read_size r = length q"
    then have "phase2 rp ?r q" using holds by (auto simp: phase2_def)
    then show "phase0 ?r got \<and> LF \<notin> set got \<or>
      (\<exists>q. got = status_line rp @ CRLF @ q \<and> phase1 rp ?r q \<and> LF \<notin> set q) \<or>
      (\<exists>q. got = status_line rp @ CRLF @ size_line rp @ CRLF @ q \<and> phase2 rp ?r q \<and> r_payload_read_size ?r = length q)"
      using q by auto
  qed
  then show ?thesis using g(1,2) x(2) by (intro exI [of _ ?r]) simp
qed

text \<open>A round has worked when it completes the reply, or has taken the bytes and left room for more.\<close>

definition round_done :: "reply \<Rightarrow> string \<Rightarrow> string \<Rightarrow> reader \<times> bool option \<Rightarrow> bool" where
  "round_done rp got rest p \<longleftrightarrow> (case p of (r, result) \<Rightarrow>
     if rest = [] then result = Some True \<and> phase2 rp r (reply_tail rp)
     else result = None \<and> reading rp r got \<and> int (length got) < mc_buffer_size (r_client r))"

lemma reply_ok_length: "reply_ok rp \<Longrightarrow> got @ rest = reply_text rp \<Longrightarrow> 4 * length got < 2 ^ 31"
proof -
  assume "reply_ok rp" "got @ rest = reply_text rp"
  then have "length got + length rest = length (reply_text rp)" "4 * length (reply_text rp) < 2 ^ 31"
    by (metis length_append, simp add: reply_ok_def)
  then show ?thesis by linarith
qed

lemma unat_small: "m < 2 ^ 31 \<Longrightarrow> unat (of_nat m :: size_t) = m"
  by (simp add: unat_of_nat)

lemma count_waiting:
  assumes "reading rp r got" and "got \<noteq> []" and "reply_ok rp" and "got @ rest = reply_text rp" and "rest \<noteq> []"
    and "steady env rp" and "r_line_number r \<noteq> 2" and "length got \<le> header_size rp"
  shows "\<exists>p. count_payload env k r = Inr p \<and> round_done rp got rest p"
proof -
  obtain r' where "map_res (\<lambda>(r, ok). (r, if ok then None else Some False)) (grow_buffer env r) = Inr (r', None)"
    "reading rp r' got" "int (length got) < mc_buffer_size (r_client r')"
    using grow_reading [OF assms(1,2) reply_ok_length [OF assms(3,4)] assms(6,8)] by blast
  with assms(5,7) show ?thesis by (intro exI [of _ "(r', None)"]) (simp add: count_payload_def round_done_def)
qed

lemma count_body:
  assumes "phase2 rp r q" and "r_payload_read_size r + k = length q" and "reply_ok rp" and "q @ rest = reply_tail rp"
    and "steady env rp"
  shows "\<exists>p. count_payload env k r = Inr p \<and> round_done rp (status_line rp @ CRLF @ size_line rp @ CRLF @ q) rest p"
proof -
  let ?got = "status_line rp @ CRLF @ size_line rp @ CRLF @ q" and ?n = "length (rp_body rp)"
  let ?r = "r\<lparr>r_payload_read_size := length q\<rparr>"
  have len: "length q + length rest = ?n + 3" using arg_cong [OF assms(4), of length] by (simp add: reply_tail_def)
  have small: "4 * length ?got < 2 ^ 31"
    using assms(4) by (intro reply_ok_length [OF assms(3), of _ rest]) (simp add: reply_text_alt)
  have "4 * length (reply_text rp) < 2 ^ 31" using assms(3) by (simp add: reply_ok_def)
  then have n: "?n + 3 < 2 ^ 31" by (simp add: reply_text_def)
  have p2: "phase2 rp ?r q" using assms(1) by (simp add: phase2_def holds_def)
  have line: "r_line_number r = 2" "mc_body_size (r_client r) = of_nat ?n" using assms(1) by (simp_all add: phase2_def)
  have "mc_body_size (r_client r) + 3 = (of_nat (?n + 3) :: size_t)" using line(2) by simp
  then have "mc_body_size (r_client r) + 3 \<le> (of_nat (length q) :: size_t) \<longleftrightarrow> ?n + 3 \<le> length q"
    unfolding word_le_nat_alt using unat_small [OF n] unat_small [of "length q"] n len by (simp only:)
  then have done_iff: "mc_body_size (r_client r) + 3 \<le> (of_nat (length q) :: size_t) \<longleftrightarrow> rest = []"
    using len by (cases rest) simp_all
  have cnt: "count_payload env k r =
      (if rest = [] then Inr (?r, Some True)
       else map_res (\<lambda>(r, ok). (r, if ok then None else Some False)) (grow_buffer env ?r))"
    using line(1) assms(2) done_iff by (simp add: count_payload_def Let_def)
  show ?thesis
  proof (cases "rest = []")
    case True
    with cnt p2 assms(4) show ?thesis by (intro exI [of _ "(?r, Some True)"]) (simp add: round_done_def)
  next
    case False
    have "reading rp ?r ?got" using p2 unfolding reading_def by auto
    moreover have "?got \<noteq> []" by (simp add: CRLF_def)
    ultimately obtain r' where "map_res (\<lambda>(r, ok). (r, if ok then None else Some False)) (grow_buffer env ?r) = Inr (r', None)"
      "reading rp r' ?got" "int (length ?got) < mc_buffer_size (r_client r')"
      using grow_reading [of rp ?r ?got env] small assms(5) line(1) by auto
    with cnt False show ?thesis by (intro exI [of _ "(r', None)"]) (simp add: round_done_def)
  qed
qed

lemma split_line:
  assumes "x @ y = u @ CRLF @ v" and "LF \<notin> set (u @ [CR])"
  shows "LF \<notin> set x \<and> length x < length (u @ CRLF) \<or> (\<exists>q. x = u @ CRLF @ q \<and> q @ y = v)"
proof (cases "LF \<in> set x")
  case True
  then obtain pre q where x: "x = pre @ LF # q" "LF \<notin> set pre" by (blast dest: split_list_first)
  with assms(1) have "pre @ LF # (q @ y) = (u @ [CR]) @ LF # v" by (simp add: CRLF_def)
  from first_break [OF this x(2) assms(2)] x(1) show ?thesis by (auto simp: CRLF_def)
next
  case False
  have "length x < length (u @ CRLF)"
  proof (rule ccontr)
    assume "\<not> length x < length (u @ CRLF)"
    then have "take (length (u @ CRLF)) x = take (length (u @ CRLF)) (u @ CRLF @ v)"
      using assms(1) by (metis take_append diff_is_0_eq not_less take_0 append_Nil2)
    then have "take (length (u @ CRLF)) x = u @ CRLF" by simp
    then have "LF \<in> set x" by (metis CRLF_def Un_iff in_set_takeD list.set_intros set_append)
    with False show False by simp
  qed
  with False show ?thesis by blast
qed

lemma size_stage:
  assumes "phase1 rp r q" and "reply_ok rp" and "q @ rest = size_line rp @ CRLF @ reply_tail rp" and "steady env rp"
  shows "\<exists>p. bind_res (parse_size_line k r) (\<lambda>(r, n). count_payload env n r) = Inr p \<and>
    round_done rp (status_line rp @ CRLF @ q) rest p"
  using split_line [OF assms(3) lines_no_LF(2) [OF assms(2)]]
proof (elim disjE exE conjE)
  assume q: "LF \<notin> set q" "length q < length (size_line rp @ CRLF)"
  let ?got = "status_line rp @ CRLF @ q"
  have all: "?got @ rest = reply_text rp" using assms(3) by (simp add: reply_text_alt)
  have rest: "rest \<noteq> []" using assms(3) q(2) by (auto simp: reply_tail_def)
  have "reading rp r ?got" using assms(1) q(1) by (auto simp: reading_def)
  moreover have "?got \<noteq> []" "length ?got \<le> header_size rp" using q(2) by (simp_all add: CRLF_def header_size_def)
  moreover have "r_line_number r \<noteq> 2" using assms(1) by (simp add: phase1_def)
  ultimately have "\<exists>p. count_payload env k r = Inr p \<and> round_done rp ?got rest p"
    by (intro count_waiting [OF _ _ assms(2) all rest assms(4)])
  then show ?thesis using parse_size_line_waits [OF assms(1) q(1)] by simp
next
  fix p assume p: "q = size_line rp @ CRLF @ p" "p @ rest = reply_tail rp"
  obtain r' where r': "parse_size_line k r = Inr (r', length p)" "phase2 rp r' p" "r_payload_read_size r' = 0"
    using parse_size_line_ends [of rp r p k] assms(1,2) p(1) by blast
  have "r_payload_read_size r' + length p = length p" using r'(3) by simp
  from count_body [OF r'(2) this assms(2) p(2) assms(4)] r'(1) p(1) show ?thesis by simp
qed

lemma phase_store:
  assumes "int (length got + length s) \<le> mc_buffer_size (r_client r)"
  shows "phase0 r got \<Longrightarrow> \<exists>r'. store_chunk s r = Inr r' \<and> phase0 r' (got @ s)"
    and "phase1 rp r q \<Longrightarrow> got = status_line rp @ CRLF @ q \<Longrightarrow> \<exists>r'. store_chunk s r = Inr r' \<and> phase1 rp r' (q @ s)"
    and "phase2 rp r q \<Longrightarrow> got = status_line rp @ CRLF @ size_line rp @ CRLF @ q \<Longrightarrow>
      \<exists>r'. store_chunk s r = Inr r' \<and> phase2 rp r' (q @ s) \<and> r_payload_read_size r' = r_payload_read_size r"
proof -
  have st: "\<exists>r'. store_chunk s r = Inr r' \<and> holds r' (x @ s) \<and> r_line_number r' = r_line_number r \<and>
      r_line_start r' = r_line_start r \<and> r_stale r' = r_stale r \<and> r_payload_read_size r' = r_payload_read_size r \<and>
      mc_code (r_client r') = mc_code (r_client r) \<and> mc_body (r_client r') = mc_body (r_client r) \<and>
      mc_body_size (r_client r') = mc_body_size (r_client r) \<and> mc_body_type (r_client r') = mc_body_type (r_client r)"
    if x: "holds r x" "length x = length got" for x
  proof -
    obtain b where "store_chunk s r = Inr (r\<lparr>r_total_size := length x + length s, r_client := r_client r\<lparr>mc_buffer := b\<rparr>\<rparr>)"
      "holds (r\<lparr>r_total_size := length x + length s, r_client := r_client r\<lparr>mc_buffer := b\<rparr>\<rparr>) (x @ s)"
      using store_chunk_holds [OF x(1), of s] assms x(2) by auto
    then show ?thesis
      by (intro exI [of _ "r\<lparr>r_total_size := length x + length s, r_client := r_client r\<lparr>mc_buffer := b\<rparr>\<rparr>"] conjI) simp_all
  qed
  show "\<exists>r'. store_chunk s r = Inr r' \<and> phase0 r' (got @ s)" if asm: "phase0 r got"
  proof -
    have "holds r got" using asm by (simp add: phase0_def)
    from st [OF this refl] obtain r' where "store_chunk s r = Inr r'" "holds r' (got @ s)"
      "r_line_number r' = r_line_number r" "r_line_start r' = r_line_start r" "r_stale r' = r_stale r"
      "r_payload_read_size r' = r_payload_read_size r" "mc_body_type (r_client r') = mc_body_type (r_client r)" by blast
    with asm show ?thesis by (intro exI [of _ r']) (simp add: phase0_def)
  qed
  show "\<exists>r'. store_chunk s r = Inr r' \<and> phase1 rp r' (q @ s)" if asm: "phase1 rp r q" "got = status_line rp @ CRLF @ q"
  proof -
    obtain h where h: "holds r (h @ q)" "length h = length (status_line rp @ CRLF)" "r_line_start r = length h"
      using asm(1) unfolding phase1_def by blast
    have "length (h @ q) = length got" using h(2) asm(2) by simp
    from st [OF h(1) this] obtain r' where r': "store_chunk s r = Inr r'" "holds r' (h @ (q @ s))"
      "r_line_number r' = r_line_number r" "r_line_start r' = r_line_start r" "r_stale r' = r_stale r"
      "r_payload_read_size r' = r_payload_read_size r" "mc_body_type (r_client r') = mc_body_type (r_client r)"
      "mc_code (r_client r') = mc_code (r_client r)" unfolding append_assoc by blast
    have "phase1 rp r' (q @ s)"
      unfolding phase1_def
    proof (intro conjI exI [of _ h])
      show "holds r' (h @ q @ s)" by (rule r'(2))
    qed (use asm(1) h(2,3) r'(3-8) in \<open>simp_all add: phase1_def\<close>)
    with r'(1) show ?thesis by blast
  qed
  show "\<exists>r'. store_chunk s r = Inr r' \<and> phase2 rp r' (q @ s) \<and> r_payload_read_size r' = r_payload_read_size r"
    if asm: "phase2 rp r q" "got = status_line rp @ CRLF @ size_line rp @ CRLF @ q"
  proof -
    obtain h where h: "holds r (h @ q)" "length h = length (status_line rp @ CRLF @ size_line rp @ CRLF)"
      "mc_body (r_client r) = Some (length h)"
      using asm(1) unfolding phase2_def by blast
    have "length (h @ q) = length got" using h(2) asm(2) by simp
    from st [OF h(1) this] obtain r' where r': "store_chunk s r = Inr r'" "holds r' (h @ (q @ s))"
      "r_line_number r' = r_line_number r" "r_payload_read_size r' = r_payload_read_size r"
      "mc_code (r_client r') = mc_code (r_client r)" "mc_body (r_client r') = mc_body (r_client r)"
      "mc_body_size (r_client r') = mc_body_size (r_client r)" "mc_body_type (r_client r') = mc_body_type (r_client r)"
      unfolding append_assoc by blast
    have "phase2 rp r' (q @ s)"
      unfolding phase2_def
    proof (intro conjI exI [of _ h])
      show "holds r' (h @ q @ s)" by (rule r'(2))
    qed (use asm(1) h(2,3) r'(3-8) in \<open>simp_all add: phase2_def\<close>)
    with r'(1,4) show ?thesis by blast
  qed
qed

lemma recv_round_ok:
  assumes "reading rp r got" and "reply_ok rp" and "(got @ s) @ rest = reply_text rp" and "s \<noteq> []"
    and "int (length got + length s) \<le> mc_buffer_size (r_client r)" and "steady env rp"
  shows "\<exists>p. recv_round env s r = Inr p \<and> round_done rp (got @ s) rest p"
  using assms(1) unfolding reading_def
proof (elim disjE exE conjE)
  assume p0: "phase0 r got" "LF \<notin> set got"
  obtain r1 where r1: "store_chunk s r = Inr r1" "phase0 r1 (got @ s)" using phase_store(1) [OF assms(5) p0(1)] by blast
  have "(got @ s) @ rest = status_line rp @ CRLF @ (size_line rp @ CRLF @ reply_tail rp)"
    using assms(3) by (simp add: reply_text_alt)
  from split_line [OF this lines_no_LF(1) [OF assms(2)]] show ?thesis
  proof (elim disjE exE conjE)
    assume x: "LF \<notin> set (got @ s)" "length (got @ s) < length (status_line rp @ CRLF)"
    have rest: "rest \<noteq> []" using arg_cong [OF assms(3), of length] x(2) by (auto simp: reply_text_alt)
    have line: "r_line_number r1 \<noteq> 2" "r_line_number r1 \<noteq> 1" using r1(2) by (simp_all add: phase0_def)
    have "reading rp r1 (got @ s)" using r1(2) x(1) by (simp add: reading_def)
    from count_waiting [OF this _ assms(2,3) rest assms(6) line(1), of "length s"] assms(4) x(2)
    obtain p where "count_payload env (length s) r1 = Inr p" "round_done rp (got @ s) rest p"
      by (auto simp: header_size_def)
    then show ?thesis using r1(1) parse_status_line_waits [OF r1(2) x(1)] line(2)
      by (simp add: recv_round_def parse_size_line_def)
  next
    fix q assume q: "got @ s = status_line rp @ CRLF @ q" "q @ rest = size_line rp @ CRLF @ reply_tail rp"
    obtain r2 where r2: "parse_status_line r1 = Inr r2" "phase1 rp r2 q"
      using parse_status_line_ends [of r1 rp q] r1(2) assms(2) q(1) by auto
    from size_stage [OF r2(2) assms(2) q(2) assms(6), of "length s"] r1(1) r2(1) q(1) show ?thesis
      by (simp add: recv_round_def)
  qed
next
  fix q assume p1: "got = status_line rp @ CRLF @ q" "phase1 rp r q" "LF \<notin> set q"
  obtain r1 where r1: "store_chunk s r = Inr r1" "phase1 rp r1 (q @ s)" using phase_store(2) [OF assms(5) p1(2,1)] by blast
  have "parse_status_line r1 = Inr r1" using r1(2) by (simp add: parse_status_line_def phase1_def)
  moreover have "(q @ s) @ rest = size_line rp @ CRLF @ reply_tail rp" using assms(3) p1(1) by (simp add: reply_text_alt)
  note size_stage [OF r1(2) assms(2) this assms(6), of "length s"]
  ultimately show ?thesis using r1(1) p1(1) by (simp add: recv_round_def)
next
  fix q assume p2: "got = status_line rp @ CRLF @ size_line rp @ CRLF @ q" "phase2 rp r q" "r_payload_read_size r = length q"
  obtain r1 where r1: "store_chunk s r = Inr r1" "phase2 rp r1 (q @ s)" "r_payload_read_size r1 = length q"
    using phase_store(3) [OF assms(5) p2(2,1)] p2(3) by auto
  have "parse_status_line r1 = Inr r1" "parse_size_line (length s) r1 = Inr (r1, length s)"
    using r1(2) by (simp_all add: parse_status_line_def parse_size_line_def phase2_def)
  moreover have "(q @ s) @ rest = reply_tail rp" using assms(3) p2(1) by (simp add: reply_text_alt)
  note count_body [OF r1(2) _ assms(2) this assms(6), of "length s"]
  ultimately show ?thesis using r1(1,3) p2(1) by (simp add: recv_round_def)
qed

lemma recv_loop_ok:
  assumes "reading rp r got" and "reply_ok rp" and "got @ incoming es @ missing = reply_text rp"
    and "incoming es @ missing \<noteq> []" and "reliable es" and "int (length got) < mc_buffer_size (r_client r)" and "steady env rp"
  shows "\<exists>r' es'. recv_loop env r es = Inr (r_client r', es', missing = []) \<and> incoming es' = [] \<and> reliable es' \<and>
    (missing = [] \<longrightarrow> phase2 rp r' (reply_tail rp))"
  using assms(1,3-6)
proof (induction "length (incoming es)" arbitrary: r got es rule: less_induct)
  case less
  have total: "r_total_size r = length got"
    using less.prems(1) by (auto simp: reading_def phase0_def phase1_def phase2_def holds_def)
  let ?n = "nat (mc_buffer_size (r_client r) - int (r_total_size r))"
  have n: "0 < ?n" using less.prems(5) total by simp
  show ?case
  proof (cases "incoming es = []")
    case True
    have "recv_loop env r es = Inr (r_client r, [], False)"
      by (subst recv_loop.simps) (simp add: recv_end [OF True less.prems(4)])
    with True less.prems(3) show ?thesis
      by (intro exI [of _ r] exI [of _ "[]"]) (simp add: reliable_def)
  next
    case more: False
    obtain s es' where s: "recv ?n es = (Some s, es')" "reliable es'" "s \<noteq> []" "length s \<le> ?n" "incoming es = s @ incoming es'"
      using socket.rd_more [OF less.prems(4) n more] by blast
    have all: "(got @ s) @ (incoming es' @ missing) = reply_text rp" using less.prems(2) s(5) by simp
    have fits: "int (length got + length s) \<le> mc_buffer_size (r_client r)" using s(4) n total by linarith
    obtain r' result where r': "recv_round env s r = Inr (r', result)"
      "round_done rp (got @ s) (incoming es' @ missing) (r', result)"
      using recv_round_ok [OF less.prems(1) assms(2) all s(3) fits assms(7)] by auto
    have unroll: "recv_loop env r es = (case result of Some ok \<Rightarrow> Inr (r_client r', es', ok) | None \<Rightarrow> recv_loop env r' es')"
      using s(1,3) r'(1) by (subst recv_loop.simps) simp
    show ?thesis
    proof (cases "incoming es' @ missing = []")
      case True
      with r'(2) have "result = Some True" "phase2 rp r' (reply_tail rp)" by (simp_all add: round_done_def)
      with unroll True s(2) show ?thesis by (intro exI [of _ r'] exI [of _ es']) simp
    next
      case False
      with r'(2) have next_round: "result = None" "reading rp r' (got @ s)" "int (length (got @ s)) < mc_buffer_size (r_client r')"
        unfolding round_done_def by (auto simp del: append_is_Nil_conv)
      have "length (incoming es') < length (incoming es)" using s(3,5) by simp
      from less.hyps [OF this next_round(2) all False s(2) next_round(3)] show ?thesis unfolding unroll next_round(1) by simp
    qed
  qed
qed

section \<open>Properties\<close>

definition buffer_ok :: "memuncached_client \<Rightarrow> bool" where
  "buffer_ok c \<longleftrightarrow> mc_buffer_size c = int (length (mc_buffer c)) \<and> mc_buffer c \<noteq> []"

lemma memuncached_recv_start: "memuncached_recv env c es = recv_loop env (start_reader c) es"
  by (simp add: memuncached_recv_def start_reader_def Let_def)

lemma start_reading: "buffer_ok c \<Longrightarrow> reading rp (start_reader c) [] \<and> 0 < mc_buffer_size (r_client (start_reader c))"
  by (simp add: buffer_ok_def reading_def start_reader_def phase0_def holds_def)

text \<open>What the client's record says when a reply has been read.\<close>

definition has_reply :: "reply \<Rightarrow> memuncached_client \<Rightarrow> bool" where
  "has_reply rp c \<longleftrightarrow> mc_code c = atoi (rp_code rp) \<and> mc_body_size c = of_nat (length (rp_body rp)) \<and>
     mc_body_type c = (case rp_type rp of None \<Rightarrow> 0 | Some t \<Rightarrow> of_nat t) \<and>
     (\<exists>b t. mc_body c = Some b \<and> drop b (mc_buffer c) = rp_body rp @ [NUL, CR, LF] @ t) \<and> buffer_ok c"

lemma phase2_reply: "phase2 rp r (reply_tail rp) \<Longrightarrow> has_reply rp (r_client r)"
  by (auto simp: phase2_def has_reply_def holds_def buffer_ok_def reply_tail_def)

lemma recv_reply:
  assumes "reply_ok rp" and "steady env rp" and "buffer_ok c" and "reliable es" and "incoming es @ missing = reply_text rp"
  shows "\<exists>c' es'. memuncached_recv env c es = Inr (c', es', missing = []) \<and> incoming es' = [] \<and> reliable es' \<and>
    (missing = [] \<longrightarrow> has_reply rp c')"
proof -
  have "reply_text rp \<noteq> []" by (simp add: reply_text_def)
  then have ne: "incoming es @ missing \<noteq> []" and all: "[] @ incoming es @ missing = reply_text rp" using assms(5) by auto
  note st = start_reading [OF assms(3), of rp]
  have room: "int (length []) < mc_buffer_size (r_client (start_reader c))" using st by simp
  from recv_loop_ok [OF conjunct1 [OF st] assms(1) all ne assms(4) room assms(2)] show ?thesis
    unfolding memuncached_recv_start using phase2_reply by blast
qed

text \<open>What arrives behind a reply is left alone.\<close>

lemma recv_later: "recv n es = (Some s, es') \<Longrightarrow> s \<noteq> [] \<Longrightarrow> recv n (es @ later) = (Some s, es' @ later)"
  by (induction n es rule: recv.induct) (auto split: if_splits)

lemma recv_loop_later:
  "recv_loop env r es = Inr (c, es', True) \<Longrightarrow> recv_loop env r (es @ later) = Inr (c, es' @ later, True)"
proof (induction env r es rule: recv_loop.induct)
  case (1 env r es)
  let ?n = "nat (mc_buffer_size (r_client r) - int (r_total_size r))"
  obtain s es1 where s: "recv ?n es = (Some s, es1)" "s \<noteq> []"
    using "1.prems" by (subst (asm) recv_loop.simps) (auto split: prod.splits option.splits if_splits)
  obtain r1 result where r1: "recv_round env s r = Inr (r1, result)"
    using "1.prems" s by (subst (asm) recv_loop.simps) (cases "recv_round env s r"; auto)
  show ?case
  proof (cases result)
    case None
    then have "recv_loop env r1 es1 = Inr (c, es', True)" using "1.prems" s r1 by (subst (asm) recv_loop.simps) simp
    then have "recv_loop env r1 (es1 @ later) = Inr (c, es' @ later, True)" using "1.IH" s r1 None by simp
    then show ?thesis using recv_later [OF s, of later] s(2) r1 None by (subst recv_loop.simps) simp
  next
    case (Some ok)
    then have "r_client r1 = c" "es1 = es'" "ok" using "1.prems" s r1 by (subst (asm) recv_loop.simps, simp)+
    then show ?thesis using recv_later [OF s, of later] s(2) r1 Some by (subst recv_loop.simps) simp
  qed
qed

lemma memuncached_recv_later:
  "memuncached_recv env c es = Inr (c', es', True) \<Longrightarrow> memuncached_recv env c (es @ later) = Inr (c', es' @ later, True)"
  by (simp add: memuncached_recv_def Let_def recv_loop_later)


definition new_client :: memuncached_client where
  "new_client =
     \<lparr>mc_buffer = replicate 10 NUL, mc_buffer_size = 10, mc_code = 0, mc_description = None, mc_body_size = 0,
      mc_body = None, mc_body_type = 0\<rparr>"

definition in_place :: client_env where
  "in_place = \<lparr>ce_realloc = (\<lambda>_. InPlace), ce_junk = (\<lambda>_. NUL)\<rparr>"

lemma new_client_ok [simp]: "buffer_ok new_client"
  by (simp add: buffer_ok_def new_client_def)

lemma in_place_steady [simp]: "steady in_place rp"
  by (simp add: steady_def in_place_def)


text \<open>
  \<open>line_start\<close> is not adjusted when \<open>realloc\<close> moves the buffer. When the buffer is full before
  the status line has ended, as with the first ten bytes of every reply but a 200, and the
  new block is elsewhere, the next round reads through the old address.
\<close>

theorem moved_buffer_dangles:
  assumes "mc_buffer_size c = int n" and "length (mc_buffer c) = n" and "2 * int n < 2 ^ 31"
    and "recv n es = (Some s, es')" and "length s = n" and "s \<noteq> []" and "LF \<notin> set s"
    and "ce_realloc env (2 * n) = Moves" and "reliable es'" and "incoming es' \<noteq> []"
  shows "memuncached_recv env c es = Inl DanglingAccess"
proof -
  let ?r = "start_reader c"
  let ?c = "(r_client ?r)\<lparr>mc_buffer := s\<rparr>"
  let ?r1 = "?r\<lparr>r_total_size := n, r_client := ?c\<rparr>"
  let ?r2 = "?r1\<lparr>r_stale := True, r_client := ?c\<lparr>mc_buffer_size := 2 * int n, mc_buffer := s @ map (ce_junk env) [n..<2 * n]\<rparr>\<rparr>"
  have n: "nat (int n * 2) = 2 * n" "nat (2 * int n - int n) = n" by simp_all
  have store: "store_chunk s ?r = Inr ?r1"
    using assms(2,5) by (simp add: store_chunk_def start_reader_def Let_def write_at_fits)
  have "find_break ([] @ s @ []) 0 (0 + length s) = None" using assms(7) by (intro find_break_None) simp_all
  then have "parse_status_line ?r1 = Inr ?r1"
    using assms(5) by (simp add: parse_status_line_def start_reader_def Let_def)
  moreover have "parse_size_line n ?r1 = Inr (?r1, n)" by (simp add: parse_size_line_def start_reader_def)
  moreover have "count_payload env n ?r1 = Inr (?r2, None)"
    using assms(1,2,3,5,8) n by (simp add: count_payload_def grow_buffer_def start_reader_def Let_def)
  ultimately have r1: "recv_round env s ?r = Inr (?r2, None)" using store assms(5) by (simp add: recv_round_def)
  have size2: "nat (mc_buffer_size (r_client ?r2) - int (r_total_size ?r2)) = n" by simp
  have "0 < n" using assms(5,6) by auto
  from socket.rd_more [OF assms(9) this assms(10)] obtain s2 es2 where s2: "recv n es' = (Some s2, es2)" "s2 \<noteq> []" "length s2 \<le> n"
    by blast
  have "\<exists>r3. store_chunk s2 ?r2 = Inr r3 \<and> r_line_number r3 = 0 \<and> r_stale r3"
    using s2(3) assms(5) by (simp add: store_chunk_def Let_def start_reader_def)
  then have "recv_round env s2 ?r2 = Inl DanglingAccess" by (auto simp: recv_round_def parse_status_line_def)
  then have "recv_loop env ?r2 es' = Inl DanglingAccess"
    using s2(1,2) by (subst recv_loop.simps) (simp add: n(2))
  moreover have "nat (mc_buffer_size (r_client ?r) - int (r_total_size ?r)) = n"
    using assms(1) by (simp add: start_reader_def)
  ultimately show ?thesis unfolding memuncached_recv_start
    using assms(4,6) r1 by (subst recv_loop.simps) simp
qed

theorem moved_buffer_dangles_witness:
  "memuncached_recv \<lparr>ce_realloc = (\<lambda>_. Moves), ce_junk = (\<lambda>_. NUL)\<rparr> new_client [Data (''404 NOT FOUND'' @ CRLF)] =
    Inl DanglingAccess"
proof -
  have r: "recv 10 [Data (''404 NOT FOUND'' @ CRLF)] = (Some ''404 NOT FO'', [Data (''UND'' @ CRLF)])"
    by (simp add: CRLF_def)
  show ?thesis
    by (rule moved_buffer_dangles [OF _ _ _ r]) (simp_all add: new_client_def reliable_def)
qed

text \<open>
  When \<open>realloc\<close> fails, the call reports failure but has already doubled the recorded size of
  the buffer: a later call lets \<open>recv\<close> write past the end of the block.
\<close>

theorem failed_growth_overflows:
  assumes "mc_buffer_size c = int n" and "length (mc_buffer c) = n" and "2 * int n < 2 ^ 31"
    and "recv n es = (Some s, es')" and "length s = n" and "s \<noteq> []" and "LF \<notin> set s"
    and "ce_realloc env (2 * n) = Fails"
  shows "\<exists>c'. memuncached_recv env c es = Inr (c', es', False) \<and>
    (\<forall>env' later s' es''. recv (2 * n) later = (Some s', es'') \<longrightarrow> n < length s' \<longrightarrow>
      memuncached_recv env' c' later = Inl OutOfBounds)"
proof -
  let ?r = "start_reader c"
  let ?c = "(r_client ?r)\<lparr>mc_buffer := s\<rparr>"
  let ?r1 = "?r\<lparr>r_total_size := n, r_client := ?c\<rparr>"
  let ?c2 = "?c\<lparr>mc_buffer_size := 2 * int n\<rparr>"
  have n: "nat (int n * 2) = 2 * n" by simp
  have store: "store_chunk s ?r = Inr ?r1"
    using assms(2,5) by (simp add: store_chunk_def start_reader_def Let_def write_at_fits)
  have "find_break ([] @ s @ []) 0 (0 + length s) = None" using assms(7) by (intro find_break_None) simp_all
  then have "parse_status_line ?r1 = Inr ?r1"
    using assms(5) by (simp add: parse_status_line_def start_reader_def Let_def)
  moreover have "parse_size_line n ?r1 = Inr (?r1, n)" by (simp add: parse_size_line_def start_reader_def)
  moreover have "count_payload env n ?r1 = Inr (?r1\<lparr>r_client := ?c2\<rparr>, Some False)"
    using assms(1,3,8) n by (simp add: count_payload_def grow_buffer_def start_reader_def Let_def)
  ultimately have r1: "recv_round env s ?r = Inr (?r1\<lparr>r_client := ?c2\<rparr>, Some False)"
    using store assms(5) by (simp add: recv_round_def)
  have "memuncached_recv env c es = Inr (?c2, es', False)" unfolding memuncached_recv_start
    using assms(1,4,6) r1 by (subst recv_loop.simps) (simp add: start_reader_def)
  moreover have "memuncached_recv env' ?c2 later = Inl OutOfBounds"
    if later: "recv (2 * n) later = (Some s', es'')" "n < length s'" for env' later s' es''
  proof -
    have "s' \<noteq> []" using later(2) by auto
    moreover have "store_chunk s' (start_reader ?c2) = Inl OutOfBounds"
      using later(2) assms(5) by (simp add: store_chunk_def start_reader_def Let_def)
    ultimately show ?thesis unfolding memuncached_recv_start
      using later(1) by (subst recv_loop.simps) (simp add: start_reader_def recv_round_def nat_mult_distrib)
  qed
  ultimately show ?thesis by blast
qed

theorem failed_growth_overflows_witness:
  "\<exists>c. memuncached_recv \<lparr>ce_realloc = (\<lambda>_. Fails), ce_junk = (\<lambda>_. NUL)\<rparr> new_client [Data (''404 NOT FOUND'' @ CRLF)] =
      Inr (c, [Data (''UND'' @ CRLF)], False) \<and>
    memuncached_recv in_place c [Data ''UND..400 BAD REQUEST''] = Inl OutOfBounds"
proof -
  have r: "recv 10 [Data (''404 NOT FOUND'' @ CRLF)] = (Some ''404 NOT FO'', [Data (''UND'' @ CRLF)])"
    by (simp add: CRLF_def)
  have later: "recv (2 * 10) [Data ''UND..400 BAD REQUEST''] = (Some ''UND..400 BAD REQUEST'', [])" by simp
  have long: "10 < length ''UND..400 BAD REQUEST''" by simp
  obtain c where c: "memuncached_recv \<lparr>ce_realloc = (\<lambda>_. Fails), ce_junk = (\<lambda>_. NUL)\<rparr> new_client [Data (''404 NOT FOUND'' @ CRLF)] =
      Inr (c, [Data (''UND'' @ CRLF)], False)"
    "\<forall>env' later s' es''. recv (2 * 10) later = (Some s', es'') \<longrightarrow> 10 < length s' \<longrightarrow> memuncached_recv env' c later = Inl OutOfBounds"
    using failed_growth_overflows [OF _ _ _ r, of new_client "\<lparr>ce_realloc = (\<lambda>_. Fails), ce_junk = (\<lambda>_. NUL)\<rparr>"]
    by (auto simp: new_client_def)
  have "memuncached_recv in_place c [Data ''UND..400 BAD REQUEST''] = Inl OutOfBounds"
    using c(2) later(1) long by blast
  with c(1) show ?thesis by blast
qed

end
