(* ===== verification/Client.thy ===== *)
theory Client
  imports Client_Recv
begin

text \<open>
  The requests of the client library, libmemuncached.c: connecting, the nine commands and the
  results they hand to the caller. The lemmas show what is sent and what a reply is turned
  into, and, with the server's side of Requests, that a value set by one call is the value
  got by the next.
\<close>

section \<open>Results\<close>

text \<open>
  \<open>memuncached_value_result_t\<close>: the union holds what was last stored in it. A result pointer
  that may be \<open>NULL\<close> is an option.
\<close>

datatype result_value = RUnset | RReal double | RDecimal int64 | RString string | RFreed

record memuncached_value_result =
  vr_type :: "8 word"
  vr_value :: result_value
  vr_size :: int32

record memuncached_stt_result =
  sr_client_count :: int32
  sr_key_count :: int32

text \<open>A client with its socket, and the payload of SET and ADD behind its \<open>void*\<close>.\<close>

type_synonym session = "memuncached_client \<times> sock"

datatype payload = PDecimal int64 | PReal double | PString string

datatype vararg = VInt int32 | VDouble double

definition LIBMEMUNCACHED_DEFAULT_INT :: int32 where
  "LIBMEMUNCACHED_DEFAULT_INT = - (2 ^ 31)"

definition LIBMEMUNCACHED_DEFAULT_DOUBLE :: double where
  "LIBMEMUNCACHED_DEFAULT_DOUBLE = Fin False (2 ^ 52) (- 1074)"

definition MEMCACHED_NUMBER_RESULT_DECIMAL :: "8 word" where "MEMCACHED_NUMBER_RESULT_DECIMAL = 0"
definition MEMCACHED_NUMBER_RESULT_REAL :: "8 word" where "MEMCACHED_NUMBER_RESULT_REAL = 1"
definition MEMCACHED_NUMBER_RESULT_STRING :: "8 word" where "MEMCACHED_NUMBER_RESULT_STRING = 2"

lemmas result_types = MEMCACHED_NUMBER_RESULT_DECIMAL_def MEMCACHED_NUMBER_RESULT_REAL_def MEMCACHED_NUMBER_RESULT_STRING_def

section \<open>Exchanging a request for a reply\<close>

text \<open>
  \<open>dprintf\<close> of the request, \<open>memuncached_recv\<close> and the test of the code, as every command does.
\<close>

definition exchange :: "client_env \<Rightarrow> string \<Rightarrow> session \<Rightarrow> (session \<times> bool) res" where
  "exchange env request s =
     (case s of (c, sk) \<Rightarrow>
        map_res (\<lambda>(c, es, ok). ((c, (send request sk)\<lparr>sk_in := es\<rparr>), ok \<and> mc_code c = 200))
          (memuncached_recv env c (sk_in sk)))"

text \<open>The bytes from \<open>response.body\<close> to the end of the buffer, and the string that starts there.\<close>

definition body_block :: "memuncached_client \<Rightarrow> string res" where
  "body_block c = (case mc_body c of None \<Rightarrow> Inl NullDeref | Some b \<Rightarrow> Inr (drop b (mc_buffer c)))"

definition body_string :: "memuncached_client \<Rightarrow> string res" where
  "body_string c = bind_res (body_block c) (\<lambda>b. if is_cstr b then Inl OutOfBounds else Inr (cstr b))"

text \<open>\<open>response.body[response.body_size] = 0\<close>.\<close>

definition terminate_body :: "memuncached_client \<Rightarrow> memuncached_client res" where
  "terminate_body c =
     (case mc_body c of
        None \<Rightarrow> Inl NullDeref
      | Some b \<Rightarrow>
          if length (mc_buffer c) \<le> b + unat (mc_body_size c) then Inl OutOfBounds
          else Inr (c\<lparr>mc_buffer := (mc_buffer c)[b + unat (mc_body_size c) := NUL]\<rparr>))"

section \<open>Connection\<close>

text \<open>
  \<open>ok\<close> are the outcomes of \<open>malloc\<close>, \<open>calloc\<close>, \<open>socket\<close>, \<open>inet_addr\<close> and \<open>connect\<close>, any of which ends
  the function. The greeting is one \<open>recv\<close> of at most 100 bytes.
\<close>

definition memuncached_connect :: "bool \<Rightarrow> sock \<Rightarrow> session option" where
  "memuncached_connect ok sk =
     (if \<not> ok then None
      else case recv 100 (sk_in sk) of
             (None, _) \<Rightarrow> None
           | (Some greeting, es) \<Rightarrow>
               if length greeting < 2 then None
               else Some (\<lparr>mc_buffer = replicate 10 NUL, mc_buffer_size = 10, mc_code = 0,
                 mc_description = None, mc_body_size = 0, mc_body = None, mc_body_type = 0\<rparr>, sk\<lparr>sk_in := es\<rparr>))"

text \<open>Disconnecting frees the client; what is left is the socket with the bytes sent on it.\<close>

definition memuncached_disconnect :: "client_env \<Rightarrow> bool \<Rightarrow> session \<Rightarrow> (sock \<times> bool) res" where
  "memuncached_disconnect env close_ok s =
     map_res (\<lambda>(s, is_success). (snd s, close_ok \<and> is_success)) (exchange env (''BYE'' @ CRLF) s)"

section \<open>STT and VER\<close>

text \<open>\<open>atoi (sstrstr (body, label, body_size) + strlen (label))\<close>; the search may find nothing.\<close>

definition labelled_count :: "string \<Rightarrow> memuncached_client \<Rightarrow> int32 res" where
  "labelled_count label c =
     bind_res (body_block c) (\<lambda>b.
       case sstrstr b label (unat (mc_body_size c)) of
         None \<Rightarrow> Inl NullDeref
       | Some i \<Rightarrow> Inr (atoi (drop (i + length label) b)))"

text \<open>The result is cleared before it is tested for \<open>NULL\<close>.\<close>

definition memuncached_stt_lib ::
    "client_env \<Rightarrow> memuncached_stt_result option \<Rightarrow> session \<Rightarrow> (session \<times> memuncached_stt_result \<times> bool) res" where
  "memuncached_stt_lib env result s =
     bind_res (exchange env (''STT'' @ CRLF) s) (\<lambda>(s, is_success).
       if result = None then Inl NullDeref
       else if is_success then
         bind_res (labelled_count ''Client-Count: '' (fst s)) (\<lambda>clients.
         map_res (\<lambda>keys. (s, \<lparr>sr_client_count = clients, sr_key_count = keys\<rparr>, True))
           (labelled_count ''Key-Count: '' (fst s)))
       else Inr (s, \<lparr>sr_client_count = 0, sr_key_count = 0\<rparr>, False))"

text \<open>\<open>version\<close> has room for five bytes.\<close>

definition memuncached_ver_lib :: "client_env \<Rightarrow> string option \<Rightarrow> session \<Rightarrow> (session \<times> string \<times> bool) res" where
  "memuncached_ver_lib env result s =
     bind_res (exchange env (''VER'' @ CRLF) s) (\<lambda>(s, is_success).
       if result = None then Inl NullDeref
       else if is_success then
         bind_res (terminate_body (fst s)) (\<lambda>c.
         bind_res (body_string c) (\<lambda>version.
           if 5 \<le> length version then Inl OutOfBounds else Inr ((c, snd s), version, True)))
       else Inr (s, [], False))"

section \<open>Values\<close>

text \<open>What GET and DEL make of a successful reply.\<close>

definition read_value :: "memuncached_client \<Rightarrow> memuncached_value_result \<Rightarrow> (memuncached_value_result \<times> bool) res" where
  "read_value c result =
     (let result = result\<lparr>vr_type := mc_body_type c\<rparr>
      in if mc_body_type c = MEMCACHED_NUMBER_RESULT_DECIMAL then
           map_res (\<lambda>s. (result\<lparr>vr_value := RDecimal (atoll s)\<rparr>, True)) (body_string c)
         else if mc_body_type c = MEMCACHED_NUMBER_RESULT_REAL then
           map_res (\<lambda>s. (result\<lparr>vr_value := RReal (atof s)\<rparr>, True)) (body_string c)
         else if mc_body_type c = MEMCACHED_NUMBER_RESULT_STRING then
           bind_res (body_block c) (\<lambda>b.
             if length b < unat (mc_body_size c) then Inl OutOfBounds
             else Inr (result\<lparr>vr_value := RString (take (unat (mc_body_size c)) b), vr_size := ucast (mc_body_size c)\<rparr>, True))
         else Inr (result, False))"

definition value_request ::
    "string \<Rightarrow> client_env \<Rightarrow> string \<Rightarrow> memuncached_value_result option \<Rightarrow> session \<Rightarrow>
     (session \<times> memuncached_value_result option \<times> bool) res" where
  "value_request command env key result s =
     bind_res (exchange env (command @ SP # key @ CRLF) s) (\<lambda>(s, is_success).
       case result of
         None \<Rightarrow> Inr (s, None, is_success)
       | Some result \<Rightarrow>
           if is_success then map_res (\<lambda>(result, ok). (s, Some result, ok)) (read_value (fst s) result)
           else Inr (s, Some result, False))"

definition memuncached_del_lib where "memuncached_del_lib = value_request ''DEL''"
definition memuncached_get_lib where "memuncached_get_lib = value_request ''GET''"

text \<open>The string is freed, but the pointer to it stays in the result.\<close>

definition memuncached_value_result_clean ::
    "memuncached_value_result option \<Rightarrow> (memuncached_value_result option \<times> bool) res" where
  "memuncached_value_result_clean result =
     (case result of
        None \<Rightarrow> Inr (None, False)
      | Some r \<Rightarrow>
          if vr_type r \<noteq> MEMCACHED_NUMBER_RESULT_STRING then Inr (Some r, False)
          else case vr_value r of
                 RString _ \<Rightarrow> Inr (Some (r\<lparr>vr_value := RFreed\<rparr>), True)
               | RFreed \<Rightarrow> Inl DanglingAccess
               | RUnset \<Rightarrow> Inr (Some r, False)
               | _ \<Rightarrow> Inl TypeConfusion)"

section \<open>INC and DEC\<close>

text \<open>\<open>va_arg\<close> at a type other than that of the argument passed is undefined.\<close>

definition va_int :: "vararg list \<Rightarrow> nat \<Rightarrow> int32 res" where
  "va_int args i =
     (if length args \<le> i then Inl Indeterminate
      else case args ! i of VInt n \<Rightarrow> Inr n | VDouble _ \<Rightarrow> Inl TypeConfusion)"

definition va_double :: "vararg list \<Rightarrow> nat \<Rightarrow> double res" where
  "va_double args i =
     (if length args \<le> i then Inl Indeterminate
      else case args ! i of VDouble d \<Rightarrow> Inr d | VInt _ \<Rightarrow> Inl TypeConfusion)"

text \<open>The request, with the optional arguments that do not have their default value.\<close>

definition count_request :: "string \<Rightarrow> string \<Rightarrow> ('n \<Rightarrow> string) \<Rightarrow> 'n \<Rightarrow> 'n \<Rightarrow> 'n \<Rightarrow> string" where
  "count_request command key fmt dflt offset initial =
     command @ SP # key @
     (if offset = dflt then CRLF
      else if initial = dflt then SP # fmt offset @ CRLF
      else SP # fmt offset @ SP # fmt initial @ CRLF)"

definition int_request :: "string \<Rightarrow> string \<Rightarrow> vararg list \<Rightarrow> string res" where
  "int_request command key args =
     bind_res (va_int args 0) (\<lambda>offset. bind_res (va_int args 1) (\<lambda>initial.
       Inr (count_request command key (\<lambda>n. fmt_d (sint n)) LIBMEMUNCACHED_DEFAULT_INT offset initial)))"

definition double_request :: "string \<Rightarrow> string \<Rightarrow> vararg list \<Rightarrow> string res" where
  "double_request command key args =
     bind_res (va_double args 0) (\<lambda>offset. bind_res (va_double args 1) (\<lambda>initial.
       Inr (count_request command key fmt_lf LIBMEMUNCACHED_DEFAULT_DOUBLE offset initial)))"

text \<open>What both make of the reply; here too the result is cleared before it is tested.\<close>

definition number_reply ::
    "client_env \<Rightarrow> string \<Rightarrow> memuncached_value_result option \<Rightarrow> session \<Rightarrow>
     (session \<times> memuncached_value_result option \<times> bool) res" where
  "number_reply env request result s =
     bind_res (exchange env request s) (\<lambda>(s, is_success).
       if result = None then Inl NullDeref
       else
         let result = \<lparr>vr_type = 0, vr_value = RUnset, vr_size = 0\<rparr>
         in if \<not> is_success then Inr (s, Some result, False)
            else bind_res (terminate_body (fst s)) (\<lambda>c.
              let result = result\<lparr>vr_type := mc_body_type c\<rparr>
              in if mc_body_type c = MEMCACHED_NUMBER_RESULT_DECIMAL then
                   map_res (\<lambda>b. ((c, snd s), Some (result\<lparr>vr_value := RDecimal (atoll b)\<rparr>), True)) (body_string c)
                 else if mc_body_type c = MEMCACHED_NUMBER_RESULT_REAL then
                   map_res (\<lambda>b. ((c, snd s), Some (result\<lparr>vr_value := RReal (atof b)\<rparr>), True)) (body_string c)
                 else Inr ((c, snd s), Some result, False)))"

text \<open>
  In INC the tests of the type are assignments: \<open>type = 0\<close> is false and \<open>type = 1\<close> true, whatever
  the type was.
\<close>

definition memuncached_inc_lib ::
    "client_env \<Rightarrow> string \<Rightarrow> 8 word \<Rightarrow> memuncached_value_result option \<Rightarrow> vararg list \<Rightarrow> session \<Rightarrow>
     (session \<times> memuncached_value_result option \<times> bool) res" where
  "memuncached_inc_lib env key type result args s =
     bind_res (double_request ''INC'' key args) (\<lambda>request. number_reply env request result s)"

definition memuncached_dec_lib ::
    "client_env \<Rightarrow> string \<Rightarrow> 8 word \<Rightarrow> memuncached_value_result option \<Rightarrow> vararg list \<Rightarrow> session \<Rightarrow>
     (session \<times> memuncached_value_result option \<times> bool) res" where
  "memuncached_dec_lib env key type result args s =
     (if type = 0 then bind_res (int_request ''DEC'' key args) (\<lambda>request. number_reply env request result s)
      else if type = 1 then bind_res (double_request ''DEC'' key args) (\<lambda>request. number_reply env request result s)
      else Inr (s, result, False))"

section \<open>SET and ADD\<close>

text \<open>The payload, read at the type of the request; a string of \<open>length\<close> bytes.\<close>

definition payload_text :: "8 word \<Rightarrow> payload \<Rightarrow> int32 \<Rightarrow> string res" where
  "payload_text type data len =
     (case data of
        PDecimal d \<Rightarrow> if type = MEMCACHED_NUMBER_RESULT_DECIMAL then Inr (fmt_d (sint d) @ CRLF) else Inl TypeConfusion
      | PReal r \<Rightarrow> if type = MEMCACHED_NUMBER_RESULT_REAL then Inr (fmt_lf r @ CRLF) else Inl TypeConfusion
      | PString b \<Rightarrow>
          if type \<noteq> MEMCACHED_NUMBER_RESULT_STRING then Inl TypeConfusion
          else if sint len < 0 \<or> length b < nat (sint len) then Inl OutOfBounds
          else Inr (take (nat (sint len)) b @ CRLF))"

definition store_call ::
    "string \<Rightarrow> client_env \<Rightarrow> string \<Rightarrow> 8 word \<Rightarrow> payload \<Rightarrow> int32 \<Rightarrow> session \<Rightarrow> (session \<times> bool) res" where
  "store_call command env key type data len s =
     (if sint type < 0 \<or> 2 < sint type then Inr (s, False)
      else bind_res (payload_text type data len) (\<lambda>p.
        exchange env (command @ SP # key @ SP # fmt_d (sint type) @ SP # fmt_d (sint len) @ CRLF @ p) s))"

definition memuncached_set_lib where "memuncached_set_lib = store_call ''SET''"
definition memuncached_add_lib where "memuncached_add_lib = store_call ''ADD''"

text \<open>The macros of the header, which compute the length of a number with \<open>snprintf\<close>.\<close>

definition memuncached_set_d :: "client_env \<Rightarrow> string \<Rightarrow> int64 \<Rightarrow> session \<Rightarrow> (session \<times> bool) res" where
  "memuncached_set_d env key d s =
     memuncached_set_lib env key MEMCACHED_NUMBER_RESULT_DECIMAL (PDecimal d) (of_nat (length (fmt_d (sint d)))) s"

definition memuncached_set_f :: "client_env \<Rightarrow> string \<Rightarrow> double \<Rightarrow> session \<Rightarrow> (session \<times> bool) res" where
  "memuncached_set_f env key r s =
     memuncached_set_lib env key MEMCACHED_NUMBER_RESULT_REAL (PReal r) (of_nat (length (fmt_lf r))) s"

definition memuncached_set_s :: "client_env \<Rightarrow> string \<Rightarrow> string \<Rightarrow> int32 \<Rightarrow> session \<Rightarrow> (session \<times> bool) res" where
  "memuncached_set_s env key b len s =
     memuncached_set_lib env key MEMCACHED_NUMBER_RESULT_STRING (PString b) len s"

definition memuncached_add_d :: "client_env \<Rightarrow> string \<Rightarrow> int64 \<Rightarrow> session \<Rightarrow> (session \<times> bool) res" where
  "memuncached_add_d env key d s =
     memuncached_add_lib env key MEMCACHED_NUMBER_RESULT_DECIMAL (PDecimal d) (of_nat (length (fmt_d (sint d)))) s"

definition memuncached_add_f :: "client_env \<Rightarrow> string \<Rightarrow> double \<Rightarrow> session \<Rightarrow> (session \<times> bool) res" where
  "memuncached_add_f env key r s =
     memuncached_add_lib env key MEMCACHED_NUMBER_RESULT_REAL (PReal r) (of_nat (length (fmt_lf r))) s"

definition memuncached_add_s :: "client_env \<Rightarrow> string \<Rightarrow> string \<Rightarrow> int32 \<Rightarrow> session \<Rightarrow> (session \<times> bool) res" where
  "memuncached_add_s env key b len s =
     memuncached_add_lib env key MEMCACHED_NUMBER_RESULT_STRING (PString b) len s"

definition memuncached_inc_d ::
    "client_env \<Rightarrow> string \<Rightarrow> memuncached_value_result option \<Rightarrow> int32 list \<Rightarrow> session \<Rightarrow>
     (session \<times> memuncached_value_result option \<times> bool) res" where
  "memuncached_inc_d env key result args s =
     memuncached_inc_lib env key MEMCACHED_NUMBER_RESULT_DECIMAL result
       (map VInt (args @ [LIBMEMUNCACHED_DEFAULT_INT, LIBMEMUNCACHED_DEFAULT_INT])) s"

definition memuncached_dec_d ::
    "client_env \<Rightarrow> string \<Rightarrow> memuncached_value_result option \<Rightarrow> int32 list \<Rightarrow> session \<Rightarrow>
     (session \<times> memuncached_value_result option \<times> bool) res" where
  "memuncached_dec_d env key result args s =
     memuncached_dec_lib env key MEMCACHED_NUMBER_RESULT_DECIMAL result
       (map VInt (args @ [LIBMEMUNCACHED_DEFAULT_INT, LIBMEMUNCACHED_DEFAULT_INT])) s"

definition memuncached_inc_f ::
    "client_env \<Rightarrow> string \<Rightarrow> memuncached_value_result option \<Rightarrow> double list \<Rightarrow> session \<Rightarrow>
     (session \<times> memuncached_value_result option \<times> bool) res" where
  "memuncached_inc_f env key result args s =
     memuncached_inc_lib env key MEMCACHED_NUMBER_RESULT_REAL result
       (map VDouble (args @ [LIBMEMUNCACHED_DEFAULT_DOUBLE, LIBMEMUNCACHED_DEFAULT_DOUBLE])) s"

definition memuncached_dec_f ::
    "client_env \<Rightarrow> string \<Rightarrow> memuncached_value_result option \<Rightarrow> double list \<Rightarrow> session \<Rightarrow>
     (session \<times> memuncached_value_result option \<times> bool) res" where
  "memuncached_dec_f env key result args s =
     memuncached_dec_lib env key MEMCACHED_NUMBER_RESULT_REAL result
       (map VDouble (args @ [LIBMEMUNCACHED_DEFAULT_DOUBLE, LIBMEMUNCACHED_DEFAULT_DOUBLE])) s"

section \<open>Replies of the server\<close>

text \<open>
  The bytes of \<open>reply\<close> arrive next, in some segments, before the events \<open>later\<close>; and what a call
  leaves behind that has sent a request and consumed its reply.
\<close>

definition delivers :: "event list \<Rightarrow> string \<Rightarrow> session \<Rightarrow> bool" where
  "delivers later reply s \<longleftrightarrow>
     buffer_ok (fst s) \<and> (\<exists>es. sk_in (snd s) = es @ later \<and> reliable es \<and> incoming es = reply)"

definition served :: "event list \<Rightarrow> string \<Rightarrow> session \<Rightarrow> session \<Rightarrow> bool" where
  "served later request s s' \<longleftrightarrow> sk_out (snd s') = sk_out (snd s) @ request \<and> delivers later [] s'"

lemma exchange_reply:
  assumes "reply_ok rp" and "steady env rp" and "delivers later (reply_text rp) s"
  shows "\<exists>s'. exchange env request s = Inr (s', atoi (rp_code rp) = 200) \<and> has_reply rp (fst s') \<and> served later request s s'"
proof -
  obtain c sk where s: "s = (c, sk)" by (cases s)
  obtain es where es: "sk_in sk = es @ later" "reliable es" "incoming es = reply_text rp" "buffer_ok c"
    using assms(3) by (auto simp: delivers_def s)
  obtain c' es' where "memuncached_recv env c es = Inr (c', es', True)" and es': "incoming es' = []" "reliable es'" "has_reply rp c'"
    using recv_reply [OF assms(1,2) es(4,2), of "[]"] es(3) by auto
  then have "memuncached_recv env c (sk_in sk) = Inr (c', es' @ later, True)" using es(1) memuncached_recv_later by simp
  with es' show ?thesis
    by (intro exI [of _ "(c', (send request sk)\<lparr>sk_in := es' @ later\<rparr>)"])
      (auto simp: s exchange_def has_reply_def served_def delivers_def send_def)
qed

lemma has_reply_body:
  assumes "has_reply rp c" and "length (rp_body rp) < 2 ^ 31"
  shows "\<exists>t. body_block c = Inr (rp_body rp @ [NUL, CR, LF] @ t)" and "unat (mc_body_size c) = length (rp_body rp)"
    and "is_cstr (rp_body rp) \<Longrightarrow> body_string c = Inr (rp_body rp)"
proof -
  obtain b t where b: "mc_body c = Some b" "drop b (mc_buffer c) = rp_body rp @ [NUL, CR, LF] @ t"
    using assms(1) by (auto simp: has_reply_def)
  then have block: "body_block c = Inr (rp_body rp @ [NUL, CR, LF] @ t)" by (simp add: body_block_def)
  then show "\<exists>t. body_block c = Inr (rp_body rp @ [NUL, CR, LF] @ t)" by blast
  show "unat (mc_body_size c) = length (rp_body rp)"
    using assms unat_small by (simp add: has_reply_def)
  show "body_string c = Inr (rp_body rp)" if "is_cstr (rp_body rp)"
    using block that by (simp add: body_string_def cstr_append_NUL)
qed

text \<open>The value a reply to GET stands for.\<close>

definition value_of_reply :: "nat \<Rightarrow> string \<Rightarrow> result_value" where
  "value_of_reply ty txt = (if ty = 0 then RDecimal (atoll txt) else if ty = 1 then RReal (atof txt) else RString txt)"

definition value_of_text :: "nat \<Rightarrow> string \<Rightarrow> reply" where
  "value_of_text ty txt = \<lparr>rp_code = ''200'', rp_description = ''OK'', rp_type = Some ty, rp_body = txt\<rparr>"

lemma value_reply_text: "t = of_nat ty \<Longrightarrow> ty \<le> 2 \<Longrightarrow> value_reply t txt = reply_text (value_of_text ty txt)"
proof -
  assume "t = of_nat ty" "ty \<le> 2"
  then have "int (unat t) = int ty" by (simp add: unat_of_nat)
  then show ?thesis
    by (simp add: value_reply_def value_header_def reply_text_def status_line_def size_line_def value_of_text_def
        RESPONSE_200_OK_def CRLF_def)
qed

lemma atoi_codes: "atoi ''200'' = 200"
  by code_simp

lemma value_reply_ok:
  assumes "length txt < 2 ^ 28" and "ty \<le> 2"
  shows "reply_ok (value_of_text ty txt)"
proof -
  have d: "length (fmt_d (int n)) \<le> 10" if "n < 2 ^ 28" for n
    using that length_dec_digits [of 10 n] by (simp add: fmt_d_nat)
  have "list_all isdigit ''200''" by code_simp
  moreover have "length (fmt_d (int (length txt))) \<le> 10" "length (fmt_d (int ty)) \<le> 10" using assms by (simp_all add: d)
  ultimately show ?thesis using assms
    by (simp add: reply_ok_def value_of_text_def reply_text_def status_line_def size_line_def CRLF_def)
qed

lemma read_value_reply:
  assumes "has_reply (value_of_text ty txt) c" and "length txt < 2 ^ 28" and "ty \<le> 2" and "ty = 2 \<or> is_cstr txt"
  shows "\<exists>sz. read_value c result = Inr (result\<lparr>vr_type := of_nat ty, vr_value := value_of_reply ty txt, vr_size := sz\<rparr>, True)"
proof -
  have t: "mc_body_type c = of_nat ty" using assms(1) by (simp add: has_reply_def value_of_text_def)
  have small: "length (rp_body (value_of_text ty txt)) < 2 ^ 31" using assms(2) by (simp add: value_of_text_def)
  have bodyeq: "rp_body (value_of_text ty txt) = txt" by (simp add: value_of_text_def)
  note body = has_reply_body [OF assms(1) small, unfolded bodyeq]
  consider "ty = 0" | "ty = 1" | "ty = 2" using assms(3) by linarith
  then show ?thesis
  proof cases
    case 1
    then have "body_string c = Inr txt" using body(3) assms(4) by simp
    with 1 t show ?thesis
      by (intro exI [of _ "vr_size result"]) (simp add: read_value_def result_types value_of_reply_def Let_def)
  next
    case 2
    then have "body_string c = Inr txt" using body(3) assms(4) by simp
    with 2 t show ?thesis
      by (intro exI [of _ "vr_size result"]) (simp add: read_value_def result_types value_of_reply_def Let_def)
  next
    case 3
    obtain u where "body_block c = Inr (txt @ [NUL, CR, LF] @ u)" using body(1) by auto
    with 3 t body(2) show ?thesis
      by (intro exI [of _ "ucast (mc_body_size c)"]) (simp add: read_value_def result_types value_of_reply_def Let_def)
  qed
qed

text \<open>The byte behind the body is zero already, so terminating it changes nothing.\<close>

lemma terminate_reply:
  assumes "has_reply rp c" and "length (rp_body rp) < 2 ^ 31"
  shows "terminate_body c = Inr c"
proof -
  obtain b t where b: "mc_body c = Some b" "drop b (mc_buffer c) = rp_body rp @ [NUL, CR, LF] @ t"
    using assms(1) by (auto simp: has_reply_def)
  have "length (drop b (mc_buffer c)) = length (rp_body rp) + 3 + length t" unfolding b(2) by simp
  then have len: "b + length (rp_body rp) < length (mc_buffer c)" by simp
  have "mc_buffer c ! (b + length (rp_body rp)) = drop b (mc_buffer c) ! length (rp_body rp)"
    using len by (simp add: add.commute)
  then have "mc_buffer c ! (b + length (rp_body rp)) = NUL" unfolding b(2) by simp
  then have "(mc_buffer c)[b + length (rp_body rp) := NUL] = mc_buffer c" by (metis list_update_id)
  with b(1) len has_reply_body(2) [OF assms] show ?thesis by (simp add: terminate_body_def)
qed

lemma exchange_value:
  assumes "delivers later (value_reply (of_nat ty) txt) s" and "steady env (value_of_text ty txt)"
    and "length txt < 2 ^ 28" and "ty \<le> 2"
  shows "\<exists>s'. exchange env request s = Inr (s', True) \<and> has_reply (value_of_text ty txt) (fst s') \<and> served later request s s'"
proof -
  have "delivers later (reply_text (value_of_text ty txt)) s" using assms(1,4) value_reply_text by simp
  from exchange_reply [OF value_reply_ok [OF assms(3,4)] assms(2) this, of request] show ?thesis
    by (simp add: value_of_text_def atoi_codes)
qed

lemma value_call_ok:
  assumes "delivers later (value_reply (of_nat ty) txt) s" and "steady env (value_of_text ty txt)"
    and "length txt < 2 ^ 28" and "ty \<le> 2" and "ty = 2 \<or> is_cstr txt"
  shows "\<exists>s' sz. value_request command env key (Some result) s =
      Inr (s', Some (result\<lparr>vr_type := of_nat ty, vr_value := value_of_reply ty txt, vr_size := sz\<rparr>), True) \<and>
    served later (key_request command key @ CRLF) s s'"
proof -
  obtain s' where s': "exchange env (command @ SP # key @ CRLF) s = Inr (s', True)"
      "has_reply (value_of_text ty txt) (fst s')" "served later (command @ SP # key @ CRLF) s s'"
    using exchange_value [OF assms(1-4)] by blast
  obtain sz where "read_value (fst s') result =
      Inr (result\<lparr>vr_type := of_nat ty, vr_value := value_of_reply ty txt, vr_size := sz\<rparr>, True)"
    using read_value_reply [OF s'(2) assms(3-5)] by blast
  with s' show ?thesis
    by (intro exI [of _ s'] exI [of _ sz]) (simp add: value_request_def key_request_def)
qed

lemma number_reply_ok:
  assumes "delivers later (value_reply (of_nat ty) txt) s" and "steady env (value_of_text ty txt)"
    and "length txt < 2 ^ 28" and "ty < 2" and "is_cstr txt"
  shows "\<exists>s'. number_reply env request (Some result) s =
      Inr (s', Some \<lparr>vr_type = of_nat ty, vr_value = value_of_reply ty txt, vr_size = 0\<rparr>, True) \<and> served later request s s'"
proof -
  have ty: "ty \<le> 2" using assms(4) by simp
  obtain s' where s': "exchange env request s = Inr (s', True)" "has_reply (value_of_text ty txt) (fst s')" "served later request s s'"
    using exchange_value [OF assms(1-3) ty] by blast
  have bodyeq: "rp_body (value_of_text ty txt) = txt" by (simp add: value_of_text_def)
  have small: "length (rp_body (value_of_text ty txt)) < 2 ^ 31" using assms(3) bodyeq by simp
  have t: "mc_body_type (fst s') = of_nat ty" using s'(2) by (simp add: has_reply_def value_of_text_def)
  have "body_string (fst s') = Inr txt" using has_reply_body(3) [OF s'(2) small] bodyeq assms(5) by simp
  moreover have "ty = 0 \<or> ty = 1" using assms(4) by auto
  ultimately show ?thesis using s'(1,3) t terminate_reply [OF s'(2) small]
    by (intro exI [of _ s']) (auto simp: number_reply_def Let_def result_types value_of_reply_def)
qed

section \<open>Properties\<close>

text \<open>
  GET and DEL of the client library send the request line and turn the server's reply, in
  whatever segments it arrives, into the result: its type, and the value, which is the number
  the text denotes or the bytes themselves. The reply has been consumed, so the next call
  starts with its own.
\<close>

theorem get_reads_value:
  assumes "delivers later (value_reply (of_nat ty) txt) s" and "steady env (value_of_text ty txt)"
    and "length txt < 2 ^ 28" and "ty \<le> 2" and "ty = 2 \<or> is_cstr txt"
  shows "(\<exists>s' sz. memuncached_get_lib env key (Some result) s =
      Inr (s', Some (result\<lparr>vr_type := of_nat ty, vr_value := value_of_reply ty txt, vr_size := sz\<rparr>), True) \<and>
      served later (''GET '' @ key @ CRLF) s s') \<and>
    (\<exists>s' sz. memuncached_del_lib env key (Some result) s =
      Inr (s', Some (result\<lparr>vr_type := of_nat ty, vr_value := value_of_reply ty txt, vr_size := sz\<rparr>), True) \<and>
      served later (''DEL '' @ key @ CRLF) s s')"
  using value_call_ok [OF assms, of "''GET''"] value_call_ok [OF assms, of "''DEL''"]
  by (simp_all add: memuncached_get_lib_def memuncached_del_lib_def key_request_def)

definition no_result :: memuncached_value_result where
  "no_result = \<lparr>vr_type = 0, vr_value = RUnset, vr_size = 0\<rparr>"

theorem get_reads_value_witness:
  "\<exists>s sz. memuncached_get_lib in_place ''k'' (Some no_result)
      (new_client, \<lparr>sk_in = [Data (''200 OK'' @ CRLF @ ''2 0'' @ CRLF @ ''4''), Data (CHR ''2'' # [NUL, CR, LF])], sk_out = []\<rparr>) =
    Inr (s, Some \<lparr>vr_type = 0, vr_value = RDecimal 42, vr_size = sz\<rparr>, True) \<and>
    sk_out (snd s) = ''GET k'' @ CRLF"
proof -
  have f: "fmt_d 2 = ''2''" "fmt_d 0 = ''0''" "atoll ''42'' = 42" by code_simp+
  let ?s = "(new_client, \<lparr>sk_in = [Data (''200 OK'' @ CRLF @ ''2 0'' @ CRLF @ ''4''), Data (CHR ''2'' # [NUL, CR, LF])], sk_out = []\<rparr>)"
  have "delivers [] (value_reply (of_nat 0) ''42'') ?s"
    by (simp add: delivers_def value_reply_def value_header_def RESPONSE_200_OK_def f reliable_def CRLF_def)
  then show ?thesis
    using get_reads_value [of "[]" 0 "''42''" ?s in_place "''k''" no_result]
    by (auto simp: served_def value_of_reply_def f no_result_def)
qed

definition count_text :: "string \<Rightarrow> string \<Rightarrow> int32 list \<Rightarrow> string" where
  "count_text command key args =
     key_request command key @
     concat (map (\<lambda>n. SP # fmt_d (sint n)) (take 2 (takeWhile (\<lambda>n. n \<noteq> LIBMEMUNCACHED_DEFAULT_INT) args))) @ CRLF"

lemma int_request_line:
  "int_request command key (map VInt (args @ [LIBMEMUNCACHED_DEFAULT_INT, LIBMEMUNCACHED_DEFAULT_INT])) =
    Inr (count_text command key args)"
proof (cases args)
  case (Cons a as)
  then show ?thesis
    by (cases as) (simp_all add: int_request_def va_int_def count_request_def count_text_def key_request_def)
qed (simp add: int_request_def va_int_def count_request_def count_text_def key_request_def)

text \<open>
  DEC with integers sends as many of its arguments, two at most, as stand before one that
  has the default value, and turns the number in the reply into the result.
\<close>

theorem dec_reads_number:
  assumes "delivers later (value_reply (of_nat ty) txt) s" and "steady env (value_of_text ty txt)"
    and "length txt < 2 ^ 28" and "ty < 2" and "is_cstr txt"
  shows "\<exists>s'. memuncached_dec_d env key (Some result) args s =
      Inr (s', Some \<lparr>vr_type = of_nat ty, vr_value = value_of_reply ty txt, vr_size = 0\<rparr>, True) \<and>
    served later (count_text ''DEC'' key args) s s'"
  using number_reply_ok [OF assms, of "count_text ''DEC'' key args" result]
  by (simp add: memuncached_dec_d_def memuncached_dec_lib_def int_request_line result_types del: map_append)

theorem dec_reads_number_witness:
  "\<exists>s. memuncached_dec_d in_place ''n'' (Some no_result) [2]
      (new_client, \<lparr>sk_in = [Data (''200 OK'' @ CRLF @ ''2 0'' @ CRLF @ ''40'' @ [NUL, CR, LF])], sk_out = []\<rparr>) =
    Inr (s, Some \<lparr>vr_type = 0, vr_value = RDecimal 40, vr_size = 0\<rparr>, True) \<and>
    sk_out (snd s) = ''DEC n 2'' @ CRLF"
proof -
  have f: "fmt_d 2 = ''2''" "fmt_d 0 = ''0''" "atoll ''40'' = 40" "(2 :: int32) \<noteq> LIBMEMUNCACHED_DEFAULT_INT"
    "fmt_d (sint (2 :: int32)) = ''2''" by code_simp+
  let ?s = "(new_client, \<lparr>sk_in = [Data (''200 OK'' @ CRLF @ ''2 0'' @ CRLF @ ''40'' @ [NUL, CR, LF])], sk_out = []\<rparr>)"
  have "delivers [] (value_reply (of_nat 0) ''40'') ?s"
    by (simp add: delivers_def value_reply_def value_header_def RESPONSE_200_OK_def f reliable_def CRLF_def)
  then show ?thesis
    using dec_reads_number [of "[]" 0 "''40''" ?s in_place "''n''" no_result "[2]"] f
    by (auto simp: served_def value_of_reply_def count_text_def key_request_def)
qed


text \<open>A result can be cleaned once; the pointer that is left in it is freed by a second call.\<close>

theorem cleaned_twice:
  fixes b sz
  defines "r \<equiv> \<lparr>vr_type = MEMCACHED_NUMBER_RESULT_STRING, vr_value = RString b, vr_size = sz\<rparr>"
  shows "\<exists>r'. memuncached_value_result_clean (Some r) = Inr (r', True) \<and> memuncached_value_result_clean r' = Inl DanglingAccess"
  by (simp add: r_def memuncached_value_result_clean_def)

end
