(* ===== verification/Conversation.thy ===== *)
theory Conversation
  imports Client
begin

text \<open>
  The client library and the server together: the bytes one side writes arrive at the other in
  any segments. Nothing of the program is defined here. The lemmas show that the client's calls
  write the requests the server understands and read the replies it writes.
\<close>

section \<open>Payloads on both sides\<close>

fun payload_bytes :: "payload \<Rightarrow> string" where
  "payload_bytes (PDecimal d) = fmt_d (sint d)"
| "payload_bytes (PReal r) = fmt_lf r"
| "payload_bytes (PString b) = b"

fun payload_number :: "payload \<Rightarrow> nat" where
  "payload_number (PDecimal _) = 0"
| "payload_number (PReal _) = 1"
| "payload_number (PString _) = 2"

fun payload_result :: "payload \<Rightarrow> result_value" where
  "payload_result (PDecimal d) = RDecimal d"
| "payload_result (PReal r) = RReal r"
| "payload_result (PString b) = RString b"

text \<open>Setting a value with the macro for its type.\<close>

fun client_set :: "client_env \<Rightarrow> string \<Rightarrow> payload \<Rightarrow> session \<Rightarrow> (session \<times> bool) res" where
  "client_set env key (PDecimal d) s = memuncached_set_d env key d s"
| "client_set env key (PReal r) s = memuncached_set_f env key r s"
| "client_set env key (PString b) s = memuncached_set_s env key b (of_nat (length b)) s"

text \<open>Values that survive: strings of one line, all decimals, integral real numbers.\<close>

fun portable :: "payload \<Rightarrow> bool" where
  "portable (PDecimal _) \<longleftrightarrow> True"
| "portable (PReal r) \<longleftrightarrow> (\<exists>i. \<bar>i\<bar> \<le> 2 ^ 53 \<and> r = int_to_double i)"
| "portable (PString b) \<longleftrightarrow> no_break b \<and> (b = [] \<or> hd b \<noteq> SP) \<and> length b < 2 ^ 28"

lemma number_words: "fmt_d 0 = ''0''" "fmt_d 1 = ''1''" "fmt_d 2 = ''2''"
  by code_simp+

lemma length_fmt_d: "nat \<bar>i\<bar> < 10 ^ k \<Longrightarrow> 0 < k \<Longrightarrow> length (fmt_d i) \<le> Suc k"
  using length_dec_digits [of k "nat \<bar>i\<bar>"] by (auto simp: fmt_d_def)

lemma length_fmt_d_int64: "length (fmt_d (sint (d :: int64))) \<le> 20"
proof -
  have "\<bar>sint d\<bar> \<le> 2 ^ 63" using sint_lt [of d] sint_ge [of d] by simp
  then have "nat \<bar>sint d\<bar> < 10 ^ 19" by simp
  then show ?thesis using length_fmt_d by fastforce
qed

lemma length_fmt_d_int54: "\<bar>i\<bar> \<le> 2 ^ 53 \<Longrightarrow> length (fmt_d i) \<le> 20"
proof -
  assume "\<bar>i\<bar> \<le> 2 ^ 53"
  then have "nat \<bar>i\<bar> < 10 ^ 19" by simp
  then show ?thesis using length_fmt_d by fastforce
qed

lemma portable_bytes:
  assumes "portable data"
  shows "no_break (payload_bytes data)" and "payload_bytes data = [] \<or> hd (payload_bytes data) \<noteq> SP"
    and "length (payload_bytes data) < 2 ^ 28" and "canonical (fmt_d (int (payload_number data))) (payload_bytes data)"
    and "payload_number data = 2 \<or> is_cstr (payload_bytes data)"
    and "value_of_reply (payload_number data) (payload_bytes data) = payload_result data"
proof -
  have word: "no_break (fmt_d i)" "hd (fmt_d i) \<noteq> SP" "fmt_d i \<noteq> []" for i
  proof -
    show ne: "fmt_d i \<noteq> []" by (simp add: fmt_d_def)
    show "no_break (fmt_d i)" by (simp add: no_break_def)
    show "hd (fmt_d i) \<noteq> SP" using fmt_d_chars [of "hd (fmt_d i)" i] ne by (auto simp: hd_in_set)
  qed
  have all: "no_break (payload_bytes data) \<and> (payload_bytes data = [] \<or> hd (payload_bytes data) \<noteq> SP) \<and>
    length (payload_bytes data) < 2 ^ 28 \<and> canonical (fmt_d (int (payload_number data))) (payload_bytes data) \<and>
    (payload_number data = 2 \<or> is_cstr (payload_bytes data)) \<and>
    value_of_reply (payload_number data) (payload_bytes data) = payload_result data"
  proof (cases data)
    case (PDecimal d)
    have "atoll (fmt_d (sint d)) = d" using atoll_fmt_d [of "[]" d] by (simp add: no_digit_def)
    then show ?thesis using PDecimal word [of "sint d"] length_fmt_d_int64 [of d]
      by (auto simp: canonical_def number_words value_of_reply_def)
  next
    case (PReal r)
    then obtain i where i: "\<bar>i\<bar> \<le> 2 ^ 53" "r = int_to_double i" using assms by auto
    have "atof (fmt_lf r) = r" using atof_fmt_lf_int [OF i(1), of "[]"] i(2) by (simp add: ends_real_def)
    moreover have "fmt_lf r = fmt_d i @ ''.000000''" using fmt_lf_int [OF i(1)] i(2) by simp
    ultimately show ?thesis using PReal i word [of i] length_fmt_d_int54 [OF i(1)]
      by (auto simp: canonical_def number_words value_of_reply_def)
  next
    case (PString b)
    then show ?thesis using assms by (simp add: canonical_def number_words value_of_reply_def)
  qed
  then show "no_break (payload_bytes data)" "payload_bytes data = [] \<or> hd (payload_bytes data) \<noteq> SP"
    "length (payload_bytes data) < 2 ^ 28" "canonical (fmt_d (int (payload_number data))) (payload_bytes data)"
    "payload_number data = 2 \<or> is_cstr (payload_bytes data)"
    "value_of_reply (payload_number data) (payload_bytes data) = payload_result data" by blast+
qed

section \<open>What the calls send and read\<close>

definition plain_reply :: "string \<Rightarrow> reply" where
  "plain_reply body = \<lparr>rp_code = ''200'', rp_description = ''OK'', rp_type = None, rp_body = body\<rparr>"

lemma plain_reply_text: "response_text RESPONSE_200_OK body = reply_text (plain_reply body)"
  by (simp add: response_text_def reply_text_def status_line_def size_line_def plain_reply_def RESPONSE_200_OK_def CRLF_def)

lemma plain_reply_ok: "length body < 2 ^ 28 \<Longrightarrow> reply_ok (plain_reply body)"
proof -
  assume "length body < 2 ^ 28"
  moreover from this have "length (fmt_d (int (length body))) \<le> 10"
    using length_dec_digits [of 10 "length body"] by (simp add: fmt_d_nat)
  moreover have "list_all isdigit ''200''" by code_simp
  ultimately show ?thesis
    by (simp add: reply_ok_def plain_reply_def reply_text_def status_line_def size_line_def CRLF_def)
qed

lemma exchange_plain:
  assumes "delivers later (response_text RESPONSE_200_OK body) s" and "steady env (plain_reply body)" and "length body < 2 ^ 28"
  shows "\<exists>s'. exchange env request s = Inr (s', True) \<and> has_reply (plain_reply body) (fst s') \<and> served later request s s'"
proof -
  have "delivers later (reply_text (plain_reply body)) s" using assms(1) plain_reply_text by simp
  from exchange_reply [OF plain_reply_ok [OF assms(3)] assms(2) this, of request] show ?thesis
    by (simp add: plain_reply_def atoi_codes)
qed

definition store_text :: "string \<Rightarrow> string \<Rightarrow> payload \<Rightarrow> string" where
  "store_text command key data =
     store_request command key (fmt_d (int (payload_number data))) (fmt_d (int (length (payload_bytes data)))) @ CRLF @
     payload_bytes data @ CRLF"

lemma store_call_text:
  assumes "type = of_nat (payload_number data)" and "length (payload_bytes data) < 2 ^ 28"
  shows "store_call command env key type data (of_nat (length (payload_bytes data))) s =
    exchange env (store_text command key data) s"
proof -
  have len: "sint (of_nat (length (payload_bytes data)) :: int32) = int (length (payload_bytes data))"
    using assms(2) sint_word_of_int32 [of "int (length (payload_bytes data))"] by simp
  show ?thesis
    using assms(1) len
    by (cases data) (simp_all add: store_call_def payload_text_def result_types store_text_def store_request_def)
qed

lemma client_set_text:
  assumes "portable data"
  shows "client_set env key data s = exchange env (store_text ''SET'' key data) s"
  using store_call_text [OF refl portable_bytes(3) [OF assms], of "''SET''" env key s]
  by (cases data) (simp_all add: memuncached_set_d_def memuncached_set_f_def memuncached_set_s_def memuncached_set_lib_def
      result_types)

section \<open>Properties\<close>

definition key_text :: "string \<Rightarrow> string \<Rightarrow> string" where
  "key_text command key = key_request command key @ CRLF"



definition stt_body :: "int32 \<Rightarrow> int32 \<Rightarrow> string" where
  "stt_body clients keys = ''Client-Count: '' @ fmt_d (sint clients) @ [LF] @ ''Key-Count: '' @ fmt_d (sint keys)"

lemma sstrstr_at:
  assumes "n = x # n'" and "is_cstr n" and "x \<notin> set u" and "length (u @ n) \<le> len" and "len \<le> length (u @ n @ t)"
  shows "sstrstr (u @ n @ t) n len = Some (length u)"
proof -
  have "take (length n) (drop k (u @ n @ t)) \<noteq> n" if "k < length u" for k
  proof
    assume eq: "take (length n) (drop k (u @ n @ t)) = n"
    have "drop k (u @ n @ t) = u ! k # drop (Suc k) (u @ n @ t)"
      using that Cons_nth_drop_Suc [of k "u @ n @ t"] by (simp add: nth_append del: drop_append)
    with eq assms(1) have "u ! k = x" by (metis list.inject length_Cons take_Suc_Cons)
    with that assms(3) nth_mem show False by blast
  qed
  moreover have "length u < len" using assms(1,4) by simp
  moreover have "take (length n) (drop (length u) (u @ n @ t)) = n" by simp
  ultimately show ?thesis
    using assms(2,4,5) by (auto simp: sstrstr_def cstr_id sstrstr_loop_Some simp del: take_append drop_append)
qed

lemma labelled_count_ok:
  assumes "body_block c = Inr ((u @ label @ fmt_d (sint n) @ v) @ NUL # t)"
    and "unat (mc_body_size c) = length (u @ label @ fmt_d (sint n) @ v)"
    and "label = x # l" "is_cstr label" "x \<notin> set u" "v = [] \<or> hd v = LF"
  shows "labelled_count label c = Inr n"
proof -
  have "sstrstr (u @ label @ (fmt_d (sint n) @ v @ NUL # t)) label (unat (mc_body_size c)) = Some (length u)"
    using assms(2) by (intro sstrstr_at [OF assms(3,4,5)]) simp_all
  moreover have "no_digit (v @ NUL # t)" using assms(6) by (cases v) (auto simp: no_digit_def)
  then have "atoi (fmt_d (sint n) @ v @ NUL # t) = n" by (rule atoi_fmt_d)
  ultimately show ?thesis using assms(1) by (simp add: labelled_count_def)
qed

lemma length_stt_body: "length (stt_body a b) < 2 ^ 28"
proof -
  have "length (fmt_d (sint (a :: int32))) \<le> 20" for a
    using sint_lt [of a] sint_ge [of a] by (intro length_fmt_d_int54) simp
  from this [of a] this [of b] show ?thesis by (simp add: stt_body_def)
qed

lemma stt_counts_found:
  assumes "has_reply (plain_reply (stt_body a b)) c"
  shows "labelled_count ''Client-Count: '' c = Inr a" and "labelled_count ''Key-Count: '' c = Inr b"
proof -
  have bodyeq: "rp_body (plain_reply (stt_body a b)) = stt_body a b" by (simp add: plain_reply_def)
  have small: "length (rp_body (plain_reply (stt_body a b))) < 2 ^ 31" using length_stt_body [of a b] bodyeq by simp
  note body = has_reply_body [OF assms small, unfolded bodyeq]
  obtain t where t: "body_block c = Inr (stt_body a b @ NUL # t)" using body(1) by auto
  show "labelled_count ''Client-Count: '' c = Inr a"
    using t body(2) unfolding stt_body_def
    by (intro labelled_count_ok [of c "[]" _ a "LF # ''Key-Count: '' @ fmt_d (sint b)" t _ "''lient-Count: ''"]) simp_all
  have "CHR ''K'' \<notin> set (fmt_d (sint a))" using fmt_d_chars [of "CHR ''K''" "sint a"] by (auto simp: isdigit_def)
  then have K: "CHR ''K'' \<notin> set (''Client-Count: '' @ fmt_d (sint a) @ [LF])" by simp
  show "labelled_count ''Key-Count: '' c = Inr b"
    by (rule labelled_count_ok [of c "''Client-Count: '' @ fmt_d (sint a) @ [LF]" "''Key-Count: ''" b "[]" t
          "CHR ''K''" "''ey-Count: ''"])
      (use t body(2) K in \<open>simp_all add: stt_body_def del: set_append list.set\<close>)
qed

text \<open>
  The statistics the client returns are those the server counts: STT finds both numbers in
  the body of the reply.
\<close>

theorem stt_reports_counts:
  assumes "sk_out (w_sock (memuncached_stt w)) = sk_out (w_sock w) @ reply" and "delivers later reply s"
    and "\<forall>n. ce_realloc env n = InPlace"
  shows "\<exists>s' clients keys. memuncached_stt_lib env (Some r) s = Inr (s', \<lparr>sr_client_count = clients, sr_key_count = keys\<rparr>, True) \<and>
    sint clients = to_int (v_count (w_clients w)) \<and> sint keys = to_int (ht_count (w_table w)) \<and> served later (''STT'' @ CRLF) s s'"
proof -
  let ?a = "word_of_int (sint (v_count (w_clients w))) :: int32" and ?b = "word_of_int (sint (ht_count (w_table w))) :: int32"
  have "reply = response_text RESPONSE_200_OK (stt_body ?a ?b)"
    using assms(1) by (simp add: memuncached_stt_def reply_defs send_def stt_body_def to_int_def)
  with assms(2) have d: "delivers later (response_text RESPONSE_200_OK (stt_body ?a ?b)) s" by simp
  have "steady env (plain_reply (stt_body ?a ?b))" using assms(3) by (simp add: steady_def)
  from exchange_plain [OF d this length_stt_body, of "''STT'' @ CRLF"] obtain s' where
    "exchange env (''STT'' @ CRLF) s = Inr (s', True)" "has_reply (plain_reply (stt_body ?a ?b)) (fst s')"
    "served later (''STT'' @ CRLF) s s'" by blast
  then show ?thesis
    by (intro exI [of _ s'] exI [of _ ?a] exI [of _ ?b]) (simp add: memuncached_stt_lib_def stt_counts_found to_int_def)
qed

theorem stt_reports_counts_witness:
  "\<exists>s. memuncached_stt_lib in_place (Some \<lparr>sr_client_count = 9, sr_key_count = 9\<rparr>)
      (new_client, \<lparr>sk_in = [Data (response_text RESPONSE_200_OK (''Client-Count: 0'' @ [LF] @ ''Key-Count: 0''))], sk_out = []\<rparr>) =
    Inr (s, \<lparr>sr_client_count = 0, sr_key_count = 0\<rparr>, True)"
proof -
  let ?w = "fresh_world (hash_table_create 1000) []"
  let ?reply = "response_text RESPONSE_200_OK (''Client-Count: 0'' @ [LF] @ ''Key-Count: 0'')"
  let ?s = "(new_client, \<lparr>sk_in = [Data ?reply], sk_out = []\<rparr>)"
  have c: "to_int (v_count (w_clients ?w)) = 0" "to_int (ht_count (w_table ?w)) = 0"
    by (simp_all add: fresh_world_def to_int_def hash_table_create_def)
  have "sk_out (w_sock (memuncached_stt ?w)) = sk_out (w_sock ?w) @ ?reply"
    unfolding memuncached_stt_def c by (simp add: number_words reply_defs send_def)
  moreover have "delivers [] ?reply ?s" by (simp add: delivers_def reliable_def)
  ultimately obtain s' clients keys where
    "memuncached_stt_lib in_place (Some \<lparr>sr_client_count = 9, sr_key_count = 9\<rparr>) ?s =
      Inr (s', \<lparr>sr_client_count = clients, sr_key_count = keys\<rparr>, True)" "sint clients = 0" "sint keys = 0"
    using stt_reports_counts [of ?w ?reply "[]" ?s in_place "\<lparr>sr_client_count = 9, sr_key_count = 9\<rparr>"] c
    by (auto simp: in_place_def)
  then show ?thesis by (auto simp: signed_eq_0_iff)
qed

end
