(* ===== verification/Dialogue.thy ===== *)
theory Dialogue
  imports Conversation Service
begin

text \<open>
  Sequences of client calls against the server. The bytes each side writes reach the other in
  segments that an arbitrary division decides. Nothing of the program is defined here; the
  definitions are the calls, their abstract outcomes and the exchange of bytes, and the lemmas
  show that the calls have the outcomes of the abstract cache of Service.
\<close>

section \<open>Printed numbers\<close>

lemma fmt_lf_chars: "c \<in> set (fmt_lf r) \<Longrightarrow> isdigit c \<or> c \<in> set ''-.infa''"
proof (cases r)
  case (Fin s m e)
  have d: "c \<in> set (dec_digits n) \<Longrightarrow> isdigit c" for n
    using dec_digits_isdigit [of n] by (auto simp: list_all_iff)
  have z: "c \<in> set (pad6 n) \<Longrightarrow> isdigit c" for n
    using d [of n] by (auto simp: pad6_def Let_def isdigit_def)
  obtain x y where "fmt_lf r = sign_str s @ dec_digits x @ ''.'' @ pad6 y"
    unfolding Fin fmt_lf.simps Let_def by blast
  moreover assume "c \<in> set (fmt_lf r)"
  ultimately consider "c \<in> set (sign_str s)" | "c \<in> set (dec_digits x)" | "c = CHR ''.''" | "c \<in> set (pad6 y)" by auto
  then show ?thesis by cases (use d z in \<open>auto simp: sign_str_def split: if_splits\<close>)
qed (auto simp: sign_str_def split: if_splits)

lemma fmt_lf_word: "is_cstr (fmt_lf r)" "no_break (fmt_lf r)" "hd (fmt_lf r) \<noteq> SP"
proof -
  have "c \<noteq> NUL \<and> c \<noteq> CR \<and> c \<noteq> LF \<and> c \<noteq> SP" if "c \<in> set (fmt_lf r)" for c
    using fmt_lf_chars [OF that] by (auto simp: isdigit_def)
  moreover have "fmt_lf r \<noteq> []" by (cases r) (simp_all add: Let_def)
  ultimately show "is_cstr (fmt_lf r)" "no_break (fmt_lf r)" "hd (fmt_lf r) \<noteq> SP"
    by (auto simp: is_cstr_def no_break_def)
qed

section \<open>Calls and their outcomes\<close>

text \<open>
  The calls of the library on one key. INC is called without arguments, in the form for real
  numbers, DEC in the form for integers.
\<close>

datatype call =
    SetCall string payload
  | AddCall string payload
  | GetCall string
  | DelCall string
  | IncCall string
  | DecCall string arguments

text \<open>Success, and the type and the value of the result.\<close>

type_synonym outcome = "bool \<times> (8 word \<times> result_value) option"

fun client_add :: "client_env \<Rightarrow> string \<Rightarrow> payload \<Rightarrow> session \<Rightarrow> (session \<times> bool) res" where
  "client_add env key (PDecimal d) s = memuncached_add_d env key d s"
| "client_add env key (PReal r) s = memuncached_add_f env key r s"
| "client_add env key (PString b) s = memuncached_add_s env key b (of_nat (length b)) s"

fun dec_arguments :: "arguments \<Rightarrow> int32 list" where
  "dec_arguments NoArguments = []"
| "dec_arguments (Offset n) = [of_nat n]"
| "dec_arguments (OffsetInitial n i) = [of_nat n, ucast i]"

definition value_outcome :: "(session \<times> memuncached_value_result option \<times> bool) res \<Rightarrow> (session \<times> outcome) res" where
  "value_outcome r =
     map_res (\<lambda>(s, result, ok). (s, ok, if ok then map_option (\<lambda>v. (vr_type v, vr_value v)) result else None)) r"

fun client_call :: "client_env \<Rightarrow> call \<Rightarrow> session \<Rightarrow> (session \<times> outcome) res" where
  "client_call env (SetCall k p) s = map_res (\<lambda>(s, ok). (s, ok, None)) (client_set env k p s)"
| "client_call env (AddCall k p) s = map_res (\<lambda>(s, ok). (s, ok, None)) (client_add env k p s)"
| "client_call env (GetCall k) s = value_outcome (memuncached_get_lib env k (Some no_result) s)"
| "client_call env (DelCall k) s = value_outcome (memuncached_del_lib env k (Some no_result) s)"
| "client_call env (IncCall k) s = value_outcome (memuncached_inc_f env k (Some no_result) [] s)"
| "client_call env (DecCall k a) s = value_outcome (memuncached_dec_d env k (Some no_result) (dec_arguments a) s)"

text \<open>The request a call stands for.\<close>

definition type_word :: "payload \<Rightarrow> string" where
  "type_word p = fmt_d (int (payload_number p))"

fun request_of :: "call \<Rightarrow> request" where
  "request_of (SetCall k p) = Store True k (type_word p) (payload_bytes p)"
| "request_of (AddCall k p) = Store False k (type_word p) (payload_bytes p)"
| "request_of (GetCall k) = Get k"
| "request_of (DelCall k) = Del k"
| "request_of (IncCall k) = Count True k NoArguments"
| "request_of (DecCall k a) = Count False k a"

text \<open>
  Calls the library can make: single-line strings, numbers that print within the limits of the
  buffer, integer arguments of the C type other than the default.
\<close>

fun payload_ok :: "payload \<Rightarrow> bool" where
  "payload_ok (PDecimal _) \<longleftrightarrow> True"
| "payload_ok (PReal r) \<longleftrightarrow> length (fmt_lf r) < 2 ^ 28"
| "payload_ok (PString b) \<longleftrightarrow> no_break b \<and> (b = [] \<or> hd b \<noteq> SP) \<and> length b < 2 ^ 28"

fun arguments_ok :: "arguments \<Rightarrow> bool" where
  "arguments_ok NoArguments \<longleftrightarrow> True"
| "arguments_ok (Offset n) \<longleftrightarrow> n < 2 ^ 31"
| "arguments_ok (OffsetInitial n i) \<longleftrightarrow> n < 2 ^ 31 \<and> - (2 ^ 31) < sint i \<and> sint i < 2 ^ 31"

fun call_ok :: "call \<Rightarrow> bool" where
  "call_ok (SetCall k p) \<longleftrightarrow> is_word k \<and> payload_ok p"
| "call_ok (AddCall k p) \<longleftrightarrow> is_word k \<and> payload_ok p"
| "call_ok (GetCall k) \<longleftrightarrow> is_word k"
| "call_ok (DelCall k) \<longleftrightarrow> is_word k"
| "call_ok (IncCall k) \<longleftrightarrow> is_word k"
| "call_ok (DecCall k a) \<longleftrightarrow> is_word k \<and> arguments_ok a"

text \<open>
  The abstract outcome, from the value that is returned: reals arrive as they are printed.
  \<open>None\<close> is a value too long for the client.
\<close>

fun received :: "heap_value \<Rightarrow> result_value" where
  "received (VDecimal d) = RDecimal d"
| "received (VReal r) = RReal (atof (fmt_lf r))"
| "received (VString s) = RString s"
| "received _ = RUnset"

definition value_result :: "heap_value option \<Rightarrow> outcome option" where
  "value_result v =
     (case v of
        None \<Rightarrow> Some (False, None)
      | Some v \<Rightarrow> if length (value_text v) < 2 ^ 28 then Some (True, Some (type_of_value v, received v)) else None)"

fun call_result :: "(string \<Rightarrow> nat) \<Rightarrow> call \<Rightarrow> cache \<Rightarrow> outcome option" where
  "call_result h (SetCall k p) c = Some (True, None)"
| "call_result h (AddCall k p) c = Some (c (h k) = None, None)"
| "call_result h (GetCall k) c = value_result (c (h k))"
| "call_result h (DelCall k) c = value_result (c (h k))"
| "call_result h (IncCall k) c = value_result (counted True NoArguments (c (h k)))"
| "call_result h (DecCall k a) c = value_result (counted False a (c (h k)))"

fun calls_run :: "(string \<Rightarrow> nat) \<Rightarrow> call list \<Rightarrow> cache \<Rightarrow> (cache \<times> outcome list) option" where
  "calls_run h [] c = Some (c, [])"
| "calls_run h (x # xs) c =
     (case (cache_step h (request_of x) c, call_result h x c) of
        (Some (c, _), Some r) \<Rightarrow> map_option (\<lambda>(c, rs). (c, r # rs)) (calls_run h xs c)
      | _ \<Rightarrow> None)"

section \<open>What a call sends and makes of the reply\<close>

lemma payload_ok_bytes:
  assumes "payload_ok p"
  shows "no_break (payload_bytes p)" "payload_bytes p = [] \<or> hd (payload_bytes p) \<noteq> SP" "length (payload_bytes p) < 2 ^ 28"
    "wire_type (type_word p)"
proof -
  have "no_break (fmt_d i)" "hd (fmt_d i) \<noteq> SP" for i
  proof -
    show "no_break (fmt_d i)" by (simp add: no_break_def)
    show "hd (fmt_d i) \<noteq> SP"
      using fmt_d_chars [of "hd (fmt_d i)" i] by (cases "fmt_d i = []") (auto simp: hd_in_set fmt_d_def)
  qed
  with assms length_fmt_d_int64 show "no_break (payload_bytes p)" "payload_bytes p = [] \<or> hd (payload_bytes p) \<noteq> SP"
    "length (payload_bytes p) < 2 ^ 28"
    by (cases p; auto simp: fmt_lf_word intro: le_less_trans [OF length_fmt_d_int64])+
  show "wire_type (type_word p)" by (cases p) (simp_all add: type_word_def number_words wire_type_def)
qed

lemma request_of_ok: "call_ok x \<Longrightarrow> request_ok (request_of x)"
proof (cases x)
  case (DecCall k a)
  then show "call_ok x \<Longrightarrow> request_ok (request_of x)" by (cases a) auto
qed (auto dest: payload_ok_bytes)

lemma store_texts:
  assumes "payload_ok p"
  shows "client_set env k p s = exchange env (store_text ''SET'' k p) s"
    and "client_add env k p s = exchange env (store_text ''ADD'' k p) s"
proof -
  note st = store_call_text [OF refl payload_ok_bytes(3) [OF assms]]
  show "client_set env k p s = exchange env (store_text ''SET'' k p) s"
    using st [of "''SET''" env k s]
    by (cases p) (simp_all add: memuncached_set_d_def memuncached_set_f_def memuncached_set_s_def memuncached_set_lib_def result_types)
  show "client_add env k p s = exchange env (store_text ''ADD'' k p) s"
    using st [of "''ADD''" env k s]
    by (cases p) (simp_all add: memuncached_add_d_def memuncached_add_f_def memuncached_add_s_def memuncached_add_lib_def result_types)
qed

text \<open>A reply that is only a status.\<close>

lemma exchange_status:
  assumes "delivers later (response_text (code @ SP # description) []) s" and "\<forall>n. ce_realloc env n = InPlace"
    and "length code = 3" and "list_all isdigit code" and "no_break description" and "length description < 100"
  shows "\<exists>s'. exchange env request s = Inr (s', atoi code = 200) \<and> served later request s s'"
proof -
  let ?rp = "\<lparr>rp_code = code, rp_description = description, rp_type = None, rp_body = []\<rparr>"
  have t: "response_text (code @ SP # description) [] = reply_text ?rp"
    by (simp add: response_text_def reply_text_def status_line_def size_line_def CRLF_def)
  have ok: "reply_ok ?rp"
    using assms(3-6) number_words(1) by (simp add: reply_ok_def reply_text_def status_line_def size_line_def CRLF_def)
  have "steady env ?rp" using assms(2) by (simp add: steady_def)
  from exchange_reply [OF ok this assms(1) [unfolded t], of request] show ?thesis by auto
qed

lemma status_replies:
  assumes "\<forall>n. ce_realloc env n = InPlace"
  shows "delivers later (response_text RESPONSE_200_OK []) s \<Longrightarrow> \<exists>s'. exchange env request s = Inr (s', True) \<and> served later request s s'"
    and "delivers later (response_text RESPONSE_404_NOT_FOUND []) s \<Longrightarrow> \<exists>s'. exchange env request s = Inr (s', False) \<and> served later request s s'"
    and "delivers later (response_text RESPONSE_409_KEY_EXISTS []) s \<Longrightarrow> \<exists>s'. exchange env request s = Inr (s', False) \<and> served later request s s'"
proof -
  have codes: "RESPONSE_200_OK = ''200'' @ SP # ''OK''" "RESPONSE_404_NOT_FOUND = ''404'' @ SP # ''NOT FOUND''"
    "RESPONSE_409_KEY_EXISTS = ''409'' @ SP # ''KEY EXISTS''"
    by (simp_all add: RESPONSE_200_OK_def RESPONSE_404_NOT_FOUND_def RESPONSE_409_KEY_EXISTS_def)
  have n: "atoi ''200'' = 200" "atoi ''404'' \<noteq> 200" "atoi ''409'' \<noteq> 200" by code_simp+
  have d: "list_all isdigit ''200''" "list_all isdigit ''404''" "list_all isdigit ''409''" by code_simp+
  show "delivers later (response_text RESPONSE_200_OK []) s \<Longrightarrow> \<exists>s'. exchange env request s = Inr (s', True) \<and> served later request s s'"
    unfolding codes(1) by (drule exchange_status [OF _ assms, where request = request]) (use n d in simp_all)
  show "delivers later (response_text RESPONSE_404_NOT_FOUND []) s \<Longrightarrow> \<exists>s'. exchange env request s = Inr (s', False) \<and> served later request s s'"
    unfolding codes(2) by (drule exchange_status [OF _ assms, where request = request]) (use n d in simp_all)
  show "delivers later (response_text RESPONSE_409_KEY_EXISTS []) s \<Longrightarrow> \<exists>s'. exchange env request s = Inr (s', False) \<and> served later request s s'"
    unfolding codes(3) by (drule exchange_status [OF _ assms, where request = request]) (use n d in simp_all)
qed

text \<open>The values a table holds, and how they are printed and read.\<close>

fun proper :: "heap_value \<Rightarrow> bool" where
  "proper VNull \<longleftrightarrow> False"
| "proper VFreed \<longleftrightarrow> False"
| "proper _ \<longleftrightarrow> True"

lemma value_on_the_wire:
  assumes "proper v"
  obtains ty where "type_of_value v = of_nat ty" "ty \<le> 2" "ty = 2 \<or> is_cstr (value_text v)"
    "value_of_reply ty (value_text v) = received v" "\<not> is_string v \<Longrightarrow> ty < 2"
proof (cases v)
  case (VDecimal d)
  have "atoll (fmt_d (sint d)) = d" using atoll_fmt_d [of "[]" d] by (simp add: no_digit_def)
  then show ?thesis using that [of 0] VDecimal by (simp add: type_of_value_def cache_types value_of_reply_def)
next
  case (VReal r)
  then show ?thesis using that [of 1] by (simp add: type_of_value_def cache_types value_of_reply_def fmt_lf_word)
next
  case (VString b)
  then show ?thesis using that [of 2] by (simp add: type_of_value_def cache_types value_of_reply_def)
qed (use assms in simp_all)

lemma value_call_outcome:
  assumes "delivers later (found_reply v) s" and "\<forall>n. ce_realloc env n = InPlace" and "value_result v = Some r"
    and "\<And>x. v = Some x \<Longrightarrow> proper x"
  shows "\<exists>s'. value_outcome (value_request command env k (Some no_result) s) = Inr (s', r) \<and> served later (key_request command k @ CRLF) s s'"
proof (cases v)
  case None
  then have d: "delivers later (response_text RESPONSE_404_NOT_FOUND []) s" using assms(1) by (simp add: found_reply_def)
  from status_replies(2) [OF assms(2) this, of "command @ SP # k @ CRLF"] None assms(3) show ?thesis
    by (auto simp: value_request_def value_outcome_def value_result_def key_request_def)
next
  case (Some x)
  obtain ty where ty: "type_of_value x = of_nat ty" "ty \<le> 2" "ty = 2 \<or> is_cstr (value_text x)"
    "value_of_reply ty (value_text x) = received x" using value_on_the_wire assms(4) Some by blast
  have d: "delivers later (value_reply (of_nat ty) (value_text x)) s" using assms(1) Some ty(1) by (simp add: found_reply_def)
  have r: "length (value_text x) < 2 ^ 28" "r = (True, Some (of_nat ty, received x))"
    using assms(3) Some ty(1) by (auto simp: value_result_def split: if_splits)
  have "steady env (value_of_text ty (value_text x))" using assms(2) by (simp add: steady_def)
  from value_call_ok [OF d this r(1) ty(2,3), of command k no_result] ty(4) r(2) show ?thesis
    by (auto simp: value_outcome_def no_result_def)
qed

lemma number_call_outcome:
  assumes "delivers later (found_reply (Some v)) s" and "\<forall>n. ce_realloc env n = InPlace" and "value_result (Some v) = Some r"
    and "proper v" and "\<not> is_string v"
  shows "\<exists>s'. value_outcome (number_reply env request (Some no_result) s) = Inr (s', r) \<and> served later request s s'"
proof -
  obtain ty where ty: "type_of_value v = of_nat ty" "ty \<le> 2" "ty = 2 \<or> is_cstr (value_text v)"
    "value_of_reply ty (value_text v) = received v" "ty < 2" using value_on_the_wire assms(4,5) by blast
  have d: "delivers later (value_reply (of_nat ty) (value_text v)) s" using assms(1) ty(1) by (simp add: found_reply_def)
  have r: "length (value_text v) < 2 ^ 28" "r = (True, Some (of_nat ty, received v))"
    using assms(3) ty(1) by (auto simp: value_result_def split: if_splits)
  have c: "is_cstr (value_text v)" using ty(3,5) by auto
  have "steady env (value_of_text ty (value_text v))" using assms(2) by (simp add: steady_def)
  from number_reply_ok [OF d this r(1) ty(5) c, of request no_result] ty(4) r(2) show ?thesis
    by (auto simp: value_outcome_def)
qed

lemma counted_number: "counted up a old = Some v \<Longrightarrow> proper v \<and> \<not> is_string v"
  by (auto simp: counted_def Let_def split: option.splits heap_value.splits if_splits)

lemma dec_text:
  assumes "arguments_ok a"
  shows "count_text ''DEC'' k (dec_arguments a) = key_request ''DEC'' k @ arguments_text a @ CRLF"
proof -
  have n: "sint (of_nat n :: int32) = int n" "(of_nat n :: int32) \<noteq> LIBMEMUNCACHED_DEFAULT_INT" if "n < 2 ^ 31" for n
  proof -
    show s: "sint (of_nat n :: int32) = int n" using that sint_word_of_int32 [of "int n"] by simp
    have "sint LIBMEMUNCACHED_DEFAULT_INT = - (2 ^ 31)" by code_simp
    with s show "(of_nat n :: int32) \<noteq> LIBMEMUNCACHED_DEFAULT_INT" by auto
  qed
  have i: "sint (ucast i :: int32) = sint i" "(ucast i :: int32) \<noteq> LIBMEMUNCACHED_DEFAULT_INT"
    if "- (2 ^ 31) < sint i" "sint i < 2 ^ 31" for i :: int64
  proof -
    have "(ucast :: int64 \<Rightarrow> int32) = scast" by (rule down_cast_same) (simp_all add: is_down)
    then have "(ucast i :: int32) = word_of_int (sint i)" by (simp only: scast_eq)
    then show s: "sint (ucast i :: int32) = sint i" using that sint_word_of_int32 [of "sint i"] by (simp only: less_imp_le)
    have "sint LIBMEMUNCACHED_DEFAULT_INT = - (2 ^ 31)" by code_simp
    with s that show "(ucast i :: int32) \<noteq> LIBMEMUNCACHED_DEFAULT_INT" by auto
  qed
  show ?thesis using assms n i by (cases a) (simp_all add: count_text_def)
qed

text \<open>
  A call against the reply that the abstract cache gives to its request: the request is sent,
  the reply consumed, and the outcome is the abstract one.
\<close>

lemma call_outcome:
  assumes "call_ok x" and "cache_step h (request_of x) c = Some (c', reply)" and "call_result h x c = Some r"
    and "delivers later reply s" and "\<forall>n. ce_realloc env n = InPlace" and "\<And>b v. c b = Some v \<Longrightarrow> proper v"
  shows "\<exists>s'. client_call env x s = Inr (s', r) \<and> served later (request_text (request_of x)) s s'"
proof (cases x)
  case (SetCall k p)
  then have d: "delivers later (response_text RESPONSE_200_OK []) s" and r: "r = (True, None)" "payload_ok p" using assms(1-4) by auto
  have tx: "request_text (request_of x) = store_text ''SET'' k p" using SetCall by (simp add: store_text_def type_word_def)
  obtain s' where "exchange env (store_text ''SET'' k p) s = Inr (s', True)" "served later (store_text ''SET'' k p) s s'"
    using status_replies(1) [OF assms(5) d] by blast
  then show ?thesis unfolding tx using SetCall store_texts(1) [OF r(2)] r(1) by simp
next
  case (AddCall k p)
  then have p: "payload_ok p" "r = (c (h k) = None, None)" using assms(1,3) by auto
  have tx: "request_text (request_of x) = store_text ''ADD'' k p" using AddCall by (simp add: store_text_def type_word_def)
  show ?thesis
  proof (cases "c (h k) = None")
    case True
    then have "delivers later (response_text RESPONSE_200_OK []) s" using assms(2,4) AddCall by simp
    from status_replies(1) [OF assms(5) this] obtain s' where
      "exchange env (store_text ''ADD'' k p) s = Inr (s', True)" "served later (store_text ''ADD'' k p) s s'" by blast
    then show ?thesis unfolding tx using AddCall store_texts(2) [OF p(1)] p(2) True by auto
  next
    case False
    then have "delivers later (response_text RESPONSE_409_KEY_EXISTS []) s" using assms(2,4) AddCall by auto
    from status_replies(3) [OF assms(5) this] obtain s' where
      "exchange env (store_text ''ADD'' k p) s = Inr (s', False)" "served later (store_text ''ADD'' k p) s s'" by blast
    then show ?thesis unfolding tx using AddCall store_texts(2) [OF p(1)] p(2) False by auto
  qed
next
  case (GetCall k)
  with assms(2-4) have d: "delivers later (found_reply (c (h k))) s" "value_result (c (h k)) = Some r" by auto
  from value_call_outcome [OF d(1) assms(5) d(2) assms(6), where command = "''GET''" and k = k] GetCall show ?thesis
    by (simp add: memuncached_get_lib_def)
next
  case (DelCall k)
  with assms(2-4) have d: "delivers later (found_reply (c (h k))) s" "value_result (c (h k)) = Some r" by auto
  from value_call_outcome [OF d(1) assms(5) d(2) assms(6), where command = "''DEL''" and k = k] DelCall show ?thesis
    by (simp add: memuncached_del_lib_def)
next
  case (IncCall k)
  with assms(2) obtain v where v: "counted True NoArguments (c (h k)) = Some v" "reply = found_reply (Some v)" by auto
  have d: "delivers later (found_reply (Some v)) s" "value_result (Some v) = Some r" using v assms(3,4) IncCall by auto
  have "memuncached_inc_f env k (Some no_result) [] s = number_reply env (''INC '' @ k @ CRLF) (Some no_result) s"
    by (simp add: memuncached_inc_f_def memuncached_inc_lib_def double_request_def va_double_def count_request_def)
  with number_call_outcome [OF d(1) assms(5) d(2), of "''INC '' @ k @ CRLF"] counted_number [OF v(1)] IncCall show ?thesis
    by (simp add: key_request_def)
next
  case (DecCall k a)
  with assms(2) obtain v where v: "counted False a (c (h k)) = Some v" "reply = found_reply (Some v)" by auto
  have d: "delivers later (found_reply (Some v)) s" "value_result (Some v) = Some r" using v assms(3,4) DecCall by auto
  have a: "arguments_ok a" using assms(1) DecCall by simp
  have "memuncached_dec_d env k (Some no_result) (dec_arguments a) s =
      number_reply env (count_text ''DEC'' k (dec_arguments a)) (Some no_result) s"
    by (simp add: memuncached_dec_d_def memuncached_dec_lib_def int_request_line result_types del: map_append)
  with number_call_outcome [OF d(1) assms(5) d(2), of "count_text ''DEC'' k (dec_arguments a)"] counted_number [OF v(1)] DecCall
  show ?thesis unfolding dec_text [OF a] by simp
qed

section \<open>Dialogues\<close>

text \<open>
  A division of byte strings into segments; the number of the call may matter. In a dialogue
  each call is made on the segments of the server's reply to the request that the call has
  sent, and the server serves the segments of that request.
\<close>

definition division :: "(nat \<Rightarrow> string \<Rightarrow> event list) \<Rightarrow> bool" where
  "division d \<longleftrightarrow> (\<forall>i x. reliable (d i x) \<and> incoming (d i x) = x)"

inductive dialogue ::
    "client_env \<Rightarrow> environment \<Rightarrow> (nat \<Rightarrow> string \<Rightarrow> event list) \<Rightarrow> (nat \<Rightarrow> string \<Rightarrow> event list) \<Rightarrow>
      nat \<Rightarrow> call list \<Rightarrow> memuncached_client \<Rightarrow> world \<Rightarrow> outcome list \<Rightarrow> memuncached_client \<Rightarrow> world \<Rightarrow> bool"
  for cenv env to_server to_client where
  nothing: "dialogue cenv env to_server to_client i [] m w [] m w"
| call: "client_call cenv x (m, \<lparr>sk_in = to_client i reply, sk_out = []\<rparr>) = Inr ((m1, sk), r) \<Longrightarrow>
    connection_steps env n (Outer, after_read (to_server i (sk_out sk)) w) = Some (Inr (Outer, w1)) \<Longrightarrow>
    sk_out (w_sock w1) = sk_out (w_sock w) @ reply \<Longrightarrow>
    dialogue cenv env to_server to_client (Suc i) xs m1 w1 rs m2 w2 \<Longrightarrow>
    dialogue cenv env to_server to_client i (x # xs) m w (r # rs) m2 w2"

lemma serving_proper: "serving w c \<Longrightarrow> c b = Some v \<Longrightarrow> proper v"
proof -
  assume "serving w c" "c b = Some v"
  then obtain cv where "entries (w_table w) b = Some cv" "cv_value cv = v" "ht_inv (w_table w)"
    by (auto simp: serving_def contents_def)
  moreover from this have "entry_ok (the (entries (w_table w) b))" using ht_entry_ok by simp
  ultimately show "proper v" by (cases v) (simp_all add: entry_ok_def)
qed

lemma dialogue_refines:
  assumes "serving w c" and "good_memory env" and "buffer_ok m" and "\<forall>n. ce_realloc cenv n = InPlace"
    and "division to_server" and "division to_client"
    and "list_all call_ok xs" and "calls_run (bucket (w_table w)) xs c = Some (c', rs)"
  shows "\<exists>m' w'. dialogue cenv env to_server to_client i xs m w rs m' w' \<and> serving w' c'"
  using assms(1,3,7,8)
proof (induction xs arbitrary: i m w c rs)
  case Nil
  then show ?case by (auto intro: dialogue.nothing)
next
  case (Cons x xs)
  let ?h = "bucket (w_table w)" and ?rq = "request_text (request_of x)"
  obtain c1 reply r where step: "cache_step ?h (request_of x) c = Some (c1, reply)" "call_result ?h x c = Some r"
    using Cons.prems(4) by (auto split: option.splits)
  then obtain rest where rest: "calls_run ?h xs c1 = Some (c', rest)" "rs = r # rest"
    using Cons.prems(4) by auto
  have x: "call_ok x" "list_all call_ok xs" using Cons.prems(3) by simp_all
  let ?s = "(m, \<lparr>sk_in = to_client i reply, sk_out = []\<rparr>)"
  have "delivers [] reply ?s" using Cons.prems(2) assms(6) by (simp add: delivers_def division_def)
  then have "\<exists>s1. client_call cenv x ?s = Inr (s1, r) \<and> served [] ?rq ?s s1"
    using call_outcome [OF x(1) step _ assms(4)] serving_proper [OF Cons.prems(1)] by blast
  then obtain m1 sk where
    call: "client_call cenv x ?s = Inr ((m1, sk), r)" "served [] ?rq ?s (m1, sk)" by (metis surj_pair)
  then have sk: "sk_out sk = ?rq" "buffer_ok m1" by (simp_all add: served_def delivers_def)
  have "reliable (to_server i ?rq)" "incoming (to_server i ?rq) = ?rq" using assms(5) by (simp_all add: division_def)
  from serve_request [OF Cons.prems(1) assms(2) this request_of_ok [OF x(1)] step(1)] obtain w1 n where
    w1: "connection_steps env n (Outer, after_read (to_server i ?rq) w) = Some (Inr (Outer, w1))" "serving w1 c1"
    "bucket (w_table w1) = ?h" "sk_out (w_sock w1) = sk_out (w_sock w) @ reply"
    by (auto simp: request_served_def dest: line_rounds_steps)
  obtain m2 w2 where "dialogue cenv env to_server to_client (Suc i) xs m1 w1 rest m2 w2" "serving w2 c'"
    using Cons.IH [OF w1(2) sk(2) x(2), of rest "Suc i"] rest(1) unfolding w1(3) by blast
  moreover from this(1) have "dialogue cenv env to_server to_client i (x # xs) m w (r # rest) m2 w2"
    using call(1) w1(1,4) unfolding sk(1) [symmetric] by (intro dialogue.call)
  ultimately show ?case unfolding rest(2) by blast
qed

section \<open>Properties\<close>



end
