(* ===== verification/Demo.thy ===== *)
theory Demo
  imports Dialogue Connection_Loop
begin

text \<open>
  The demo program, lib_demo.c: a sequence of library calls and what it prints of their
  results. The property follows it against the server, from the connection to its end.
\<close>

section \<open>Reading results\<close>

text \<open>
  The members of the union of a result; a result that is all zero has the value 0 and no string.
  The loop over a string compares its index with \<open>size\<close>, converted to \<open>size_t\<close>.
\<close>

fun result_decimal :: "memuncached_value_result \<Rightarrow> int64 res" where
  "result_decimal r =
     (case vr_value r of RDecimal d \<Rightarrow> Inr d | RUnset \<Rightarrow> Inr 0 | RFreed \<Rightarrow> Inl Indeterminate | _ \<Rightarrow> Inl TypeConfusion)"

fun result_real :: "memuncached_value_result \<Rightarrow> double res" where
  "result_real r =
     (case vr_value r of
        RReal d \<Rightarrow> Inr d | RUnset \<Rightarrow> Inr (int_to_double 0) | RFreed \<Rightarrow> Inl Indeterminate | _ \<Rightarrow> Inl TypeConfusion)"

fun result_bytes :: "memuncached_value_result \<Rightarrow> string res" where
  "result_bytes r =
     (let size = unat (scast (vr_size r) :: size_t)
      in if size = 0 then Inr []
         else case vr_value r of
                RString b \<Rightarrow> if length b < size then Inl OutOfBounds else Inr (take size b)
              | RUnset \<Rightarrow> Inl NullDeref
              | RFreed \<Rightarrow> Inl DanglingAccess
              | _ \<Rightarrow> Inl TypeConfusion)"

text \<open>\<open>%d\<close> prints the low half of a 64-bit argument, \<open>%ld\<close> all of it.\<close>

definition printf_d :: "int64 \<Rightarrow> string" where
  "printf_d d = fmt_d (sint (ucast d :: int32))"

definition printf_ld :: "int64 \<Rightarrow> string" where
  "printf_ld d = fmt_d (sint d)"

definition QUOTE :: char where "QUOTE = CHR 0x27"

text \<open>\<open>memuncached_f('key'\<close> and \<open>memuncached_f('key')\<close>.\<close>

definition call_open :: "string \<Rightarrow> string \<Rightarrow> string" where
  "call_open f key = ''memuncached_'' @ f @ ''('' @ [QUOTE] @ key @ [QUOTE]"

definition call_text :: "string \<Rightarrow> string \<Rightarrow> string" where
  "call_text f key = call_open f key @ '')''"

definition call_text_value :: "string \<Rightarrow> string \<Rightarrow> string \<Rightarrow> string" where
  "call_text_value f key v = call_open f key @ '', '' @ v @ '')''"

definition quoted :: "string \<Rightarrow> string" where
  "quoted v = [QUOTE] @ v @ [QUOTE]"

section \<open>The parts of main\<close>

definition truth :: "bool \<Rightarrow> string" where
  "truth ok = (if ok then '': true'' else '': false'') @ [LF]"

text \<open>What is printed of a value: a string stands between two lines of its own.\<close>

definition show_value ::
    "(int64 \<Rightarrow> string) \<Rightarrow> string \<Rightarrow> string \<Rightarrow> string \<Rightarrow> memuncached_value_result \<Rightarrow> memuncached_value_result \<Rightarrow> string res" where
  "show_value fmt label before behind result string_result =
     (if vr_type result = MEMCACHED_NUMBER_RESULT_DECIMAL then
        map_res (\<lambda>d. label @ '': '' @ fmt d @ [LF]) (result_decimal result)
      else if vr_type result = MEMCACHED_NUMBER_RESULT_REAL then
        map_res (\<lambda>r. label @ '': '' @ fmt_lf r @ [LF]) (result_real result)
      else if vr_type result = MEMCACHED_NUMBER_RESULT_STRING then
        map_res (\<lambda>b. label @ before @ b @ label @ behind) (result_bytes string_result)
      else Inr [])"

text \<open>The same without strings.\<close>

definition show_number :: "(int64 \<Rightarrow> string) \<Rightarrow> string \<Rightarrow> memuncached_value_result \<Rightarrow> string res" where
  "show_number fmt label result =
     (if vr_type result = MEMCACHED_NUMBER_RESULT_DECIMAL then
        map_res (\<lambda>d. label @ '': '' @ fmt d @ [LF]) (result_decimal result)
      else if vr_type result = MEMCACHED_NUMBER_RESULT_REAL then
        map_res (\<lambda>r. label @ '': '' @ fmt_lf r @ [LF]) (result_real result)
      else Inr [])"

text \<open>A result structure of \<open>main\<close>, passed by its address.\<close>

definition with_result ::
    "(memuncached_value_result option \<Rightarrow> session \<Rightarrow> (session \<times> memuncached_value_result option \<times> bool) res) \<Rightarrow>
      memuncached_value_result \<Rightarrow> session \<Rightarrow> (session \<times> memuncached_value_result \<times> bool) res" where
  "with_result call result s =
     map_res (\<lambda>(s, r, ok). (s, case r of None \<Rightarrow> result | Some r \<Rightarrow> r, ok)) (call (Some result) s)"

definition clean :: "memuncached_value_result \<Rightarrow> memuncached_value_result res" where
  "clean result = map_res (\<lambda>(r, _). case r of None \<Rightarrow> result | Some r \<Rightarrow> r) (memuncached_value_result_clean (Some result))"

definition demo_get ::
    "client_env \<Rightarrow> string \<Rightarrow> string \<Rightarrow> string \<Rightarrow> memuncached_value_result \<Rightarrow> session \<Rightarrow>
      (session \<times> memuncached_value_result \<times> string) res" where
  "demo_get env key before behind res_get s =
     bind_res (with_result (memuncached_get_lib env key) res_get s) (\<lambda>(s, res_get, ok).
       if ok then
         bind_res (show_value printf_d (call_text ''get'' key) before behind res_get res_get) (\<lambda>out.
         map_res (\<lambda>res_get. (s, res_get, out)) (clean res_get))
       else Inr (s, res_get, call_text ''get'' key @ '': false'' @ [LF]))"

text \<open>INC and DEC; \<open>args\<close> is how the call prints its further arguments.\<close>

definition demo_count ::
    "(memuncached_value_result option \<Rightarrow> session \<Rightarrow> (session \<times> memuncached_value_result option \<times> bool) res) \<Rightarrow>
      (int64 \<Rightarrow> string) \<Rightarrow> string \<Rightarrow> memuncached_value_result \<Rightarrow> session \<Rightarrow>
      (session \<times> memuncached_value_result \<times> string) res" where
  "demo_count call fmt label result s =
     bind_res (with_result call result s) (\<lambda>(s, result, ok).
       if ok then map_res (\<lambda>out. (s, result, out)) (show_number fmt label result) else Inr (s, result, []))"

text \<open>
  The branch of DEL looks at the result of the last DEC and prints its numbers; only the bytes
  of a string come from its own.
\<close>

definition demo_del ::
    "client_env \<Rightarrow> string \<Rightarrow> memuncached_value_result \<Rightarrow> memuncached_value_result \<Rightarrow> session \<Rightarrow> (session \<times> string) res" where
  "demo_del env key res_dec res_del s =
     bind_res (with_result (memuncached_del_lib env key) res_del s) (\<lambda>(s, res_del, ok).
       if ok then
         bind_res (show_value printf_ld (call_text ''del'' key) ('' <<<'' @ [LF]) ('' >>>'' @ [LF]) res_dec res_del) (\<lambda>out.
         map_res (\<lambda>_. (s, out)) (clean res_del))
       else Inr (s, []))"

definition demo_stt :: "client_env \<Rightarrow> session \<Rightarrow> (session \<times> string) res" where
  "demo_stt env s =
     map_res (\<lambda>(s, res_stt, ok).
         (s, if ok then ''memuncached_stt(): key_count: '' @ fmt_d (sint (sr_key_count res_stt)) @
                 '', client_count: '' @ fmt_d (sint (sr_client_count res_stt)) @ [LF] else []))
       (memuncached_stt_lib env (Some \<lparr>sr_client_count = 0, sr_key_count = 0\<rparr>) s)"

definition demo_ver :: "client_env \<Rightarrow> session \<Rightarrow> (session \<times> string) res" where
  "demo_ver env s =
     map_res (\<lambda>(s, version, ok). (s, if ok then ''memuncached_ver(): '' @ version @ [LF] else []))
       (memuncached_ver_lib env (Some []) s)"

section \<open>main\<close>

definition set_f_data :: double where "set_f_data = atof ''5.999874545''"
definition set_d_data :: int64 where "set_d_data = -123456"
definition set_s_data :: string where "set_s_data = ''Lorem ipsum sit amet dolor.''"
definition add_s_data :: string where "add_s_data = ''hello world.''"

text \<open>The second decimal call is where the code says \<open>set_d\<close> and prints \<open>set_s\<close>.\<close>

definition demo_stores :: "client_env \<Rightarrow> session \<Rightarrow> (session \<times> string) res" where
  "demo_stores env s =
     bind_res (memuncached_set_f env ''real'' set_f_data s) (\<lambda>(s, ok1).
     bind_res (memuncached_set_d env ''decimal'' set_d_data s) (\<lambda>(s, ok2).
     bind_res (memuncached_set_d env ''text'' set_d_data s) (\<lambda>(s, ok3).
     bind_res (memuncached_add_s env ''text'' add_s_data 12 s) (\<lambda>(s, ok4).
       Inr (s, call_text_value ''set_f'' ''real'' (fmt_lf set_f_data) @ truth ok1 @
         call_text_value ''set_d'' ''decimal'' (printf_ld set_d_data) @ truth ok2 @
         call_text_value ''set_s'' ''text'' (quoted set_s_data) @ truth ok3 @
         call_text_value ''add_s'' ''text'' (quoted add_s_data) @ truth ok4)))))"

definition demo_gets :: "client_env \<Rightarrow> session \<Rightarrow> (session \<times> string) res" where
  "demo_gets env s =
     (let res_get = no_result; left = '' <<<'' @ [LF]; right = '' >>>'' @ [LF]
      in bind_res (demo_get env ''real'' right left res_get s) (\<lambda>(s, res_get, out1).
         bind_res (demo_get env ''text'' left right res_get s) (\<lambda>(s, res_get, out2).
         bind_res (demo_get env ''decimal'' left right res_get s) (\<lambda>(s, res_get, out3).
         bind_res (demo_get env ''x'' left right res_get s) (\<lambda>(s, res_get, out4).
           Inr (s, out1 @ out2 @ out3 @ out4))))))"

definition demo_counts :: "client_env \<Rightarrow> session \<Rightarrow> (session \<times> string) res" where
  "demo_counts env s =
     (let inc = (\<lambda>r s. memuncached_inc_f env ''x'' r [] s); dec = (\<lambda>args r s. memuncached_dec_d env ''x'' r args s)
      in bind_res (demo_count inc printf_ld (call_text ''inc_f'' ''x'') no_result s) (\<lambda>(s, res_inc, out1).
         bind_res (demo_count (dec []) printf_ld (call_text ''dec_d'' ''x'') no_result s) (\<lambda>(s, res_dec, out2).
         bind_res (demo_count (dec [10]) printf_d (call_open ''dec_d'' ''x'' @ '', 10)'') res_dec s) (\<lambda>(s, res_dec, out3).
         bind_res (demo_del env ''x'' res_dec no_result s) (\<lambda>(s, out4).
         bind_res (demo_count (dec [10, 19]) printf_d (call_open ''dec_d'' ''x'' @ '', 10, 19)'') res_dec s) (\<lambda>(s, res_dec, out5).
           Inr (s, out1 @ out2 @ out3 @ out4 @ out5)))))))"

definition demo_commands :: "client_env \<Rightarrow> session \<Rightarrow> (session \<times> string) res" where
  "demo_commands env s =
     bind_res (demo_stores env s) (\<lambda>(s, out1).
     bind_res (demo_gets env s) (\<lambda>(s, out2).
     bind_res (demo_stt env s) (\<lambda>(s, out3).
     bind_res (demo_ver env s) (\<lambda>(s, out4).
     map_res (\<lambda>(s, out5). (s, out1 @ out2 @ out3 @ out4 @ out5)) (demo_counts env s)))))"

text \<open>
  \<open>main\<close>: the exit status, the socket, and what it prints. The outcomes of connecting and of
  closing the socket are arguments.
\<close>

definition demo_main :: "client_env \<Rightarrow> bool \<Rightarrow> bool \<Rightarrow> sock \<Rightarrow> (int32 \<times> sock \<times> string) res" where
  "demo_main env connect_ok close_ok sk =
     (case memuncached_connect connect_ok sk of
        None \<Rightarrow> Inr (1, sk, ''connection failed.'')
      | Some s \<Rightarrow>
          bind_res (demo_commands env s) (\<lambda>(s, out).
          map_res (\<lambda>(sk, ok). (0, sk, out @ ''memuncached_disconnect(): '' @ (if ok then ''success'' else ''fail'') @ [LF]))
            (memuncached_disconnect env close_ok s)))"

lemma demo_literals:
  "fmt_lf set_f_data = ''5.999875''" "fmt_lf (atof ''5.999875'') = ''5.999875''"
  "fmt_lf (atof (fmt_lf (atof ''5.999875''))) = ''5.999875''"
  by code_simp+

section \<open>Calls on a stream of replies\<close>

text \<open>The segments that arrive are those of the replies, one after the other.\<close>

definition segments :: "event list list \<Rightarrow> string list \<Rightarrow> bool" where
  "segments ess xs \<longleftrightarrow> list_all2 (\<lambda>es x. reliable es \<and> incoming es = x) ess xs"

definition answers :: "string list \<Rightarrow> session \<Rightarrow> bool" where
  "answers replies s \<longleftrightarrow> buffer_ok (fst s) \<and>
     (\<exists>es ess. sk_in (snd s) = es @ concat ess \<and> reliable es \<and> incoming es = [] \<and> segments ess replies)"

definition moved :: "string \<Rightarrow> string list \<Rightarrow> session \<Rightarrow> session \<Rightarrow> bool" where
  "moved request replies s s' \<longleftrightarrow> sk_out (snd s') = sk_out (snd s) @ request \<and> answers replies s'"

lemma next_answer:
  assumes "answers (reply # replies) s"
  obtains later where "delivers later reply s" "\<And>request s'. served later request s s' \<Longrightarrow> moved request replies s s'"
proof -
  obtain e0 es ess where e: "sk_in (snd s) = e0 @ es @ concat ess" "reliable e0" "incoming e0 = []" "reliable es"
    "incoming es = reply" "segments ess replies" "buffer_ok (fst s)"
    using assms by (auto simp: answers_def segments_def list_all2_Cons2)
  have "sk_in (snd s) = (e0 @ es) @ concat ess \<and> reliable (e0 @ es) \<and> incoming (e0 @ es) = reply"
    using e by (simp add: incoming_append reliable_append)
  with e(7) have "delivers (concat ess) reply s" unfolding delivers_def by blast
  moreover have "moved request replies s s'" if "served (concat ess) request s s'" for request s'
    using that e(6) by (auto simp: served_def delivers_def moved_def answers_def)
  ultimately show thesis using that by blast
qed

lemma moved_out: "moved request replies s s' \<Longrightarrow> sk_out (snd s') = sk_out (snd s) @ request \<and> answers replies s'"
  by (simp add: moved_def)

lemma status_call:
  assumes "answers (response_text RESPONSE_200_OK [] # rest) s" and "\<forall>n. ce_realloc env n = InPlace"
  shows "\<exists>s'. exchange env request s = Inr (s', True) \<and> moved request rest s s'"
  using next_answer [OF assms(1)] status_replies(1) [OF assms(2)] by metis

lemma taken_call:
  assumes "answers (response_text RESPONSE_409_KEY_EXISTS [] # rest) s" and "\<forall>n. ce_realloc env n = InPlace"
  shows "\<exists>s'. exchange env request s = Inr (s', False) \<and> moved request rest s s'"
  using next_answer [OF assms(1)] status_replies(3) [OF assms(2)] by metis

lemma number_text: "length (fmt_d (sint (d :: int64))) < 2 ^ 28" "value_of_reply 0 (fmt_d (sint d)) = RDecimal d"
proof -
  show "length (fmt_d (sint d)) < 2 ^ 28" by (rule le_less_trans [OF length_fmt_d_int64]) simp
  show "value_of_reply 0 (fmt_d (sint d)) = RDecimal d"
    using atoll_fmt_d [of "[]" d] by (simp add: value_of_reply_def no_digit_def)
qed

lemma get_call:
  assumes "answers (value_reply (of_nat ty) txt # rest) s" and "\<forall>n. ce_realloc env n = InPlace"
    and "length txt < 2 ^ 28" and "ty < 2" and "is_cstr txt"
  shows "\<exists>s' sz. value_request command env key (Some r) s =
      Inr (s', Some (r\<lparr>vr_type := of_nat ty, vr_value := value_of_reply ty txt, vr_size := sz\<rparr>), True) \<and>
    moved (key_text command key) rest s s'"
proof -
  obtain later where l: "delivers later (value_reply (of_nat ty) txt) s"
    "\<And>request s'. served later request s s' \<Longrightarrow> moved request rest s s'" using next_answer [OF assms(1)] by blast
  have t: "ty \<le> 2" "ty = 2 \<or> is_cstr txt" "steady env (value_of_text ty txt)" using assms(2,4,5) by (simp_all add: steady_def)
  from value_call_ok [OF l(1) t(3) assms(3) t(1,2), of command key r] l(2) show ?thesis
    unfolding key_text_def by blast
qed

lemma demo_get_shows:
  assumes "answers (value_reply (of_nat ty) txt # rest) s" and "\<forall>n. ce_realloc env n = InPlace"
    and "length txt < 2 ^ 28" and "ty < 2" and "is_cstr txt"
  shows "\<exists>s' r'. demo_get env key before behind r s =
      Inr (s', r', call_text ''get'' key @ '': '' @ (if ty = 0 then printf_d (atoll txt) else fmt_lf (atof txt)) @ [LF]) \<and>
    moved (key_text ''GET'' key) rest s s'"
proof -
  obtain s' sz where s': "value_request ''GET'' env key (Some r) s =
      Inr (s', Some (r\<lparr>vr_type := of_nat ty, vr_value := value_of_reply ty txt, vr_size := sz\<rparr>), True)"
    "moved (key_text ''GET'' key) rest s s'" using get_call [OF assms] by blast
  moreover have "ty = 0 \<or> ty = 1" using assms(4) by auto
  ultimately show ?thesis
    by (cases s') (auto simp: demo_get_def with_result_def memuncached_get_lib_def show_value_def clean_def
        memuncached_value_result_clean_def result_types value_of_reply_def)
qed

lemma demo_get_missing:
  assumes "answers (response_text RESPONSE_404_NOT_FOUND [] # rest) s" and "\<forall>n. ce_realloc env n = InPlace"
  shows "\<exists>s' r'. demo_get env key before behind r s = Inr (s', r', call_text ''get'' key @ '': false'' @ [LF]) \<and>
    moved (key_text ''GET'' key) rest s s'"
proof -
  obtain later where l: "delivers later (response_text RESPONSE_404_NOT_FOUND []) s"
    "\<And>request s'. served later request s s' \<Longrightarrow> moved request rest s s'" using next_answer [OF assms(1)] by blast
  from status_replies(2) [OF assms(2) l(1), of "key_text ''GET'' key"] obtain s' where
    "exchange env (key_text ''GET'' key) s = Inr (s', False)" "served later (key_text ''GET'' key) s s'" by blast
  with l(2) show ?thesis
    by (auto simp: demo_get_def with_result_def memuncached_get_lib_def value_request_def key_text_def key_request_def)
qed

lemma demo_count_shows:
  assumes "answers (value_reply 0 (fmt_d (sint d)) # rest) s" and "\<forall>n. ce_realloc env n = InPlace"
    and "\<And>r s. call r s = number_reply env request r s"
  shows "\<exists>s'. demo_count call fmt label r s =
      Inr (s', \<lparr>vr_type = 0, vr_value = RDecimal d, vr_size = 0\<rparr>, label @ '': '' @ fmt d @ [LF]) \<and> moved request rest s s'"
proof -
  have a: "answers (value_reply (of_nat 0) (fmt_d (sint d)) # rest) s" using assms(1) by simp
  obtain later where l: "delivers later (value_reply (of_nat 0) (fmt_d (sint d))) s"
    "\<And>request s'. served later request s s' \<Longrightarrow> moved request rest s s'" using next_answer [OF a] by blast
  have st: "steady env (value_of_text 0 (fmt_d (sint d)))" using assms(2) by (simp add: steady_def)
  have "is_cstr (fmt_d (sint d))" by simp
  from number_reply_ok [OF l(1) st number_text(1) _ this, of request r] l(2) show ?thesis
    unfolding number_text(2)
    by (auto simp: demo_count_def with_result_def assms(3) show_number_def result_types)
qed

text \<open>The value that DEL shows is that of the last DEC.\<close>

lemma demo_del_shows:
  assumes "answers (value_reply (of_nat ty) txt # rest) s" and "\<forall>n. ce_realloc env n = InPlace"
    and "length txt < 2 ^ 28" and "ty < 2" and "is_cstr txt"
    and "vr_type res_dec = 0" and "vr_value res_dec = RDecimal d"
  shows "\<exists>s'. demo_del env key res_dec r s = Inr (s', call_text ''del'' key @ '': '' @ printf_ld d @ [LF]) \<and>
    moved (key_text ''DEL'' key) rest s s'"
proof -
  obtain s' sz where s': "value_request ''DEL'' env key (Some r) s =
      Inr (s', Some (r\<lparr>vr_type := of_nat ty, vr_value := value_of_reply ty txt, vr_size := sz\<rparr>), True)"
    "moved (key_text ''DEL'' key) rest s s'" using get_call [OF assms(1-5)] by blast
  moreover have "ty = 0 \<or> ty = 1" using assms(4) by auto
  ultimately show ?thesis using assms(6,7)
    by (cases s') (auto simp: demo_del_def with_result_def memuncached_del_lib_def show_value_def clean_def
        memuncached_value_result_clean_def result_types value_of_reply_def)
qed

section \<open>The parts of main against their replies\<close>

lemma demo_stores_ok:
  assumes "answers (replicate 3 (response_text RESPONSE_200_OK []) @ response_text RESPONSE_409_KEY_EXISTS [] # rest) s"
    and "\<forall>n. ce_realloc env n = InPlace"
  shows "\<exists>s'. demo_stores env s = Inr (s',
      call_text_value ''set_f'' ''real'' ''5.999875'' @ truth True @
      call_text_value ''set_d'' ''decimal'' ''-123456'' @ truth True @
      call_text_value ''set_s'' ''text'' (quoted set_s_data) @ truth True @
      call_text_value ''add_s'' ''text'' (quoted add_s_data) @ truth False) \<and>
    moved (store_text ''SET'' ''real'' (PReal set_f_data) @ store_text ''SET'' ''decimal'' (PDecimal set_d_data) @
      store_text ''SET'' ''text'' (PDecimal set_d_data) @ store_text ''ADD'' ''text'' (PString add_s_data)) rest s s'"
proof -
  let ?ok = "response_text RESPONSE_200_OK []" and ?taken = "response_text RESPONSE_409_KEY_EXISTS []"
  have a: "answers (?ok # ?ok # ?ok # ?taken # rest) s" using assms(1) by (simp add: numeral_3_eq_3)
  have p: "payload_ok (PReal set_f_data)" "payload_ok (PDecimal set_d_data)" "payload_ok (PString add_s_data)"
    by (simp_all add: demo_literals add_s_data_def no_break_def)
  have call: "memuncached_set_f env k set_f_data s = exchange env (store_text ''SET'' k (PReal set_f_data)) s"
    "memuncached_set_d env k set_d_data s = exchange env (store_text ''SET'' k (PDecimal set_d_data)) s"
    "memuncached_add_s env k add_s_data 12 s = exchange env (store_text ''ADD'' k (PString add_s_data)) s" for k s
    using store_texts(1) [OF p(1), of env k s] store_texts(1) [OF p(2), of env k s] store_texts(2) [OF p(3), of env k s]
    by (simp_all add: add_s_data_def)
  obtain s1 where s1: "memuncached_set_f env ''real'' set_f_data s = Inr (s1, True)"
    "moved (store_text ''SET'' ''real'' (PReal set_f_data)) (?ok # ?ok # ?taken # rest) s s1"
    using status_call [OF a assms(2)] unfolding call by blast
  obtain s2 where s2: "memuncached_set_d env ''decimal'' set_d_data s1 = Inr (s2, True)"
    "moved (store_text ''SET'' ''decimal'' (PDecimal set_d_data)) (?ok # ?taken # rest) s1 s2"
    using status_call [OF conjunct2 [OF moved_out [OF s1(2)]] assms(2)] unfolding call by blast
  obtain s3 where s3: "memuncached_set_d env ''text'' set_d_data s2 = Inr (s3, True)"
    "moved (store_text ''SET'' ''text'' (PDecimal set_d_data)) (?taken # rest) s2 s3"
    using status_call [OF conjunct2 [OF moved_out [OF s2(2)]] assms(2)] unfolding call by blast
  obtain s4 where s4: "memuncached_add_s env ''text'' add_s_data 12 s3 = Inr (s4, False)"
    "moved (store_text ''ADD'' ''text'' (PString add_s_data)) rest s3 s4"
    using taken_call [OF conjunct2 [OF moved_out [OF s3(2)]] assms(2)] unfolding call by blast
  have d: "printf_ld set_d_data = ''-123456''" by code_simp
  show ?thesis
    using s1 s2 s3 s4 d
    by (intro exI [of _ s4]) (simp add: demo_stores_def moved_def demo_literals call_text_value_def quoted_def)
qed

lemma demo_gets_ok:
  assumes "answers ([value_reply 1 ''5.999875'', value_reply 0 ''-123456'', value_reply 0 ''-123456'',
      response_text RESPONSE_404_NOT_FOUND []] @ rest) s"
    and "\<forall>n. ce_realloc env n = InPlace"
  shows "\<exists>s'. demo_gets env s = Inr (s',
      call_text ''get'' ''real'' @ '': 5.999875'' @ [LF] @ call_text ''get'' ''text'' @ '': -123456'' @ [LF] @
      call_text ''get'' ''decimal'' @ '': -123456'' @ [LF] @ call_text ''get'' ''x'' @ '': false'' @ [LF]) \<and>
    moved (key_text ''GET'' ''real'' @ key_text ''GET'' ''text'' @ key_text ''GET'' ''decimal'' @ key_text ''GET'' ''x'') rest s s'"
proof -
  let ?l = "'' <<<'' @ [LF]" and ?r = "'' >>>'' @ [LF]" and ?none = "response_text RESPONSE_404_NOT_FOUND []"
  let ?d = "value_reply 0 ''-123456''"
  have a: "answers (value_reply (of_nat 1) ''5.999875'' # ?d # ?d # ?none # rest) s" using assms(1) by simp
  have d: "printf_d (atoll ''-123456'') = ''-123456''" by code_simp
  obtain s1 r1 where s1: "demo_get env ''real'' ?r ?l no_result s = Inr (s1, r1, call_text ''get'' ''real'' @ '': 5.999875'' @ [LF])"
    "moved (key_text ''GET'' ''real'') (?d # ?d # ?none # rest) s s1"
    using demo_get_shows [OF a assms(2)] demo_literals(2) by fastforce
  have a1: "answers (value_reply (of_nat 0) ''-123456'' # ?d # ?none # rest) s1" using moved_out [OF s1(2)] by simp
  obtain s2 r2 where s2: "demo_get env ''text'' ?l ?r r1 s1 = Inr (s2, r2, call_text ''get'' ''text'' @ '': -123456'' @ [LF])"
    "moved (key_text ''GET'' ''text'') (?d # ?none # rest) s1 s2"
    using demo_get_shows [OF a1 assms(2)] d by fastforce
  have a2: "answers (value_reply (of_nat 0) ''-123456'' # ?none # rest) s2" using moved_out [OF s2(2)] by simp
  obtain s3 r3 where s3: "demo_get env ''decimal'' ?l ?r r2 s2 = Inr (s3, r3, call_text ''get'' ''decimal'' @ '': -123456'' @ [LF])"
    "moved (key_text ''GET'' ''decimal'') (?none # rest) s2 s3"
    using demo_get_shows [OF a2 assms(2)] d by fastforce
  obtain s4 r4 where s4: "demo_get env ''x'' ?l ?r r3 s3 = Inr (s4, r4, call_text ''get'' ''x'' @ '': false'' @ [LF])"
    "moved (key_text ''GET'' ''x'') rest s3 s4"
    using demo_get_missing [OF conjunct2 [OF moved_out [OF s3(2)]] assms(2)] by blast
  show ?thesis
    using s1 s2 s3 s4 by (intro exI [of _ s4]) (simp add: demo_gets_def moved_def Let_def)
qed

lemma demo_stt_ok:
  assumes "answers (response_text RESPONSE_200_OK (stt_body clients keys) # rest) s" and "\<forall>n. ce_realloc env n = InPlace"
  shows "\<exists>s'. demo_stt env s = Inr (s', ''memuncached_stt(): key_count: '' @ fmt_d (sint keys) @
      '', client_count: '' @ fmt_d (sint clients) @ [LF]) \<and> moved (''STT'' @ CRLF) rest s s'"
proof -
  obtain later where l: "delivers later (response_text RESPONSE_200_OK (stt_body clients keys)) s"
    "\<And>request s'. served later request s s' \<Longrightarrow> moved request rest s s'" using next_answer [OF assms(1)] by blast
  have "steady env (plain_reply (stt_body clients keys))" using assms(2) by (simp add: steady_def)
  from exchange_plain [OF l(1) this length_stt_body, of "''STT'' @ CRLF"] l(2) obtain s' where
    "exchange env (''STT'' @ CRLF) s = Inr (s', True)" "has_reply (plain_reply (stt_body clients keys)) (fst s')"
    "moved (''STT'' @ CRLF) rest s s'" by blast
  then show ?thesis by (intro exI [of _ s']) (simp add: demo_stt_def memuncached_stt_lib_def stt_counts_found)
qed

lemma demo_ver_ok:
  assumes "answers (response_text RESPONSE_200_OK MEMUNCACHED_VERSION # rest) s" and "\<forall>n. ce_realloc env n = InPlace"
  shows "\<exists>s'. demo_ver env s = Inr (s', ''memuncached_ver(): 1.0'' @ [LF]) \<and> moved (request_text Ver) rest s s'"
proof -
  let ?rp = "plain_reply MEMUNCACHED_VERSION"
  obtain later where l: "delivers later (response_text RESPONSE_200_OK MEMUNCACHED_VERSION) s"
    "\<And>request s'. served later request s s' \<Longrightarrow> moved request rest s s'" using next_answer [OF assms(1)] by blast
  have st: "steady env ?rp" "length MEMUNCACHED_VERSION < 2 ^ 28" "length (rp_body ?rp) < 2 ^ 31" "is_cstr (rp_body ?rp)"
    using assms(2) by (simp_all add: steady_def MEMUNCACHED_VERSION_def plain_reply_def)
  from exchange_plain [OF l(1) st(1,2), of "''VER'' @ CRLF"] l(2) obtain s' where
    s': "exchange env (''VER'' @ CRLF) s = Inr (s', True)" "has_reply ?rp (fst s')" "moved (''VER'' @ CRLF) rest s s'" by blast
  have "body_string (fst s') = Inr ''1.0''"
    using has_reply_body(3) [OF s'(2) st(3,4)] by (simp add: plain_reply_def MEMUNCACHED_VERSION_def)
  with s' show ?thesis
    by (intro exI [of _ s']) (simp add: demo_ver_def memuncached_ver_lib_def terminate_reply [OF s'(2) st(3)])
qed

lemma demo_counts_ok:
  assumes "answers (map (\<lambda>d. value_reply 0 (fmt_d d)) [1, 0, -10, -10, 19] @ rest) s" and "\<forall>n. ce_realloc env n = InPlace"
  shows "\<exists>s'. demo_counts env s = Inr (s',
      call_text ''inc_f'' ''x'' @ '': 1'' @ [LF] @ call_text ''dec_d'' ''x'' @ '': 0'' @ [LF] @
      call_open ''dec_d'' ''x'' @ '', 10): -10'' @ [LF] @ call_text ''del'' ''x'' @ '': -10'' @ [LF] @
      call_open ''dec_d'' ''x'' @ '', 10, 19): 19'' @ [LF]) \<and>
    moved (concat (map (\<lambda>x. request_text (request_of x))
      [IncCall ''x'', DecCall ''x'' NoArguments, DecCall ''x'' (Offset 10), DelCall ''x'', DecCall ''x'' (OffsetInitial 10 19)])) rest s s'"
proof -
  have n: "fmt_d 1 = fmt_d (sint (1 :: int64))" "fmt_d 0 = fmt_d (sint (0 :: int64))" "fmt_d (-10) = fmt_d (sint (-10 :: int64))"
    "fmt_d 19 = fmt_d (sint (19 :: int64))" "printf_ld 1 = ''1''" "printf_ld 0 = ''0''" "printf_ld (-10) = ''-10''"
    "printf_d (-10) = ''-10''" "printf_d 19 = ''19''" by code_simp+
  let ?v = "\<lambda>d :: int64. value_reply 0 (fmt_d (sint d))"
  have a: "answers (?v 1 # ?v 0 # ?v (-10) # ?v (-10) # ?v 19 # rest) s" using assms(1) by (simp only: n list.map append.simps)
  have inc: "memuncached_inc_f env ''x'' r [] s = number_reply env (request_text (request_of (IncCall ''x''))) r s" for r s
    by (simp add: memuncached_inc_f_def memuncached_inc_lib_def double_request_def va_double_def count_request_def key_request_def)
  have dec: "memuncached_dec_d env ''x'' r (dec_arguments b) s = number_reply env (request_text (request_of (DecCall ''x'' b))) r s"
    if "arguments_ok b" for b r s
    using dec_text [OF that, of "''x''"]
    by (simp add: memuncached_dec_d_def memuncached_dec_lib_def int_request_line result_types del: map_append)
  have dec0: "memuncached_dec_d env ''x'' r [] s = number_reply env (request_text (request_of (DecCall ''x'' NoArguments))) r s"
    and dec1: "memuncached_dec_d env ''x'' r [10] s = number_reply env (request_text (request_of (DecCall ''x'' (Offset 10)))) r s"
    and dec2: "memuncached_dec_d env ''x'' r [10, 19] s = number_reply env (request_text (request_of (DecCall ''x'' (OffsetInitial 10 19)))) r s"
    for r s
    using dec [of NoArguments r s] dec [of "Offset 10" r s] dec [of "OffsetInitial 10 19" r s] by (simp_all del: request_of.simps request_text.simps)
  let ?r = "\<lambda>d. \<lparr>vr_type = 0, vr_value = RDecimal d, vr_size = 0\<rparr> :: memuncached_value_result"
  let ?q = "\<lambda>x. request_text (request_of x)"
  obtain s1 where s1: "demo_count (\<lambda>r s. memuncached_inc_f env ''x'' r [] s) printf_ld (call_text ''inc_f'' ''x'') no_result s =
      Inr (s1, ?r 1, call_text ''inc_f'' ''x'' @ '': '' @ printf_ld 1 @ [LF])"
    "moved (?q (IncCall ''x'')) (?v 0 # ?v (-10) # ?v (-10) # ?v 19 # rest) s s1"
    using demo_count_shows [OF a assms(2) inc] by blast
  obtain s2 where s2: "demo_count (\<lambda>r s. memuncached_dec_d env ''x'' r [] s) printf_ld (call_text ''dec_d'' ''x'') no_result s1 =
      Inr (s2, ?r 0, call_text ''dec_d'' ''x'' @ '': '' @ printf_ld 0 @ [LF])"
    "moved (?q (DecCall ''x'' NoArguments)) (?v (-10) # ?v (-10) # ?v 19 # rest) s1 s2"
    using demo_count_shows [OF conjunct2 [OF moved_out [OF s1(2)]] assms(2) dec0] by blast
  obtain s3 where s3: "demo_count (\<lambda>r s. memuncached_dec_d env ''x'' r [10] s) printf_d (call_open ''dec_d'' ''x'' @ '', 10)'') (?r 0) s2 =
      Inr (s3, ?r (-10), (call_open ''dec_d'' ''x'' @ '', 10)'') @ '': '' @ printf_d (-10) @ [LF])"
    "moved (?q (DecCall ''x'' (Offset 10))) (?v (-10) # ?v 19 # rest) s2 s3"
    using demo_count_shows [OF conjunct2 [OF moved_out [OF s2(2)]] assms(2) dec1] by blast
  have del: "?q (DelCall ''x'') = key_text ''DEL'' ''x''" by (simp add: key_text_def)
  have a3: "answers (value_reply (of_nat 0) (fmt_d (sint (-10 :: int64))) # ?v 19 # rest) s3" using moved_out [OF s3(2)] by simp
  obtain s4 where s4: "demo_del env ''x'' (?r (-10)) no_result s3 = Inr (s4, call_text ''del'' ''x'' @ '': '' @ printf_ld (-10) @ [LF])"
    "moved (?q (DelCall ''x'')) (?v 19 # rest) s3 s4"
    using demo_del_shows [OF a3 assms(2) number_text(1), of "?r (-10)" "-10" "''x''" no_result] unfolding del by auto
  obtain s5 where s5: "demo_count (\<lambda>r s. memuncached_dec_d env ''x'' r [10, 19] s) printf_d (call_open ''dec_d'' ''x'' @ '', 10, 19)'') (?r (-10)) s4 =
      Inr (s5, ?r 19, (call_open ''dec_d'' ''x'' @ '', 10, 19)'') @ '': '' @ printf_d 19 @ [LF])"
    "moved (?q (DecCall ''x'' (OffsetInitial 10 19))) rest s4 s5"
    using demo_count_shows [OF conjunct2 [OF moved_out [OF s4(2)]] assms(2) dec2] by blast
  have "moved (concat (map ?q [IncCall ''x'', DecCall ''x'' NoArguments, DecCall ''x'' (Offset 10), DelCall ''x'',
      DecCall ''x'' (OffsetInitial 10 19)])) rest s s5"
    using s1(2) s2(2) s3(2) s4(2) s5(2) by (simp add: moved_def del: request_of.simps request_text.simps)
  then show ?thesis
    using s1(1) s2(1) s3(1) s4(1) s5(1) n(5-)
    by (intro exI [of _ s5]) (simp add: demo_counts_def del: request_of.simps request_text.simps)
qed

section \<open>The server's side\<close>

lemma table_count: "ht_inv t \<Longrightarrow> unat (ht_count t) = card (dom (contents t))"
  using ht_count_card by (simp add: contents_def dom_def)

lemma serve_plain:
  assumes "serving w c" and "good_memory env" and "reliable es" and "incoming es = cmd @ CRLF"
    and "cmd = ''STT'' \<and> command = memuncached_stt \<or> cmd = ''BYE'' \<and> command = memuncached_bye"
  shows "\<exists>n es' over. connection_steps env n (Outer, after_read es w) =
    Some (Inr (Outer, command (overrun over (after_read es' w))))"
proof -
  have word: "is_word cmd" "cmd \<noteq> []" using assms(5) by (auto simp: is_word_def is_blank_def)
  have lower: "map to_lower ''STT'' = ''stt''" "map to_lower ''BYE'' = ''bye''" by code_simp+
  note wl = words_of_line(1,2) [OF word(1) word(1)]
  have run: "cc_is_thread_running (w_client (after_read es w))" using assms(1) by (simp add: serving_def)
  have lo: "map to_lower cmd \<notin> {''set'', ''add''}" using assms(5) lower by auto
  obtain n es' where n: "connection_steps env n (Outer, after_read es w) =
      continue_outer (answer_line True cmd [] 0 (after_read es' (after_read es w)))"
    using line_on_the_wire [OF run assms(2) _ _ word(2) _ _ wl(1) lo] is_word_no_break [OF word(1)] assms(3,4)
    by (auto dest!: line_rounds_steps)
  have "answer_line True cmd [] 0 (after_read es' (after_read es w)) =
      Some (Inr (command (overrun (snd (str_escape cmd)) (after_read es' (after_read es w)))))"
    using assms(5) wl lower by (auto simp: answer_line_def Let_def plain_line_def)
  moreover have "after_read es' (after_read es w) = after_read es' w" by (simp add: after_read_def)
  ultimately show ?thesis using n by (auto simp: continue_outer_def)
qed

lemma session_runs_append:
  "session_runs env ess w w1 \<Longrightarrow> session_runs env ess' w1 w2 \<Longrightarrow> session_runs env (ess @ ess') w w2"
  by (induction rule: session_runs.induct) (auto intro: session_runs.step)

lemma session_keeps_clients: "session_runs env ess w w' \<Longrightarrow> w_clients w' = w_clients w"
proof (induction rule: session_runs.induct)
  case (step n es w w1 ess w2)
  from connection_steps_keep [OF step.hyps(1)] have "w_clients w1 = w_clients (after_read es w)"
    by (simp add: keeps_shared_def)
  with step.IH show ?case by simp
qed simp

section \<open>The whole program\<close>

definition first_calls :: "call list" where
  "first_calls =
     [SetCall ''real'' (PReal set_f_data), SetCall ''decimal'' (PDecimal set_d_data), SetCall ''text'' (PDecimal set_d_data),
      AddCall ''text'' (PString add_s_data), GetCall ''real'', GetCall ''text'', GetCall ''decimal'', GetCall ''x'']"

definition last_calls :: "call list" where
  "last_calls =
     [IncCall ''x'', DecCall ''x'' NoArguments, DecCall ''x'' (Offset 10), DelCall ''x'', DecCall ''x'' (OffsetInitial 10 19)]"

definition demo_requests :: "string list" where
  "demo_requests =
     map (\<lambda>x. request_text (request_of x)) first_calls @ [''STT'' @ CRLF, request_text Ver] @
     map (\<lambda>x. request_text (request_of x)) last_calls @ [''BYE'' @ CRLF]"

text \<open>\<open>n\<close> is the number of clients of the server.\<close>

definition demo_replies :: "int32 \<Rightarrow> string list" where
  "demo_replies n =
     replicate 3 (response_text RESPONSE_200_OK []) @
     [response_text RESPONSE_409_KEY_EXISTS [], value_reply 1 ''5.999875'', value_reply 0 ''-123456'', value_reply 0 ''-123456'',
      response_text RESPONSE_404_NOT_FOUND [], response_text RESPONSE_200_OK (stt_body n 3),
      response_text RESPONSE_200_OK MEMUNCACHED_VERSION] @
     map (\<lambda>d. value_reply 0 (fmt_d d)) [1, 0, -10, -10, 19] @ [response_text RESPONSE_200_OK ''bye.'']"

definition demo_output :: "int32 \<Rightarrow> string" where
  "demo_output n = concat (map (\<lambda>line. line @ [LF])
     [''memuncached_set_f('real', 5.999875): true'',
      ''memuncached_set_d('decimal', -123456): true'',
      ''memuncached_set_s('text', 'Lorem ipsum sit amet dolor.'): true'',
      ''memuncached_add_s('text', 'hello world.'): false'',
      ''memuncached_get('real'): 5.999875'',
      ''memuncached_get('text'): -123456'',
      ''memuncached_get('decimal'): -123456'',
      ''memuncached_get('x'): false'',
      ''memuncached_stt(): key_count: 3, client_count: '' @ fmt_d (sint n),
      ''memuncached_ver(): 1.0'',
      ''memuncached_inc_f('x'): 1'',
      ''memuncached_dec_d('x'): 0'',
      ''memuncached_dec_d('x', 10): -10'',
      ''memuncached_del('x'): -10'',
      ''memuncached_dec_d('x', 10, 19): 19'',
      ''memuncached_disconnect(): success''])"

lemma disconnect_ok:
  assumes "answers (response_text RESPONSE_200_OK ''bye.'' # rest) s" and "\<forall>n. ce_realloc env n = InPlace"
  shows "\<exists>s'. memuncached_disconnect env True s = Inr (snd s', True) \<and> moved (''BYE'' @ CRLF) rest s s'"
proof -
  obtain later where l: "delivers later (response_text RESPONSE_200_OK ''bye.'') s"
    "\<And>request s'. served later request s s' \<Longrightarrow> moved request rest s s'" using next_answer [OF assms(1)] by blast
  have "steady env (plain_reply ''bye.'')" using assms(2) by (simp add: steady_def)
  from exchange_plain [OF l(1) this, of "''BYE'' @ CRLF"] obtain s' where
    "exchange env (''BYE'' @ CRLF) s = Inr (s', True)" "served later (''BYE'' @ CRLF) s s'" by auto
  with l(2) show ?thesis by (intro exI [of _ s']) (simp add: memuncached_disconnect_def)
qed

lemma demo_main_ok:
  assumes "segments replies (demo_replies n)" and "\<forall>n. ce_realloc env n = InPlace"
  shows "\<exists>sk. demo_main env True True \<lparr>sk_in = Data CLIENT_WELCOME_MESSAGE # concat replies, sk_out = []\<rparr> =
    Inr (0, sk, demo_output n) \<and> sk_out sk = concat demo_requests"
proof -
  have greeting: "length CLIENT_WELCOME_MESSAGE \<le> 100" "2 \<le> length CLIENT_WELCOME_MESSAGE" by code_simp+
  then have "recv 100 (Data CLIENT_WELCOME_MESSAGE # concat replies) = (Some CLIENT_WELCOME_MESSAGE, concat replies)" by auto
  then obtain c where c: "memuncached_connect True \<lparr>sk_in = Data CLIENT_WELCOME_MESSAGE # concat replies, sk_out = []\<rparr> =
      Some (c, \<lparr>sk_in = concat replies, sk_out = []\<rparr>)" "buffer_ok c"
    using greeting by (simp add: memuncached_connect_def buffer_ok_def)
  let ?s = "(c, \<lparr>sk_in = concat replies, sk_out = []\<rparr>)"
  have "\<exists>es ess. sk_in (snd ?s) = es @ concat ess \<and> reliable es \<and> incoming es = [] \<and> segments ess (demo_replies n)"
    using assms(1) by (intro exI [of _ "[]"] exI [of _ replies]) (simp add: reliable_def)
  with c(2) have a: "answers (demo_replies n) ?s" by (simp add: answers_def)
  let ?ok = "response_text RESPONSE_200_OK []"
  let ?r4 = "response_text RESPONSE_200_OK MEMUNCACHED_VERSION #
      map (\<lambda>d. value_reply 0 (fmt_d d)) [1, 0, -10, -10, 19] @ [response_text RESPONSE_200_OK ''bye.'']"
  let ?r3 = "response_text RESPONSE_200_OK (stt_body n 3) # ?r4"
  let ?r2 = "[value_reply 1 ''5.999875'', value_reply 0 ''-123456'', value_reply 0 ''-123456'',
      response_text RESPONSE_404_NOT_FOUND []] @ ?r3"
  have "answers (replicate 3 ?ok @ response_text RESPONSE_409_KEY_EXISTS [] # ?r2) ?s"
    using a unfolding demo_replies_def append.simps append_assoc .
  from demo_stores_ok [OF this assms(2)] obtain s1 out1 q1 where
    s1: "demo_stores env ?s = Inr (s1, out1)" "moved q1 ?r2 ?s s1"
    and o1: "out1 = call_text_value ''set_f'' ''real'' ''5.999875'' @ truth True @
      call_text_value ''set_d'' ''decimal'' ''-123456'' @ truth True @
      call_text_value ''set_s'' ''text'' (quoted set_s_data) @ truth True @
      call_text_value ''add_s'' ''text'' (quoted add_s_data) @ truth False"
    and q1: "q1 = store_text ''SET'' ''real'' (PReal set_f_data) @ store_text ''SET'' ''decimal'' (PDecimal set_d_data) @
      store_text ''SET'' ''text'' (PDecimal set_d_data) @ store_text ''ADD'' ''text'' (PString add_s_data)" by blast
  from demo_gets_ok [OF conjunct2 [OF moved_out [OF s1(2)]] assms(2)] obtain s2 out2 q2 where
    s2: "demo_gets env s1 = Inr (s2, out2)" "moved q2 ?r3 s1 s2"
    and o2: "out2 = call_text ''get'' ''real'' @ '': 5.999875'' @ [LF] @ call_text ''get'' ''text'' @ '': -123456'' @ [LF] @
      call_text ''get'' ''decimal'' @ '': -123456'' @ [LF] @ call_text ''get'' ''x'' @ '': false'' @ [LF]"
    and q2: "q2 = key_text ''GET'' ''real'' @ key_text ''GET'' ''text'' @ key_text ''GET'' ''decimal'' @ key_text ''GET'' ''x''" by blast
  obtain s3 where s3: "demo_stt env s2 = Inr (s3, ''memuncached_stt(): key_count: '' @ fmt_d (sint (3 :: int32)) @
      '', client_count: '' @ fmt_d (sint n) @ [LF])" "moved (''STT'' @ CRLF) ?r4 s2 s3"
    using demo_stt_ok [OF conjunct2 [OF moved_out [OF s2(2)]] assms(2)] by blast
  obtain s4 where s4: "demo_ver env s3 = Inr (s4, ''memuncached_ver(): 1.0'' @ [LF])"
    "moved (request_text Ver) (map (\<lambda>d. value_reply 0 (fmt_d d)) [1, 0, -10, -10, 19] @ [response_text RESPONSE_200_OK ''bye.'']) s3 s4"
    using demo_ver_ok [OF conjunct2 [OF moved_out [OF s3(2)]] assms(2)] by blast
  from demo_counts_ok [OF conjunct2 [OF moved_out [OF s4(2)]] assms(2)] obtain s5 out5 where
    s5: "demo_counts env s4 = Inr (s5, out5)"
      "moved (concat (map (\<lambda>x. request_text (request_of x)) last_calls)) [response_text RESPONSE_200_OK ''bye.''] s4 s5"
    and o5: "out5 = call_text ''inc_f'' ''x'' @ '': 1'' @ [LF] @ call_text ''dec_d'' ''x'' @ '': 0'' @ [LF] @
      call_open ''dec_d'' ''x'' @ '', 10): -10'' @ [LF] @ call_text ''del'' ''x'' @ '': -10'' @ [LF] @
      call_open ''dec_d'' ''x'' @ '', 10, 19): 19'' @ [LF]" unfolding last_calls_def by blast
  obtain s6 where s6: "memuncached_disconnect env True s5 = Inr (snd s6, True)" "moved (''BYE'' @ CRLF) [] s5 s6"
    using disconnect_ok [OF conjunct2 [OF moved_out [OF s5(2)]] assms(2)] by blast
  have d: "fmt_d (sint (3 :: int32)) = ''3''" by code_simp
  have out: "demo_output n = out1 @ out2 @ (''memuncached_stt(): key_count: '' @ fmt_d (sint (3 :: int32)) @
      '', client_count: '' @ fmt_d (sint n) @ [LF]) @ (''memuncached_ver(): 1.0'' @ [LF]) @ out5 @
      ''memuncached_disconnect(): success'' @ [LF]"
    unfolding o1 o2 o5 d
    by (simp add: demo_output_def call_text_value_def call_text_def call_open_def quoted_def QUOTE_def truth_def
        set_s_data_def add_s_data_def)
  have first: "concat (map (\<lambda>x. request_text (request_of x)) first_calls) = q1 @ q2"
    by (simp add: q1 q2 first_calls_def store_text_def key_text_def type_word_def)
  have "sk_out (snd s6) = q1 @ q2 @ (''STT'' @ CRLF) @ request_text Ver @
      concat (map (\<lambda>x. request_text (request_of x)) last_calls) @ ''BYE'' @ CRLF"
    using moved_out [OF s1(2)] moved_out [OF s2(2)] moved_out [OF s3(2)] moved_out [OF s4(2)] moved_out [OF s5(2)]
      moved_out [OF s6(2)] by (simp only: append_assoc append_Nil snd_conv sock.select_convs)
  also have "\<dots> = concat demo_requests"
    unfolding demo_requests_def concat_append map_append first by (simp only: concat.simps append_assoc append_Nil append_Nil2)
  finally have "sk_out (snd s6) = concat demo_requests" .
  then show ?thesis using c(1) s1(1) s2(1) s3(1) s4(1) s5(1) s6(1) out
    by (intro exI [of _ "snd s6"]) (simp add: demo_main_def demo_commands_def)
qed

lemma demo_buckets:
  assumes "ht_size t = 1000"
  shows "bucket t ''real'' = unat (fnv1a ''real'' mod 1000)" "distinct (map (bucket t) [''real'', ''decimal'', ''text'', ''x''])"
proof -
  show "bucket t ''real'' = unat (fnv1a ''real'' mod 1000)" by (simp add: bucket_def assms)
  have "distinct (map (\<lambda>k. unat (fnv1a k mod 1000)) [''real'', ''decimal'', ''text'', ''x''])" by code_simp
  then show "distinct (map (bucket t) [''real'', ''decimal'', ''text'', ''x''])" by (simp add: bucket_def assms)
qed

definition demo_cache :: "(string \<Rightarrow> nat) \<Rightarrow> cache" where
  "demo_cache h = [h ''real'' \<mapsto> VReal (atof ''5.999875''), h ''decimal'' \<mapsto> VDecimal set_d_data, h ''text'' \<mapsto> VDecimal set_d_data]"

lemma demo_first_run:
  assumes "distinct (map h [''real'', ''decimal'', ''text'', ''x''])"
  shows "cache_run h (map request_of first_calls) Map.empty = Some (demo_cache h, concat (take 8 (demo_replies n)))"
proof -
  have p: "payload_value (type_arg (type_word (PReal set_f_data))) (payload_bytes (PReal set_f_data)) = VReal (atof ''5.999875'')"
    "payload_value (type_arg (type_word (PDecimal set_d_data))) (payload_bytes (PDecimal set_d_data)) = VDecimal set_d_data"
    by code_simp+
  have v: "value_text (VReal (atof ''5.999875'')) = ''5.999875''" "value_text (VDecimal set_d_data) = ''-123456''" by code_simp+
  show ?thesis using assms
    by (simp add: first_calls_def demo_replies_def demo_cache_def p v found_reply_def type_of_value_def cache_types
        numeral_3_eq_3 del: payload_bytes.simps value_text.simps)
qed

lemma demo_last_run:
  assumes "distinct (map h [''real'', ''decimal'', ''text'', ''x''])"
  shows "cache_run h (Ver # map request_of last_calls) (demo_cache h) =
    Some ((demo_cache h)(h ''x'' \<mapsto> VDecimal 19), concat (take 6 (drop 9 (demo_replies n))))"
proof -
  have x: "demo_cache h (h ''x'') = None" using assms by (simp add: demo_cache_def)
  have s: "sint (1 :: int64) = 1" "sint (0 :: int64) = 0" "sint (-10 :: int64) = -10" "sint (19 :: int64) = 19" by code_simp+
  show ?thesis
    by (simp add: last_calls_def demo_replies_def x s counted_def found_reply_def type_of_value_def cache_types Let_def)
qed

lemma segments_append:
  "segments ess (xs @ ys) \<longleftrightarrow> (\<exists>es1 es2. ess = es1 @ es2 \<and> segments es1 xs \<and> segments es2 ys)"
proof
  assume "segments ess (xs @ ys)"
  then show "\<exists>es1 es2. ess = es1 @ es2 \<and> segments es1 xs \<and> segments es2 ys"
    unfolding segments_def list_all2_append2 by blast
qed (auto simp: segments_def intro: list_all2_appendI)

lemma session_serves:
  assumes "serving w c" and "good_memory env" and "segments ess (map request_text rqs)" and "list_all request_ok rqs"
    and "cache_run (bucket (w_table w)) rqs c = Some (c', replies)"
  shows "\<exists>w'. session_runs env ess w w' \<and> serving w' c' \<and> sk_out (w_sock w') = sk_out (w_sock w) @ replies \<and>
    bucket (w_table w') = bucket (w_table w)"
  using session_refines [OF assms(1,2) _ assms(4,5)] assms(3) by (simp add: segments_def list_all2_map2)

lemma demo_requests_ok: "list_all request_ok (map request_of first_calls)" "list_all request_ok (Ver # map request_of last_calls)"
proof -
  have "list_all call_ok first_calls" "list_all call_ok last_calls"
    by (simp_all add: first_calls_def last_calls_def is_word_def is_blank_def demo_literals add_s_data_def no_break_def)
  then show "list_all request_ok (map request_of first_calls)" "list_all request_ok (Ver # map request_of last_calls)"
    by (auto simp: list_all_iff intro: request_of_ok)
qed

lemma segments_demo_requests:
  assumes "segments requests demo_requests"
  obtains es1 stt es2 bye where "requests = es1 @ [stt] @ es2 @ [bye]" "segments es1 (map request_text (map request_of first_calls))"
    "segments [stt] [''STT'' @ CRLF]" "segments es2 (map request_text (Ver # map request_of last_calls))" "segments [bye] [''BYE'' @ CRLF]"
proof -
  have eq: "demo_requests = map request_text (map request_of first_calls) @ [''STT'' @ CRLF] @
      map request_text (Ver # map request_of last_calls) @ [''BYE'' @ CRLF]"
    by (simp add: demo_requests_def comp_def)
  obtain es1 r1 where e1: "requests = es1 @ r1" "segments es1 (map request_text (map request_of first_calls))"
    "segments r1 ([''STT'' @ CRLF] @ map request_text (Ver # map request_of last_calls) @ [''BYE'' @ CRLF])"
    using assms unfolding eq segments_append [of requests] by blast
  obtain s r2 where e2: "r1 = s @ r2" "segments s [''STT'' @ CRLF]"
    "segments r2 (map request_text (Ver # map request_of last_calls) @ [''BYE'' @ CRLF])"
    using e1(3) unfolding segments_append [of r1] by blast
  obtain es2 b where e3: "r2 = es2 @ b" "segments es2 (map request_text (Ver # map request_of last_calls))" "segments b [''BYE'' @ CRLF]"
    using e2(3) unfolding segments_append [of r2] by blast
  note e = e1(1,2) e2(1,2) e3
  then obtain stt bye where "s = [stt]" "b = [bye]" by (auto simp: segments_def list_all2_Cons2)
  with e that show thesis by simp
qed

section \<open>Properties\<close>

text \<open>The server's answer to STT, between the two parts of the demo.\<close>

lemma stt_served:
  assumes "serving w1 (demo_cache h)" and "bucket (w_table w1) = h" and "distinct (map h [''real'', ''decimal'', ''text'', ''x''])"
    and "good_memory env" and "segments [stt] [''STT'' @ CRLF]" and "n = word_of_int (sint (v_count (w_clients w1)))"
  obtains w2 where "session_runs env [stt] w1 w2" "serving w2 (demo_cache h)" "bucket (w_table w2) = h"
    "sk_out (w_sock w2) = sk_out (w_sock w1) @ response_text RESPONSE_200_OK (stt_body n 3)"
proof -
  have st: "reliable stt" "incoming stt = ''STT'' @ CRLF" using assms(5) by (simp_all add: segments_def)
  obtain k es' over where stt: "connection_steps env k (Outer, after_read stt w1) =
      Some (Inr (Outer, memuncached_stt (overrun over (after_read es' w1))))"
    using serve_plain [OF assms(1,4) st, of memuncached_stt] by blast
  define w2 where "w2 = memuncached_stt (overrun over (after_read es' w1))"
  have keys: "to_int (ht_count (w_table w1)) = sint (3 :: int32)"
  proof -
    have t1: "ht_inv (w_table w1)" "contents (w_table w1) = demo_cache h" using assms(1) by (simp_all add: serving_def)
    have "unat (ht_count (w_table w1)) = card (dom (demo_cache h))" using table_count [OF t1(1)] t1(2) by simp
    also have "\<dots> = 3" using assms(3) by (simp add: demo_cache_def)
    finally have "ht_count (w_table w1) = 3" by (simp add: word_unat_eq_iff)
    then show ?thesis by (simp add: to_int_def)
  qed
  have clients: "to_int (v_count (w_clients w1)) = sint n" using assms(6) by (simp add: to_int_def)
  have "serving w2 (demo_cache h)" "sk_out (w_sock w2) = sk_out (w_sock w1) @ response_text RESPONSE_200_OK (stt_body n 3)"
    "bucket (w_table w2) = h"
    using assms(1,2) clients keys
    by (simp_all add: w2_def memuncached_stt_def reply_defs send_def stt_body_def serving_def)
  moreover have "session_runs env [stt] w1 w2" using stt unfolding w2_def by (auto intro: session_runs.intros)
  ultimately show thesis using that by blast
qed

lemma bye_served:
  assumes "serving w c" and "good_memory env" and "segments [bye] [''BYE'' @ CRLF]"
  obtains w' where "session_runs env [bye] w w'" "\<not> cc_is_thread_running (w_client w')"
    "sk_out (w_sock w') = sk_out (w_sock w) @ response_text RESPONSE_200_OK ''bye.''"
proof -
  have "reliable bye" "incoming bye = ''BYE'' @ CRLF" using assms(3) by (simp_all add: segments_def)
  from serve_plain [OF assms(1,2) this, of memuncached_bye] obtain k es over where
    bye: "connection_steps env k (Outer, after_read bye w) = Some (Inr (Outer, memuncached_bye (overrun over (after_read es w))))" by blast
  then have "session_runs env [bye] w (memuncached_bye (overrun over (after_read es w)))" by (auto intro: session_runs.intros)
  then show thesis using that by (simp add: memuncached_bye_def Let_def reply_defs send_def)
qed



end
