(* ===== verification/Table_Steps.thy ===== *)
theory Table_Steps
  imports Hash_Table
begin

text \<open>
  The operations of hash_table.c statement by statement, on a memory with addresses, as threads
  execute them: no operation takes a lock, and all connection threads share the table. A step
  is one statement or test; \<open>count++\<close>, \<open>count--\<close> and the assignments to \<open>*val\<close> are a read and a
  write. The lemmas show what each step does to the bucket of its operation, and that it leaves
  the other buckets alone.
\<close>

section \<open>Memory\<close>

text \<open>
  The fields of \<open>cache_value_t\<close>, each \<open>None\<close> until it is written; a value pointer is \<open>None\<close> for
  \<open>NULL\<close>. A value block has a size and its contents, if any has been written. Freed blocks are
  not there, and addresses are not used again.
\<close>

record entry_block =
  eb_key :: "string option"
  eb_type :: "cache_value_type option"
  eb_value :: "nat option option"
  eb_length :: "size_t option"

record memory =
  m_table :: "nat option list"
  m_count :: size_t
  m_size :: size_t
  m_entry :: "nat \<Rightarrow> entry_block option"
  m_value :: "nat \<Rightarrow> (nat \<times> heap_value option) option"
  m_next :: nat

definition blank_entry :: entry_block where
  "blank_entry = \<lparr>eb_key = None, eb_type = None, eb_value = None, eb_length = None\<rparr>"

definition field :: "'a option \<Rightarrow> 'a res" where
  "field x = (case x of None \<Rightarrow> Inl Indeterminate | Some v \<Rightarrow> Inr v)"

definition load_cell :: "memory \<Rightarrow> nat \<Rightarrow> nat option res" where
  "load_cell m i = (if length (m_table m) \<le> i then Inl OutOfBounds else Inr (m_table m ! i))"

definition load_entry :: "memory \<Rightarrow> nat \<Rightarrow> entry_block res" where
  "load_entry m p = (case m_entry m p of None \<Rightarrow> Inl DanglingAccess | Some e \<Rightarrow> Inr e)"

text \<open>\<open>table->table[index]->...\<close>: the address of the entry and the entry.\<close>

definition deref_cell :: "memory \<Rightarrow> nat \<Rightarrow> (nat \<times> entry_block) res" where
  "deref_cell m i =
     bind_res (load_cell m i) (\<lambda>c.
       case c of None \<Rightarrow> Inl NullDeref | Some p \<Rightarrow> map_res (\<lambda>e. (p, e)) (load_entry m p))"

definition update_cell :: "nat \<Rightarrow> (entry_block \<Rightarrow> entry_block) \<Rightarrow> memory \<Rightarrow> memory res" where
  "update_cell i f m = map_res (\<lambda>(p, e). m\<lparr>m_entry := (m_entry m)(p \<mapsto> f e)\<rparr>) (deref_cell m i)"

definition free_block :: "nat option \<Rightarrow> memory \<Rightarrow> memory res" where
  "free_block v m =
     (case v of
        None \<Rightarrow> Inr m
      | Some q \<Rightarrow> if m_value m q = None then Inl DanglingAccess else Inr (m\<lparr>m_value := (m_value m)(q := None)\<rparr>))"

definition size_of :: "heap_value \<Rightarrow> nat" where
  "size_of v = (case v of VString s \<Rightarrow> length s | _ \<Rightarrow> 8)"

definition write_block :: "nat option \<Rightarrow> heap_value \<Rightarrow> memory \<Rightarrow> memory res" where
  "write_block v x m =
     (case v of
        None \<Rightarrow> Inl NullDeref
      | Some q \<Rightarrow>
          (case m_value m q of
             None \<Rightarrow> Inl DanglingAccess
           | Some (sz, _) \<Rightarrow>
               if sz < size_of x then Inl OutOfBounds else Inr (m\<lparr>m_value := (m_value m)(q \<mapsto> (sz, Some x))\<rparr>)))"

definition read_block :: "nat option \<Rightarrow> memory \<Rightarrow> heap_value res" where
  "read_block v m =
     (case v of
        None \<Rightarrow> Inl NullDeref
      | Some q \<Rightarrow> (case m_value m q of None \<Rightarrow> Inl DanglingAccess | Some (_, x) \<Rightarrow> field x))"

text \<open>A new value block, stored in the entry of a cell.\<close>

definition new_block :: "nat \<Rightarrow> nat \<times> heap_value option \<Rightarrow> memory \<Rightarrow> memory res" where
  "new_block i b m =
     update_cell i (\<lambda>e. e\<lparr>eb_value := Some (Some (m_next m))\<rparr>)
       (m\<lparr>m_value := (m_value m)(m_next m \<mapsto> b), m_next := m_next m + 1\<rparr>)"

section \<open>Operations as steps\<close>

datatype operation =
    SetOp string cache_value_type heap_value size_t
  | AdjustOp "double \<Rightarrow> double \<Rightarrow> double" string double
  | DelOp string
  | GetOp string

datatype returned = Truth bool | Pointer "nat option"

text \<open>Where a thread is, with its local variables.\<close>

datatype pc =
    Entered
  | Set_alloc | Set_null | Set_count | Set_count_store size_t
  | Set_key | Set_type | Set_length | Set_test | Set_free | Set_block | Set_copy
  | Adjust_string nat | Adjust_decimal nat | Adjust_real nat | Adjust_pointer nat cache_value_type
  | Adjust_load nat "nat option" cache_value_type | Adjust_store nat "nat option" heap_value
  | Del_value nat | Del_entry nat | Del_clear | Del_count | Del_count_store size_t
  | Returned returned

definition set_step ::
    "string \<Rightarrow> cache_value_type \<Rightarrow> heap_value \<Rightarrow> size_t \<Rightarrow> nat \<Rightarrow> pc \<Rightarrow> memory \<Rightarrow> (pc \<times> memory) res" where
  "set_step key type value sz i pc m =
     (case pc of
        Entered \<Rightarrow> map_res (\<lambda>c. (if c = None then Set_alloc else Set_key, m)) (load_cell m i)
      | Set_alloc \<Rightarrow>
          map_res (\<lambda>_. (Set_null, m\<lparr>m_table := (m_table m)[i := Some (m_next m)],
              m_entry := (m_entry m)(m_next m \<mapsto> blank_entry), m_next := m_next m + 1\<rparr>)) (load_cell m i)
      | Set_null \<Rightarrow> map_res (\<lambda>m. (Set_count, m)) (update_cell i (\<lambda>e. e\<lparr>eb_value := Some None\<rparr>) m)
      | Set_count \<Rightarrow> Inr (Set_count_store (m_count m), m)
      | Set_count_store n \<Rightarrow> Inr (Set_key, m\<lparr>m_count := n + 1\<rparr>)
      | Set_key \<Rightarrow> map_res (\<lambda>m. (Set_type, m)) (update_cell i (\<lambda>e. e\<lparr>eb_key := Some key\<rparr>) m)
      | Set_type \<Rightarrow> map_res (\<lambda>m. (Set_length, m)) (update_cell i (\<lambda>e. e\<lparr>eb_type := Some type\<rparr>) m)
      | Set_length \<Rightarrow> map_res (\<lambda>m. (Set_test, m)) (update_cell i (\<lambda>e. e\<lparr>eb_length := Some sz\<rparr>) m)
      | Set_test \<Rightarrow>
          bind_res (deref_cell m i) (\<lambda>(_, e).
            map_res (\<lambda>v. (if v = None then Set_block else Set_free, m)) (field (eb_value e)))
      | Set_free \<Rightarrow>
          bind_res (deref_cell m i) (\<lambda>(_, e).
            bind_res (field (eb_value e)) (\<lambda>v. map_res (\<lambda>m. (Set_block, m)) (free_block v m)))
      | Set_block \<Rightarrow>
          if type = CACHE_VALUE_DECIMAL \<or> type = CACHE_VALUE_REAL then
            map_res (\<lambda>m. (Set_copy, m)) (new_block i (8, None) m)
          else if type = CACHE_VALUE_STRING then
            map_res (\<lambda>m. (Set_copy, m)) (new_block i (unat sz, Some (VString (replicate (unat sz) NUL))) m)
          else Inr (Returned (Truth True), m)
      | Set_copy \<Rightarrow>
          bind_res (store_value type value sz VNull) (\<lambda>x.
          bind_res (deref_cell m i) (\<lambda>(_, e).
          bind_res (field (eb_value e)) (\<lambda>v.
            map_res (\<lambda>m. (Returned (Truth True), m)) (write_block v x m))))
      | _ \<Rightarrow> Inr (pc, m))"

text \<open>The new value of \<open>*val\<close>, read at the given type.\<close>

definition adjusted :: "(double \<Rightarrow> double \<Rightarrow> double) \<Rightarrow> double \<Rightarrow> cache_value_type \<Rightarrow> heap_value \<Rightarrow> heap_value res" where
  "adjusted f offset type v =
     (if type = CACHE_VALUE_DECIMAL then
        (case v of VDecimal d \<Rightarrow> map_res VDecimal (dbl_to_int64 (f (int_to_double (sint d)) offset)) | v \<Rightarrow> Inl (bad_read v))
      else (case v of VReal r \<Rightarrow> Inr (VReal (f r offset)) | v \<Rightarrow> Inl (bad_read v)))"

definition adjust_step ::
    "(double \<Rightarrow> double \<Rightarrow> double) \<Rightarrow> double \<Rightarrow> nat \<Rightarrow> pc \<Rightarrow> memory \<Rightarrow> (pc \<times> memory) res" where
  "adjust_step f offset i pc m =
     (case pc of
        Entered \<Rightarrow>
          map_res (\<lambda>c. (case c of None \<Rightarrow> Returned (Pointer None) | Some p \<Rightarrow> Adjust_string p, m)) (load_cell m i)
      | Adjust_string p \<Rightarrow>
          bind_res (load_entry m p) (\<lambda>e. map_res (\<lambda>type.
            (if type = CACHE_VALUE_STRING then Returned (Pointer None) else Adjust_decimal p, m)) (field (eb_type e)))
      | Adjust_decimal p \<Rightarrow>
          bind_res (load_entry m p) (\<lambda>e. map_res (\<lambda>type.
            (if type = CACHE_VALUE_DECIMAL then Adjust_pointer p type else Adjust_real p, m)) (field (eb_type e)))
      | Adjust_real p \<Rightarrow>
          bind_res (load_entry m p) (\<lambda>e. map_res (\<lambda>type.
            (if type = CACHE_VALUE_REAL then Adjust_pointer p type else Returned (Pointer (Some p)), m)) (field (eb_type e)))
      | Adjust_pointer p type \<Rightarrow>
          bind_res (load_entry m p) (\<lambda>e. map_res (\<lambda>v. (Adjust_load p v type, m)) (field (eb_value e)))
      | Adjust_load p v type \<Rightarrow>
          bind_res (read_block v m) (\<lambda>x. map_res (\<lambda>x. (Adjust_store p v x, m)) (adjusted f offset type x))
      | Adjust_store p v x \<Rightarrow> map_res (\<lambda>m. (Returned (Pointer (Some p)), m)) (write_block v x m)
      | _ \<Rightarrow> Inr (pc, m))"

definition del_step :: "nat \<Rightarrow> pc \<Rightarrow> memory \<Rightarrow> (pc \<times> memory) res" where
  "del_step i pc m =
     (case pc of
        Entered \<Rightarrow>
          map_res (\<lambda>c. (case c of None \<Rightarrow> Returned (Truth False) | Some p \<Rightarrow> Del_value p, m)) (load_cell m i)
      | Del_value p \<Rightarrow>
          bind_res (load_entry m p) (\<lambda>e. bind_res (field (eb_value e)) (\<lambda>v.
            map_res (\<lambda>m. (Del_entry p, m)) (free_block v m)))
      | Del_entry p \<Rightarrow> map_res (\<lambda>_. (Del_clear, m\<lparr>m_entry := (m_entry m)(p := None)\<rparr>)) (load_entry m p)
      | Del_clear \<Rightarrow> map_res (\<lambda>_. (Del_count, m\<lparr>m_table := (m_table m)[i := None]\<rparr>)) (load_cell m i)
      | Del_count \<Rightarrow> Inr (Del_count_store (m_count m), m)
      | Del_count_store n \<Rightarrow> Inr (Returned (Truth True), m\<lparr>m_count := n - 1\<rparr>)
      | _ \<Rightarrow> Inr (pc, m))"

definition get_step :: "nat \<Rightarrow> pc \<Rightarrow> memory \<Rightarrow> (pc \<times> memory) res" where
  "get_step i pc m =
     (if pc = Entered then map_res (\<lambda>c. (Returned (Pointer c), m)) (load_cell m i) else Inr (pc, m))"

text \<open>The index; the size never changes.\<close>

definition cell_index :: "memory \<Rightarrow> string \<Rightarrow> nat res" where
  "cell_index m key =
     (if m_size m = 0 then Inl DivisionByZero
      else let index = fnv1a key mod m_size m
           in if sint index < 0 then Inl OutOfBounds else Inr (unat index))"

fun op_key :: "operation \<Rightarrow> string" where
  "op_key (SetOp key _ _ _) = key"
| "op_key (AdjustOp _ key _) = key"
| "op_key (DelOp key) = key"
| "op_key (GetOp key) = key"

fun index_step :: "operation \<Rightarrow> nat \<Rightarrow> pc \<Rightarrow> memory \<Rightarrow> (pc \<times> memory) res" where
  "index_step (SetOp key type value sz) i = set_step key type value sz i"
| "index_step (AdjustOp f key offset) i = adjust_step f offset i"
| "index_step (DelOp key) i = del_step i"
| "index_step (GetOp key) i = get_step i"

definition op_step :: "operation \<Rightarrow> pc \<Rightarrow> memory \<Rightarrow> (pc \<times> memory) res" where
  "op_step op pc m = bind_res (cell_index m (op_key op)) (\<lambda>i. index_step op i pc m)"

text \<open>Threads, each in one operation, and a schedule: which thread makes the next step.\<close>

type_synonym threads = "(operation \<times> pc) list"

definition thread_step :: "nat \<Rightarrow> threads \<times> memory \<Rightarrow> (threads \<times> memory) res" where
  "thread_step i s =
     (case s of (ts, m) \<Rightarrow>
        if length ts \<le> i then Inr s
        else map_res (\<lambda>(pc, m). (ts[i := (fst (ts ! i), pc)], m)) (op_step (fst (ts ! i)) (snd (ts ! i)) m))"

fun schedule :: "nat list \<Rightarrow> threads \<times> memory \<Rightarrow> (threads \<times> memory) res" where
  "schedule [] s = Inr s"
| "schedule (i # is) s = bind_res (thread_step i s) (schedule is)"

definition start :: "operation list \<Rightarrow> threads" where
  "start ops = map (\<lambda>op. (op, Entered)) ops"

definition empty_memory :: "size_t \<Rightarrow> memory" where
  "empty_memory sz =
     \<lparr>m_table = replicate (unat sz) None, m_count = 0, m_size = sz, m_entry = (\<lambda>_. None), m_value = (\<lambda>_. None), m_next = 0\<rparr>"

section \<open>The table a memory holds\<close>

definition entry_at :: "memory \<Rightarrow> nat \<Rightarrow> cache_value option" where
  "entry_at m p =
     (case m_entry m p of
        Some e \<Rightarrow>
          (case (eb_key e, eb_type e, eb_value e, eb_length e) of
             (Some k, Some ty, Some (Some q), Some len) \<Rightarrow>
               (case m_value m q of
                  Some (_, Some v) \<Rightarrow> Some \<lparr>cv_key = k, cv_type = ty, cv_value = v, cv_length = len\<rparr>
                | _ \<Rightarrow> None)
           | _ \<Rightarrow> None)
      | None \<Rightarrow> None)"

definition table_of :: "memory \<Rightarrow> hash_table" where
  "table_of m =
     \<lparr>ht_table = map (\<lambda>c. case c of None \<Rightarrow> None | Some p \<Rightarrow> entry_at m p) (m_table m), ht_count = m_count m, ht_size = m_size m\<rparr>"

section \<open>What one bucket sees\<close>

text \<open>The pointer in the cell of a bucket, the entry behind it and the value block behind that.\<close>

definition cell :: "memory \<Rightarrow> nat \<Rightarrow> nat option" where
  "cell m b = (if b < length (m_table m) then m_table m ! b else None)"

definition ent :: "memory \<Rightarrow> nat \<Rightarrow> entry_block option" where
  "ent m b = (case cell m b of None \<Rightarrow> None | Some p \<Rightarrow> m_entry m p)"

definition value_pointer :: "entry_block option \<Rightarrow> nat option" where
  "value_pointer e = (case e of None \<Rightarrow> None | Some e \<Rightarrow> (case eb_value e of Some (Some q) \<Rightarrow> Some q | _ \<Rightarrow> None))"

definition blk :: "memory \<Rightarrow> nat \<Rightarrow> (nat \<times> heap_value option) option" where
  "blk m b = (case value_pointer (ent m b) of None \<Rightarrow> None | Some q \<Rightarrow> m_value m q)"

type_synonym bucket_view = "nat option \<times> entry_block option \<times> (nat \<times> heap_value option) option"

definition view :: "memory \<Rightarrow> nat \<Rightarrow> bucket_view" where
  "view m b = (cell m b, ent m b, blk m b)"

text \<open>No two buckets share an entry or a value block, and new addresses are new.\<close>

definition separate :: "memory \<Rightarrow> bool" where
  "separate m \<longleftrightarrow>
     (\<forall>b c p. cell m b = Some p \<longrightarrow> p < m_next m \<and> (cell m c = Some p \<longrightarrow> b = c)) \<and>
     (\<forall>b c q. value_pointer (ent m b) = Some q \<longrightarrow> q < m_next m \<and> (value_pointer (ent m c) = Some q \<longrightarrow> b = c))"

definition keeps_others :: "nat \<Rightarrow> memory \<Rightarrow> memory \<Rightarrow> bool" where
  "keeps_others i m m' \<longleftrightarrow>
     separate m' \<and> length (m_table m') = length (m_table m) \<and> m_size m' = m_size m \<and> (\<forall>b. b \<noteq> i \<longrightarrow> view m' b = view m b)"

lemma separateD:
  assumes "separate m"
  shows "cell m b = Some p \<Longrightarrow> p < m_next m" "cell m b = Some p \<Longrightarrow> cell m c = Some p \<Longrightarrow> b = c"
    "value_pointer (ent m b) = Some q \<Longrightarrow> q < m_next m"
    "value_pointer (ent m b) = Some q \<Longrightarrow> value_pointer (ent m c) = Some q \<Longrightarrow> b = c"
  using assms unfolding separate_def by blast+

lemma value_pointer_simps [simp]:
  "value_pointer None = None" "value_pointer (Some e) = (case eb_value e of Some (Some q) \<Rightarrow> Some q | _ \<Rightarrow> None)"
  by (simp_all add: value_pointer_def)

text \<open>
  A change at one bucket: the new cell and the new entry of that bucket are given, and the
  value block is either that of its own pointer or not touched.
\<close>

lemma change_at:
  assumes "separate m" and "length (m_table m') = length (m_table m)" and "m_size m' = m_size m" and "m_next m \<le> m_next m'"
    and "\<And>b. b \<noteq> i \<Longrightarrow> cell m' b = cell m b"
    and "\<And>b. b \<noteq> i \<Longrightarrow> ent m' b = ent m b"
    and "\<And>q. q < m_next m \<Longrightarrow> value_pointer (ent m i) \<noteq> Some q \<Longrightarrow> m_value m' q = m_value m q"
    and "\<And>p. cell m' i = Some p \<Longrightarrow> cell m i = Some p \<or> p = m_next m \<and> m_next m < m_next m'"
    and "\<And>q. value_pointer (ent m' i) = Some q \<Longrightarrow> value_pointer (ent m i) = Some q \<or> q = m_next m \<and> m_next m < m_next m'"
  shows "keeps_others i m m'"
proof -
  note sd = separateD [OF assms(1)]
  have "blk m' b = blk m b" if "b \<noteq> i" for b
  proof (cases "value_pointer (ent m b)")
    case (Some q)
    then have "q < m_next m" "value_pointer (ent m i) \<noteq> Some q" using sd(3,4) that by blast+
    with assms(6,7) that Some show ?thesis by (simp add: blk_def)
  qed (simp add: blk_def assms(6) [OF that])
  with assms(5,6) have views: "view m' b = view m b" if "b \<noteq> i" for b using that by (simp add: view_def)
  have "p < m_next m'" if "cell m' b = Some p" for b p
    using assms(4,5,8) sd(1) that by (cases "b = i") (metis less_le_trans)+
  moreover have "b = c" if "cell m' b = Some p" "cell m' c = Some p" for b c p
    using assms(5,8) sd(1,2) that by (cases "b = i"; cases "c = i") (metis less_irrefl)+
  moreover have "q < m_next m'" if "value_pointer (ent m' b) = Some q" for b q
    using assms(4,6,9) sd(3) that by (cases "b = i") (metis less_le_trans)+
  moreover have "b = c" if "value_pointer (ent m' b) = Some q" "value_pointer (ent m' c) = Some q" for b c q
    using assms(6,9) sd(3,4) that by (cases "b = i"; cases "c = i") (metis less_irrefl)+
  ultimately have "separate m'" unfolding separate_def by blast
  with assms(2,3) views show ?thesis by (simp add: keeps_others_def)
qed

lemma cell_entry:
  assumes "separate m" and "cell m i = Some p" and "b \<noteq> i" and "cell m b = Some p'"
  shows "p' \<noteq> p"
  using separateD(2) [OF assms(1)] assms(2-4) by blast

text \<open>The changes that the steps make.\<close>

lemma change_entry:
  assumes "separate m" and "cell m i = Some p" and "ent m i = Some e" and "eb_value e' = eb_value e \<or> eb_value e' = Some None"
  defines "m' \<equiv> m\<lparr>m_entry := (m_entry m)(p \<mapsto> e')\<rparr>"
  shows "keeps_others i m m'" and "view m' i = (Some p, Some e', if eb_value e' = Some None then None else blk m i)"
proof -
  have c: "cell m' b = cell m b" for b by (simp add: cell_def m'_def)
  have e: "ent m' i = Some e'" using assms(2) c by (simp add: ent_def) (simp add: m'_def)
  have o: "ent m' b = ent m b" if "b \<noteq> i" for b
    using cell_entry [OF assms(1,2) that] c [of b] by (auto simp: ent_def m'_def split: option.split)
  have mv: "m_value m' = m_value m" by (simp add: m'_def)
  have v: "value_pointer (Some e') = Some q \<Longrightarrow> value_pointer (Some e) = Some q" for q using assms(4) by auto
  show "keeps_others i m m'"
    by (rule change_at [OF assms(1)]) (use c o e v assms(2,3) in \<open>auto simp: m'_def simp del: value_pointer_simps(2)\<close>)
  show "view m' i = (Some p, Some e', if eb_value e' = Some None then None else blk m i)"
    using c e mv assms(2-4) by (auto simp: view_def blk_def cong: option.case_cong)
qed

lemma change_new_cell:
  assumes "separate m" and "i < length (m_table m)" and "cell m i = None"
  defines "m' \<equiv> m\<lparr>m_table := (m_table m)[i := Some (m_next m)], m_entry := (m_entry m)(m_next m \<mapsto> blank_entry), m_next := m_next m + 1\<rparr>"
  shows "keeps_others i m m'" and "view m' i = (Some (m_next m), Some blank_entry, None)"
proof -
  have c: "cell m' b = (if b = i then Some (m_next m) else cell m b)" for b using assms(2) by (auto simp: cell_def m'_def)
  have o: "ent m' b = ent m b" if "b \<noteq> i" for b
    using separateD(1) [OF assms(1), of b] c [of b] that by (auto simp: ent_def m'_def split: option.split)
  have e: "ent m' i = Some blank_entry" by (simp add: ent_def c) (simp add: m'_def)
  show "keeps_others i m m'"
    by (rule change_at [OF assms(1)]) (use c o e assms(2,3) in \<open>auto simp: m'_def blank_entry_def\<close>)
  show "view m' i = (Some (m_next m), Some blank_entry, None)"
    using c e by (simp add: view_def blk_def blank_entry_def)
qed

lemma change_new_block:
  fixes b :: "nat \<times> heap_value option"
  assumes "separate m" and "cell m i = Some p" and "ent m i = Some e"
  defines "e' \<equiv> e\<lparr>eb_value := Some (Some (m_next m))\<rparr>"
  defines "m' \<equiv> m\<lparr>m_value := (m_value m)(m_next m \<mapsto> b), m_next := m_next m + 1, m_entry := (m_entry m)(p \<mapsto> e')\<rparr>"
  shows "keeps_others i m m'" and "view m' i = (Some p, Some e', Some b)"
proof -
  have c: "cell m' b = cell m b" for b by (simp add: cell_def m'_def)
  have e: "ent m' i = Some e'" using assms(2) c by (simp add: ent_def) (simp add: m'_def)
  have o: "ent m' b = ent m b" if "b \<noteq> i" for b
    using cell_entry [OF assms(1,2) that] c [of b] by (auto simp: ent_def m'_def split: option.split)
  show "keeps_others i m m'"
    by (rule change_at [OF assms(1)]) (use c o e in \<open>auto simp: m'_def e'_def\<close>)
  show "view m' i = (Some p, Some e', Some b)"
    using c e assms(2) by (simp add: view_def blk_def e'_def) (simp add: m'_def)
qed

lemma change_block:
  fixes x :: "(nat \<times> heap_value option) option"
  assumes "separate m" and "value_pointer (ent m i) = Some q"
  defines "m' \<equiv> m\<lparr>m_value := (m_value m)(q := x)\<rparr>"
  shows "keeps_others i m m'" and "view m' i = (cell m i, ent m i, x)"
proof -
  have c: "cell m' b = cell m b" "ent m' b = ent m b" for b by (simp_all add: cell_def ent_def m'_def cong: option.case_cong)
  show "keeps_others i m m'"
    by (rule change_at [OF assms(1)]) (use c assms(2) in \<open>auto simp: m'_def\<close>)
  show "view m' i = (cell m i, ent m i, x)" using c assms(2) by (simp add: view_def blk_def) (simp add: m'_def)
qed

lemma change_free_entry:
  assumes "separate m" and "cell m i = Some p"
  defines "m' \<equiv> m\<lparr>m_entry := (m_entry m)(p := None)\<rparr>"
  shows "keeps_others i m m'" and "view m' i = (Some p, None, None)"
proof -
  have c: "cell m' b = cell m b" for b by (simp add: cell_def m'_def)
  have e: "ent m' i = None" using assms(2) c by (simp add: ent_def) (simp add: m'_def)
  have o: "ent m' b = ent m b" if "b \<noteq> i" for b
    using cell_entry [OF assms(1,2) that] c [of b] by (auto simp: ent_def m'_def split: option.split)
  show "keeps_others i m m'"
    by (rule change_at [OF assms(1)]) (use c o e in \<open>auto simp: m'_def\<close>)
  show "view m' i = (Some p, None, None)" using c e assms(2) by (simp add: view_def blk_def)
qed

lemma change_clear_cell:
  fixes i :: nat
  assumes "separate m"
  defines "m' \<equiv> m\<lparr>m_table := (m_table m)[i := None]\<rparr>"
  shows "keeps_others i m m'" and "view m' i = (None, None, None)"
proof -
  have c: "cell m' b = (if b = i then None else cell m b)" for b by (auto simp: cell_def m'_def)
  then have o: "ent m' b = (if b = i then None else ent m b)" for b by (auto simp: ent_def m'_def split: option.split)
  show "keeps_others i m m'"
    by (rule change_at [OF assms(1)]) (use c o in \<open>auto simp: m'_def\<close>)
  show "view m' i = (None, None, None)" using c o by (simp add: view_def blk_def)
qed

lemma change_count:
  assumes "separate m"
  shows "keeps_others i m (m\<lparr>m_count := n\<rparr>)" and "view (m\<lparr>m_count := n\<rparr>) i = view m i"
proof -
  have "cell (m\<lparr>m_count := n\<rparr>) b = cell m b" "ent (m\<lparr>m_count := n\<rparr>) b = ent m b" "blk (m\<lparr>m_count := n\<rparr>) b = blk m b" for b
    by (simp_all add: cell_def ent_def blk_def cong: option.case_cong)
  then show "keeps_others i m (m\<lparr>m_count := n\<rparr>)" "view (m\<lparr>m_count := n\<rparr>) i = view m i"
    using assms by (simp_all add: keeps_others_def view_def separate_def)
qed

lemma change_nothing: "separate m \<Longrightarrow> keeps_others i m m"
  by (simp add: keeps_others_def)

section \<open>An operation at its bucket\<close>

text \<open>The bucket holds an entry, or nothing.\<close>

definition full_entry :: "cache_value \<Rightarrow> nat \<Rightarrow> entry_block" where
  "full_entry cv q =
     \<lparr>eb_key = Some (cv_key cv), eb_type = Some (cv_type cv), eb_value = Some (Some q), eb_length = Some (cv_length cv)\<rparr>"

fun holds_entry :: "cache_value option \<Rightarrow> bucket_view \<Rightarrow> bool" where
  "holds_entry None v \<longleftrightarrow> v = (None, None, None)"
| "holds_entry (Some cv) v \<longleftrightarrow> (\<exists>p q. v = (Some p, Some (full_entry cv q), Some (size_of (cv_value cv), Some (cv_value cv))))"

text \<open>What an operation leaves in its bucket, and when it may run: as Hash_Table has it.\<close>

fun final :: "operation \<Rightarrow> cache_value option \<Rightarrow> cache_value option" where
  "final (SetOp key ty v sz) old = Some (entry_of key ty v sz)"
| "final (AdjustOp f key offset) old =
     (case old of
        None \<Rightarrow> None
      | Some cv \<Rightarrow>
          if cv_type cv = CACHE_VALUE_STRING then Some cv
          else (case adjusted f offset (cv_type cv) (cv_value cv) of Inr v \<Rightarrow> Some (cv\<lparr>cv_value := v\<rparr>) | Inl _ \<Rightarrow> Some cv))"
| "final (DelOp key) old = None"
| "final (GetOp key) old = old"

fun may_run :: "operation \<Rightarrow> cache_value option \<Rightarrow> bool" where
  "may_run (SetOp key ty v sz) old \<longleftrightarrow> storable ty v sz"
| "may_run (AdjustOp f key offset) old \<longleftrightarrow>
     (case old of None \<Rightarrow> True
      | Some cv \<Rightarrow> cv_type cv = CACHE_VALUE_STRING \<or> (\<exists>v. adjusted f offset (cv_type cv) (cv_value cv) = Inr v))"
| "may_run _ old \<longleftrightarrow> True"

fun answer :: "operation \<Rightarrow> cache_value option \<Rightarrow> nat option \<Rightarrow> returned" where
  "answer (SetOp _ _ _ _) old p = Truth True"
| "answer (AdjustOp _ _ _) old p =
     Pointer (case old of None \<Rightarrow> None | Some cv \<Rightarrow> if cv_type cv = CACHE_VALUE_STRING then None else p)"
| "answer (DelOp _) old p = Truth (old \<noteq> None)"
| "answer (GetOp _) old p = Pointer p"

text \<open>The bucket at each point of an operation that found \<open>old\<close> in it.\<close>

definition entry_with :: "bucket_view \<Rightarrow> (entry_block \<Rightarrow> (nat \<times> heap_value option) option \<Rightarrow> bool) \<Rightarrow> bool" where
  "entry_with v P \<longleftrightarrow> (\<exists>p e b. v = (Some p, Some e, b) \<and> P e b)"

definition live :: "entry_block \<Rightarrow> (nat \<times> heap_value option) option \<Rightarrow> bool" where
  "live e b \<longleftrightarrow> eb_value e = Some None \<or> (\<exists>q. eb_value e = Some (Some q) \<and> b \<noteq> None)"

fun at_set :: "string \<Rightarrow> cache_value_type \<Rightarrow> heap_value \<Rightarrow> size_t \<Rightarrow> cache_value option \<Rightarrow> pc \<Rightarrow> bucket_view \<Rightarrow> bool" where
  "at_set key ty x sz old Entered v \<longleftrightarrow> holds_entry old v"
| "at_set key ty x sz old Set_alloc v \<longleftrightarrow> old = None \<and> holds_entry None v"
| "at_set key ty x sz old Set_null v \<longleftrightarrow> old = None \<and> entry_with v (\<lambda>e b. eb_value e = None)"
| "at_set key ty x sz old Set_count v \<longleftrightarrow> old = None \<and> entry_with v (\<lambda>e b. eb_value e = Some None)"
| "at_set key ty x sz old (Set_count_store n) v \<longleftrightarrow> old = None \<and> entry_with v (\<lambda>e b. eb_value e = Some None)"
| "at_set key ty x sz old Set_key v \<longleftrightarrow> entry_with v live"
| "at_set key ty x sz old Set_type v \<longleftrightarrow> entry_with v (\<lambda>e b. live e b \<and> eb_key e = Some key)"
| "at_set key ty x sz old Set_length v \<longleftrightarrow> entry_with v (\<lambda>e b. live e b \<and> eb_key e = Some key \<and> eb_type e = Some ty)"
| "at_set key ty x sz old Set_test v \<longleftrightarrow>
     entry_with v (\<lambda>e b. live e b \<and> eb_key e = Some key \<and> eb_type e = Some ty \<and> eb_length e = Some sz)"
| "at_set key ty x sz old Set_free v \<longleftrightarrow>
     entry_with v (\<lambda>e b. live e b \<and> eb_key e = Some key \<and> eb_type e = Some ty \<and> eb_length e = Some sz)"
| "at_set key ty x sz old Set_block v \<longleftrightarrow>
     entry_with v (\<lambda>e b. eb_key e = Some key \<and> eb_type e = Some ty \<and> eb_length e = Some sz)"
| "at_set key ty x sz old Set_copy v \<longleftrightarrow>
     entry_with v (\<lambda>e b. eb_key e = Some key \<and> eb_type e = Some ty \<and> eb_length e = Some sz \<and>
       (\<exists>q c. eb_value e = Some (Some q) \<and> b = Some (size_of (stored x sz), c)))"
| "at_set key ty x sz old (Returned r) v \<longleftrightarrow> holds_entry (Some (entry_of key ty x sz)) v \<and> r = Truth True"
| "at_set key ty x sz old _ v \<longleftrightarrow> False"

fun at_adjust :: "(double \<Rightarrow> double \<Rightarrow> double) \<Rightarrow> double \<Rightarrow> cache_value option \<Rightarrow> pc \<Rightarrow> bucket_view \<Rightarrow> bool" where
  "at_adjust f x old Entered v \<longleftrightarrow> holds_entry old v"
| "at_adjust f x old (Adjust_string p) v \<longleftrightarrow> holds_entry old v \<and> old \<noteq> None \<and> fst v = Some p"
| "at_adjust f x old (Adjust_decimal p) v \<longleftrightarrow>
     holds_entry old v \<and> fst v = Some p \<and> (\<exists>cv. old = Some cv \<and> cv_type cv \<noteq> CACHE_VALUE_STRING)"
| "at_adjust f x old (Adjust_real p) v \<longleftrightarrow>
     holds_entry old v \<and> fst v = Some p \<and> (\<exists>cv. old = Some cv \<and> cv_type cv = CACHE_VALUE_REAL)"
| "at_adjust f x old (Adjust_pointer p ty) v \<longleftrightarrow>
     holds_entry old v \<and> fst v = Some p \<and> (\<exists>cv. old = Some cv \<and> cv_type cv = ty \<and> ty \<noteq> CACHE_VALUE_STRING)"
| "at_adjust f x old (Adjust_load p q ty) v \<longleftrightarrow>
     holds_entry old v \<and> fst v = Some p \<and> (\<exists>cv. old = Some cv \<and> cv_type cv = ty \<and> ty \<noteq> CACHE_VALUE_STRING) \<and>
     q = value_pointer (fst (snd v))"
| "at_adjust f x old (Adjust_store p q y) v \<longleftrightarrow>
     holds_entry old v \<and> fst v = Some p \<and>
     (\<exists>cv. old = Some cv \<and> cv_type cv \<noteq> CACHE_VALUE_STRING \<and> adjusted f x (cv_type cv) (cv_value cv) = Inr y) \<and>
     q = value_pointer (fst (snd v))"
| "at_adjust f x old (Returned r) v \<longleftrightarrow>
     holds_entry (final (AdjustOp f [] x) old) v \<and> r = answer (AdjustOp f [] x) old (fst v)"
| "at_adjust f x old _ v \<longleftrightarrow> False"

fun at_del :: "cache_value option \<Rightarrow> pc \<Rightarrow> bucket_view \<Rightarrow> bool" where
  "at_del old Entered v \<longleftrightarrow> holds_entry old v"
| "at_del old (Del_value p) v \<longleftrightarrow> holds_entry old v \<and> old \<noteq> None \<and> fst v = Some p"
| "at_del old (Del_entry p) v \<longleftrightarrow> old \<noteq> None \<and> fst v = Some p \<and> fst (snd v) \<noteq> None"
| "at_del old Del_clear v \<longleftrightarrow> old \<noteq> None"
| "at_del old Del_count v \<longleftrightarrow> old \<noteq> None \<and> v = (None, None, None)"
| "at_del old (Del_count_store n) v \<longleftrightarrow> old \<noteq> None \<and> v = (None, None, None)"
| "at_del old (Returned r) v \<longleftrightarrow> v = (None, None, None) \<and> r = Truth (old \<noteq> None)"
| "at_del old _ v \<longleftrightarrow> False"

fun at_get :: "cache_value option \<Rightarrow> pc \<Rightarrow> bucket_view \<Rightarrow> bool" where
  "at_get old Entered v \<longleftrightarrow> holds_entry old v"
| "at_get old (Returned r) v \<longleftrightarrow> holds_entry old v \<and> r = Pointer (fst v)"
| "at_get old _ v \<longleftrightarrow> False"

fun at_op :: "operation \<Rightarrow> cache_value option \<Rightarrow> pc \<Rightarrow> bucket_view \<Rightarrow> bool" where
  "at_op (SetOp key ty x sz) = at_set key ty x sz"
| "at_op (AdjustOp f key x) = at_adjust f x"
| "at_op (DelOp key) = at_del"
| "at_op (GetOp key) = at_get"

text \<open>How many steps are left, at most.\<close>

fun steps_left :: "pc \<Rightarrow> nat" where
  "steps_left Entered = 12"
| "steps_left Set_alloc = 11"
| "steps_left Set_null = 10"
| "steps_left Set_count = 9"
| "steps_left (Set_count_store _) = 8"
| "steps_left Set_key = 7"
| "steps_left Set_type = 6"
| "steps_left Set_length = 5"
| "steps_left Set_test = 4"
| "steps_left Set_free = 3"
| "steps_left Set_block = 2"
| "steps_left Set_copy = 1"
| "steps_left (Adjust_string _) = 6"
| "steps_left (Adjust_decimal _) = 5"
| "steps_left (Adjust_real _) = 4"
| "steps_left (Adjust_pointer _ _) = 3"
| "steps_left (Adjust_load _ _ _) = 2"
| "steps_left (Adjust_store _ _ _) = 1"
| "steps_left (Del_value _) = 5"
| "steps_left (Del_entry _) = 4"
| "steps_left Del_clear = 3"
| "steps_left Del_count = 2"
| "steps_left (Del_count_store _) = 1"
| "steps_left (Returned _) = 0"

text \<open>A step from a point of the operation leads to the next, and other buckets do not notice.\<close>

definition advances :: "(cache_value option \<Rightarrow> pc \<Rightarrow> bucket_view \<Rightarrow> bool) \<Rightarrow> cache_value option \<Rightarrow> nat \<Rightarrow> pc \<Rightarrow> memory \<Rightarrow> (pc \<times> memory) res \<Rightarrow> bool" where
  "advances point old i pc m r \<longleftrightarrow>
     (\<exists>pc' m'. r = Inr (pc', m') \<and> keeps_others i m m' \<and> point old pc' (view m' i) \<and> steps_left pc' \<le> steps_left pc - 1)"

lemma viewD:
  assumes "view m i = (c, e, b)"
  shows "cell m i = c" "ent m i = e" "blk m i = b"
  using assms by (simp_all add: view_def)

lemma deref_view:
  assumes "i < length (m_table m)" and "view m i = (Some p, Some e, b)"
  shows "load_cell m i = Inr (Some p)" "deref_cell m i = Inr (p, e)" "m_entry m p = Some e"
  using assms by (auto simp: view_def cell_def ent_def load_cell_def deref_cell_def load_entry_def)

lemma load_view: "i < length (m_table m) \<Longrightarrow> load_cell m i = Inr (fst (view m i))"
  by (simp add: load_cell_def view_def cell_def)

lemma block_view: "view m i = (c, e, b) \<Longrightarrow> value_pointer e = Some q \<Longrightarrow> m_value m q = b"
  by (auto simp: view_def blk_def)

lemma entry_update:
  assumes "separate m" and "i < length (m_table m)" and "view m i = (Some p, Some e, b)"
    and "eb_value (f e) = eb_value e \<or> eb_value (f e) = Some None"
  shows "\<exists>m'. update_cell i f m = Inr m' \<and> keeps_others i m m' \<and>
    view m' i = (Some p, Some (f e), if eb_value (f e) = Some None then None else b)"
  using change_entry [OF assms(1) viewD(1,2) [OF assms(3)] assms(4)] deref_view [OF assms(2,3)] viewD(3) [OF assms(3)]
  by (auto simp: update_cell_def)

lemma entry_new_block:
  assumes "separate m" and "i < length (m_table m)" and "view m i = (Some p, Some e, b)"
  shows "\<exists>m'. new_block i x m = Inr m' \<and> keeps_others i m m' \<and> view m' i = (Some p, Some (e\<lparr>eb_value := Some (Some (m_next m))\<rparr>), Some x)"
proof -
  have "deref_cell (m\<lparr>m_value := v, m_next := n\<rparr>) i = deref_cell m i" for v n
    by (simp add: deref_cell_def load_cell_def load_entry_def split: option.split)
  with change_new_block [OF assms(1) viewD(1,2) [OF assms(3)], of x] deref_view [OF assms(2,3)] show ?thesis
    by (auto simp: new_block_def update_cell_def)
qed

lemma block_write:
  assumes "separate m" and "view m i = (c, e, Some (n, y))" and "value_pointer e = Some q" and "size_of x \<le> n"
  shows "\<exists>m'. write_block (Some q) x m = Inr m' \<and> keeps_others i m m' \<and> view m' i = (c, e, Some (n, Some x))"
  using change_block [OF assms(1), of i q "Some (n, Some x)"] block_view [OF assms(2,3)] viewD [OF assms(2)] assms(3,4)
  by (auto simp: write_block_def)

lemma block_free:
  assumes "separate m" and "view m i = (c, e, Some b)" and "value_pointer e = Some q"
  shows "\<exists>m'. free_block (Some q) m = Inr m' \<and> keeps_others i m m' \<and> view m' i = (c, e, None)"
  using change_block [OF assms(1), of i q None] block_view [OF assms(2,3)] viewD [OF assms(2)] assms(3)
  by (auto simp: free_block_def)

section \<open>Every step leads on\<close>

lemma holds_view:
  assumes "holds_entry old v"
  shows "fst v = None \<longleftrightarrow> old = None" and "old = None \<Longrightarrow> v = (None, None, None)"
    and "old = Some cv \<Longrightarrow> \<exists>p q. v = (Some p, Some (full_entry cv q), Some (size_of (cv_value cv), Some (cv_value cv)))"
  using assms by (cases old; auto)+

lemma advances_same:
  "separate m \<Longrightarrow> point old pc' (view m i) \<Longrightarrow> steps_left pc' \<le> steps_left pc - 1 \<Longrightarrow> advances point old i pc m (Inr (pc', m))"
  by (auto simp: advances_def change_nothing)

lemma advances_by:
  assumes "\<exists>m'. r = Inr m' \<and> keeps_others i m m' \<and> view m' i = v" and "point old pc' v" and "steps_left pc' \<le> steps_left pc - 1"
  shows "advances point old i pc m (map_res (\<lambda>m. (pc', m)) r)"
  using assms by (auto simp: advances_def)

lemma set_update_advances:
  assumes "separate m" and "i < length (m_table m)" and "view m i = (Some p, Some e, b)"
    and "eb_value (f e) = eb_value e \<or> eb_value (f e) = Some None"
    and "at_set key ty x sz old pc' (Some p, Some (f e), if eb_value (f e) = Some None then None else b)"
    and "steps_left pc' \<le> steps_left pc - 1"
  shows "advances (at_set key ty x sz) old i pc m (map_res (\<lambda>m. (pc', m)) (update_cell i f m))"
  using advances_by [OF entry_update [where f = f, OF assms(1-4)], of "at_set key ty x sz" old pc' pc] assms(5,6) by blast

lemma live_None: "live e b \<Longrightarrow> live e (if eb_value e = Some None then None else b)"
  by (auto simp: live_def)

lemma set_advances:
  assumes "separate m" and "i < length (m_table m)" and "at_set key ty x sz old pc (view m i)" and "storable ty x sz"
  shows "advances (at_set key ty x sz) old i pc m (set_step key ty x sz i pc m)"
proof (cases pc)
  case Entered
  then have h: "holds_entry old (view m i)" using assms(3) by simp
  show ?thesis
  proof (cases old)
    case None
    then show ?thesis using h Entered assms(1) load_view [OF assms(2)]
      by (simp add: set_step_def, intro advances_same) simp_all
  next
    case (Some cv)
    then obtain p q where v: "view m i = (Some p, Some (full_entry cv q), Some (size_of (cv_value cv), Some (cv_value cv)))"
      using h by auto
    then show ?thesis using Entered assms(1) load_view [OF assms(2)]
      by (simp add: set_step_def, intro advances_same) (simp_all add: entry_with_def live_def full_entry_def)
  qed
next
  case Set_alloc
  then have "old = None" "view m i = (None, None, None)" using assms(3) by simp_all
  then have c: "cell m i = None" by (simp add: view_def)
  show ?thesis
    using change_new_cell [OF assms(1,2) c] load_view [OF assms(2)] \<open>old = None\<close> Set_alloc
    by (simp add: set_step_def advances_def entry_with_def) (simp add: blank_entry_def)
next
  case Set_null
  then obtain p e b where v: "view m i = (Some p, Some e, b)" and old: "old = None" using assms(3) by (auto simp: entry_with_def)
  show ?thesis unfolding Set_null set_step_def pc.case
    by (rule set_update_advances [OF assms(1,2) v]) (simp_all add: entry_with_def old)
next
  case Set_count
  then show ?thesis using assms(1,3) by (simp add: set_step_def, intro advances_same) simp_all
next
  case (Set_count_store n)
  then show ?thesis using change_count [OF assms(1)] assms(3)
    by (auto simp: set_step_def advances_def entry_with_def live_def)
next
  case Set_key
  then obtain p e b where v: "view m i = (Some p, Some e, b)" and e: "live e b" using assms(3) by (auto simp: entry_with_def)
  show ?thesis unfolding Set_key set_step_def pc.case
    by (rule set_update_advances [OF assms(1,2) v]) (use live_None [OF e] in \<open>simp_all add: entry_with_def live_def\<close>)
next
  case Set_type
  then obtain p e b where v: "view m i = (Some p, Some e, b)" and e: "live e b" "eb_key e = Some key"
    using assms(3) by (auto simp: entry_with_def)
  show ?thesis unfolding Set_type set_step_def pc.case
    by (rule set_update_advances [OF assms(1,2) v]) (use live_None [OF e(1)] e(2) in \<open>simp_all add: entry_with_def live_def\<close>)
next
  case Set_length
  then obtain p e b where v: "view m i = (Some p, Some e, b)" and e: "live e b" "eb_key e = Some key" "eb_type e = Some ty"
    using assms(3) by (auto simp: entry_with_def)
  show ?thesis unfolding Set_length set_step_def pc.case
    by (rule set_update_advances [OF assms(1,2) v]) (use live_None [OF e(1)] e(2,3) in \<open>simp_all add: entry_with_def live_def\<close>)
next
  case Set_test
  then obtain p e b where v: "view m i = (Some p, Some e, b)" and e: "live e b" "eb_key e = Some key" "eb_type e = Some ty" "eb_length e = Some sz"
    using assms(3) by (auto simp: entry_with_def)
  from e(1) show ?thesis using Set_test assms(1) deref_view [OF assms(2) v] e v
    by (auto simp: set_step_def live_def field_def entry_with_def intro!: advances_same)
next
  case Set_free
  then obtain p e b where v: "view m i = (Some p, Some e, b)" and e: "live e b" "eb_key e = Some key" "eb_type e = Some ty" "eb_length e = Some sz"
    using assms(3) by (auto simp: entry_with_def)
  show ?thesis
  proof (cases "eb_value e = Some None")
    case True
    then show ?thesis using Set_free assms(1) deref_view [OF assms(2) v] e v
      by (auto simp: set_step_def field_def free_block_def entry_with_def intro!: advances_same)
  next
    case False
    then obtain q y where q: "eb_value e = Some (Some q)" "b = Some y" using e(1) by (auto simp: live_def)
    then have vp: "value_pointer (Some e) = Some q" and v': "view m i = (Some p, Some e, Some y)" using v by simp_all
    have "advances (at_set key ty x sz) old i Set_free m (map_res (\<lambda>m. (Set_block, m)) (free_block (Some q) m))"
      by (rule advances_by [OF block_free [OF assms(1) v' vp]]) (use e in \<open>simp_all add: entry_with_def\<close>)
    then show ?thesis using Set_free deref_view [OF assms(2) v] q(1) by (simp add: set_step_def field_def)
  qed
next
  case Set_block
  then obtain p e b where v: "view m i = (Some p, Some e, b)" and e: "eb_key e = Some key" "eb_type e = Some ty" "eb_length e = Some sz"
    using assms(3) by (auto simp: entry_with_def)
  have "advances (at_set key ty x sz) old i Set_block m (map_res (\<lambda>m. (Set_copy, m)) (new_block i (size_of (stored x sz), c) m))" for c
    by (rule advances_by [OF entry_new_block [OF assms(1,2) v]]) (use e in \<open>simp_all add: entry_with_def\<close>)
  moreover have "size_of (stored x sz) = (if ty = CACHE_VALUE_STRING then unat sz else 8)" "ty \<in> {0, 1, 2}"
    using assms(4) by (cases x; simp add: size_of_def cache_types min_def)+
  ultimately show ?thesis using Set_block by (auto simp: set_step_def cache_types)
next
  case Set_copy
  then obtain p e q c where v: "view m i = (Some p, Some e, Some (size_of (stored x sz), c))"
    and e: "eb_key e = Some key" "eb_type e = Some ty" "eb_length e = Some sz" "eb_value e = Some (Some q)"
    using assms(3) by (auto simp: entry_with_def)
  have "e = full_entry (entry_of key ty x sz) q" using e by (simp add: full_entry_def entry_of_def)
  then have at: "at_set key ty x sz old (Returned (Truth True)) (Some p, Some e, Some (size_of (stored x sz), Some (stored x sz)))"
    by (auto simp: entry_of_def)
  have "advances (at_set key ty x sz) old i Set_copy m (map_res (\<lambda>m. (Returned (Truth True), m)) (write_block (Some q) (stored x sz) m))"
  proof (rule advances_by [OF block_write [OF assms(1) v]])
    show "at_set key ty x sz old (Returned (Truth True)) (Some p, Some e, Some (size_of (stored x sz), Some (stored x sz)))" by (rule at)
  qed (simp_all add: e)
  then show ?thesis using Set_copy deref_view [OF assms(2) v] store_value_ok [OF assms(4)] e(4)
    by (simp add: set_step_def field_def)
next
  case (Returned r)
  then show ?thesis using assms(1,3) by (simp add: set_step_def, intro advances_same) simp_all
qed (use assms(3) in simp_all)

lemma adjust_advances:
  assumes "separate m" and "i < length (m_table m)" and "at_adjust f x old pc (view m i)" and "may_run (AdjustOp f key x) old"
    and "\<And>cv. old = Some cv \<Longrightarrow> entry_ok cv"
  shows "advances (at_adjust f x) old i pc m (adjust_step f x i pc m)"
proof (cases "pc = Entered \<or> (\<exists>r. pc = Returned r)")
  case True
  then show ?thesis
  proof (elim disjE exE)
    assume pc: "pc = Entered"
    show ?thesis using pc assms(1,3) load_view [OF assms(2)]
      by (cases old) (auto simp: adjust_step_def intro!: advances_same)
  next
    fix r assume "pc = Returned r"
    then show ?thesis using assms(1,3) by (simp add: adjust_step_def, intro advances_same) simp_all
  qed
next
  case False
  then have "holds_entry old (view m i)" "old \<noteq> None" using assms(3) by (cases pc; auto)+
  then obtain cv p q where old: "old = Some cv"
    and v: "view m i = (Some p, Some (full_entry cv q), Some (size_of (cv_value cv), Some (cv_value cv)))" by auto
  have ok: "entry_ok cv" "cv_type cv = CACHE_VALUE_STRING \<or> (\<exists>v. adjusted f x (cv_type cv) (cv_value cv) = Inr v)"
    using assms(4,5) old by simp_all
  have e: "load_entry m p = Inr (full_entry cv q)" using deref_view [OF assms(2) v] by (simp add: load_entry_def)
  have b: "m_value m q = Some (size_of (cv_value cv), Some (cv_value cv))" using block_view [OF v] by (simp add: full_entry_def)
  have types: "cv_type cv = CACHE_VALUE_DECIMAL \<or> cv_type cv = CACHE_VALUE_REAL \<or> cv_type cv = CACHE_VALUE_STRING"
    using ok(1) by (cases "cv_value cv") (simp_all add: entry_ok_def)
  show ?thesis
  proof (cases pc)
    case (Adjust_string p')
    then show ?thesis using assms(1,3) v old e
      by (auto simp: adjust_step_def full_entry_def field_def intro!: advances_same)
  next
    case (Adjust_decimal p')
    then show ?thesis using assms(1,3) v old e types
      by (auto simp: adjust_step_def full_entry_def field_def cache_types intro!: advances_same)
  next
    case (Adjust_real p')
    then show ?thesis using assms(1,3) v old e
      by (auto simp: adjust_step_def full_entry_def field_def cache_types intro!: advances_same)
  next
    case (Adjust_pointer p' ty)
    then show ?thesis using assms(1,3) v old e
      by (auto simp: adjust_step_def full_entry_def field_def intro!: advances_same)
  next
    case (Adjust_load p' q' ty)
    then show ?thesis using assms(1,3) v old ok(2) b
      by (auto simp: adjust_step_def full_entry_def field_def read_block_def intro!: advances_same)
  next
    case (Adjust_store p' q' y)
    then have y: "adjusted f x (cv_type cv) (cv_value cv) = Inr y" "cv_type cv \<noteq> CACHE_VALUE_STRING" "p' = p" "q' = Some q"
      using assms(3) v old by (auto simp: full_entry_def)
    then have sizes: "size_of (cv_value cv) = 8" "size_of y = 8"
      using ok(1) types by (cases "cv_value cv"; auto simp: adjusted_def size_of_def map_res_Inr_iff entry_ok_def split: if_splits)+
    have vp: "value_pointer (Some (full_entry cv q)) = Some q" "full_entry (cv\<lparr>cv_value := y\<rparr>) q = full_entry cv q"
      by (simp_all add: full_entry_def)
    have "advances (at_adjust f x) old i pc m (map_res (\<lambda>m. (Returned (Pointer (Some p)), m)) (write_block (Some q) y m))"
    proof (rule advances_by [OF block_write [OF assms(1) v vp(1)]])
      show "at_adjust f x old (Returned (Pointer (Some p))) (Some p, Some (full_entry cv q), Some (size_of (cv_value cv), Some y))"
        using y old sizes vp(2) by (auto intro: exI [of _ q])
    qed (simp_all add: sizes)
    then show ?thesis using Adjust_store y by (simp add: adjust_step_def)
  qed (use False assms(3) in simp_all)
qed

lemma del_advances:
  assumes "separate m" and "i < length (m_table m)" and "at_del old pc (view m i)"
  shows "advances at_del old i pc m (del_step i pc m)"
proof (cases pc)
  case Entered
  then show ?thesis using assms(1,3) load_view [OF assms(2)]
    by (cases old) (auto simp: del_step_def intro!: advances_same)
next
  case (Del_value p)
  then obtain cv q where old: "old = Some cv"
    and v: "view m i = (Some p, Some (full_entry cv q), Some (size_of (cv_value cv), Some (cv_value cv)))"
    using assms(3) by (cases old) auto
  have vp: "value_pointer (Some (full_entry cv q)) = Some q" by (simp add: full_entry_def)
  have "advances at_del old i (Del_value p) m (map_res (\<lambda>m. (Del_entry p, m)) (free_block (Some q) m))"
    by (rule advances_by [OF block_free [OF assms(1) v vp]]) (simp_all add: old)
  moreover have "load_entry m p = Inr (full_entry cv q)" using deref_view [OF assms(2) v] by (simp add: load_entry_def)
  ultimately show ?thesis using Del_value by (simp add: del_step_def field_def full_entry_def)
next
  case (Del_entry p)
  then obtain e where c: "cell m i = Some p" "ent m i = Some e" "old \<noteq> None" using assms(3) by (auto simp: view_def)
  then have "load_entry m p = Inr e" by (simp add: ent_def load_entry_def)
  then show ?thesis using change_free_entry [OF assms(1) c(1)] Del_entry c(3) by (simp add: del_step_def advances_def)
next
  case Del_clear
  then show ?thesis using change_clear_cell [OF assms(1), of i] load_view [OF assms(2)] assms(3)
    by (simp add: del_step_def advances_def)
next
  case Del_count
  then show ?thesis using assms(1,3) by (simp add: del_step_def, intro advances_same) simp_all
next
  case (Del_count_store n)
  then show ?thesis using change_count [OF assms(1)] assms(3) by (auto simp: del_step_def advances_def)
next
  case (Returned r)
  then show ?thesis using assms(1,3) by (simp add: del_step_def, intro advances_same) simp_all
qed (use assms(3) in simp_all)

lemma get_advances:
  assumes "separate m" and "i < length (m_table m)" and "at_get old pc (view m i)"
  shows "advances at_get old i pc m (get_step i pc m)"
  using assms(1,3) load_view [OF assms(2)]
  by (cases pc) (auto simp: get_step_def intro!: advances_same)

lemma op_advances:
  assumes "separate m" and "i < length (m_table m)" and "at_op op old pc (view m i)" and "may_run op old"
    and "\<And>cv. old = Some cv \<Longrightarrow> entry_ok cv"
  shows "advances (at_op op) old i pc m (index_step op i pc m)"
proof (cases op)
  case (SetOp key ty x sz)
  then show ?thesis using set_advances [OF assms(1,2), of key ty x sz old pc] assms(3,4) by simp
next
  case (AdjustOp f key x)
  then show ?thesis using adjust_advances [OF assms(1,2), of f x old pc key] assms(3-5) by simp
next
  case (DelOp key)
  then show ?thesis using del_advances [OF assms(1,2), of old pc] assms(3) by simp
next
  case (GetOp key)
  then show ?thesis using get_advances [OF assms(1,2), of old pc] assms(3) by simp
qed

end
