(* ===== verification/Table_Threads.thy ===== *)
theory Table_Threads
  imports Table_Steps
begin

text \<open>
  Operations on the shared table: one that runs alone does what Hash_Table says, and operations
  on different buckets do not disturb each other under any schedule.
\<close>

section \<open>Memory and table\<close>

definition memory_ok :: "memory \<Rightarrow> bool" where
  "memory_ok m \<longleftrightarrow> separate m \<and> ht_inv (table_of m) \<and> (\<forall>b. holds_entry (entries (table_of m) b) (view m b))"

lemma entry_at_full:
  "m_entry m p = Some (full_entry cv q) \<Longrightarrow> m_value m q = Some (n, Some (cv_value cv)) \<Longrightarrow> entry_at m p = Some cv"
  by (simp add: entry_at_def full_entry_def)

lemma view_entry:
  assumes "holds_entry old (view m b)"
  shows "entries (table_of m) b = old" and "\<And>p. cell m b = Some p \<Longrightarrow> entry_at m p = old"
proof -
  have "entries (table_of m) b = (case cell m b of None \<Rightarrow> None | Some p \<Rightarrow> entry_at m p)"
    by (simp add: entries_def table_of_def cell_def)
  moreover have e: "entry_at m p = old" if "cell m b = Some p" for p
  proof (cases old)
    case (Some cv)
    then obtain p' q where v: "view m b = (Some p', Some (full_entry cv q), Some (size_of (cv_value cv), Some (cv_value cv)))"
      using assms by auto
    then have "m_entry m p = Some (full_entry cv q)" using that by (auto simp: view_def ent_def)
    moreover have "m_value m q = Some (size_of (cv_value cv), Some (cv_value cv))"
      using block_view [OF v] by (simp add: full_entry_def)
    ultimately show ?thesis using Some entry_at_full by simp
  qed (use assms that in \<open>simp add: view_def\<close>)
  ultimately show "entries (table_of m) b = old" using assms by (cases old) (auto simp: view_def split: option.splits)
  show "\<And>p. cell m b = Some p \<Longrightarrow> entry_at m p = old" by (rule e)
qed

abbreviation bucket_in :: "memory \<Rightarrow> operation \<Rightarrow> nat" where
  "bucket_in m op \<equiv> bucket (table_of m) (op_key op)"

lemma cell_index_ok:
  assumes "ht_inv (table_of m)" and "m_size m' = m_size m"
  shows "cell_index m' (op_key op) = Inr (bucket_in m op)"
proof -
  have "cell_index m' (op_key op) = cell_index m (op_key op)" by (simp only: cell_index_def assms(2))
  moreover have "hash_index (table_of m) (op_key op) = Inr (bucket_in m op)" by (rule hash_index_ok [OF assms(1)])
  ultimately show ?thesis by (auto simp: hash_index_def cell_index_def table_of_def Let_def bucket_def split: if_splits)
qed

lemma bucket_in_bound: "ht_inv (table_of m) \<Longrightarrow> bucket_in m op < length (m_table m)"
  using bucket_bound [of "table_of m"] by (simp add: table_of_def)

text \<open>The operations of Hash_Table, with their results: a truth value, or an entry or \<open>NULL\<close>.\<close>

fun atomic :: "operation \<Rightarrow> hash_table \<Rightarrow> (hash_table \<times> table_out) res" where
  "atomic (SetOp key ty v sz) t = map_res (\<lambda>(t, b). (t, Done b)) (hash_table_set t key ty v sz)"
| "atomic (AdjustOp f key x) t = map_res (\<lambda>(t, e). (t, Found e)) (hash_table_adjust f t key x)"
| "atomic (DelOp key) t = map_res (\<lambda>(t, b). (t, Done b)) (hash_table_del t key)"
| "atomic (GetOp key) t = map_res (\<lambda>e. (t, Found e)) (hash_table_get t key)"

lemma atomic_exec:
  "ht_exec t (OpSet key ty v sz) = atomic (SetOp key ty v sz) t" "ht_exec t (OpGet key) = atomic (GetOp key) t"
  "ht_exec t (OpInc key x) = atomic (AdjustOp (+) key x) t" "ht_exec t (OpDec key x) = atomic (AdjustOp (-) key x) t"
  "ht_exec t (OpDel key) = atomic (DelOp key) t"
  by (simp_all add: hash_table_inc_def hash_table_dec_def)

text \<open>What is returned, with the entry at the address.\<close>

fun reply_of :: "memory \<Rightarrow> returned \<Rightarrow> table_out" where
  "reply_of m (Truth b) = Done b"
| "reply_of m (Pointer p) = Found (case p of None \<Rightarrow> None | Some p \<Rightarrow> entry_at m p)"

fun reply_to :: "operation \<Rightarrow> cache_value option \<Rightarrow> table_out" where
  "reply_to (SetOp _ _ _ _) old = Done True"
| "reply_to (AdjustOp f key x) old =
     Found (case old of None \<Rightarrow> None | Some cv \<Rightarrow> if cv_type cv = CACHE_VALUE_STRING then None else final (AdjustOp f key x) old)"
| "reply_to (DelOp _) old = Done (old \<noteq> None)"
| "reply_to (GetOp _) old = Found old"

lemma returned_reply:
  assumes "at_op op old (Returned r) (view m b)"
  shows "holds_entry (final op old) (view m b)" and "reply_of m r = reply_to op old"
proof -
  show h: "holds_entry (final op old) (view m b)" using assms by (cases op) auto
  have c: "entry_at m p = final op old" if "fst (view m b) = Some p" for p
    using view_entry(2) [OF h] that by (simp add: view_def)
  have n: "fst (view m b) = None \<longleftrightarrow> final op old = None" by (rule holds_view(1) [OF h])
  show "reply_of m r = reply_to op old"
  proof (cases op)
    case (AdjustOp f key x)
    with assms c n show ?thesis
      by (cases old; cases "fst (view m b)") (auto split: if_splits)
  next
    case (GetOp key)
    with assms c n show ?thesis by (cases "fst (view m b)") auto
  qed (use assms in auto)
qed

definition count_after :: "operation \<Rightarrow> cache_value option \<Rightarrow> size_t \<Rightarrow> size_t" where
  "count_after op old n =
     (case op of SetOp _ _ _ _ \<Rightarrow> if old = None then n + 1 else n | DelOp _ \<Rightarrow> if old = None then n else n - 1 | _ \<Rightarrow> n)"

lemma adjust_value_adjusted:
  assumes "entry_ok cv" and "cv_type cv \<noteq> CACHE_VALUE_STRING"
  shows "adjust_value f cv x = map_res (\<lambda>v. Some (cv\<lparr>cv_value := v\<rparr>)) (adjusted f x (cv_type cv) (cv_value cv))"
  using assms by (cases "cv_value cv") (auto simp: adjust_value_def adjusted_def entry_ok_def cache_types map_res_def bind_res_def split: sum.split)

lemma atomic_final:
  assumes "ht_inv t" and "may_run op (entries t (bucket t (op_key op)))"
  shows "\<exists>t'. atomic op t = Inr (t', reply_to op (entries t (bucket t (op_key op)))) \<and> ht_inv t' \<and>
    entries t' = (entries t)(bucket t (op_key op) := final op (entries t (bucket t (op_key op)))) \<and>
    ht_size t' = ht_size t \<and> ht_count t' = count_after op (entries t (bucket t (op_key op))) (ht_count t)"
proof (cases op)
  case (SetOp key ty v sz)
  then have s: "storable ty v sz" using assms(2) by simp
  obtain t' where "hash_table_set t key ty v sz = Inr (t', True)" "ht_inv t'"
    "entries t' = (entries t)(bucket t key \<mapsto> entry_of key ty v sz)"
    using hash_table_set_ok [OF assms(1) s] by metis
  moreover from this(1) assms(1) s have "ht_size t' = ht_size t \<and> ht_count t' = count_after op (entries t (bucket t key)) (ht_count t)"
    using bucket_bound [OF assms(1), of key] SetOp
    by (auto simp: hash_table_set_def hash_index_ok count_after_def entries_def bind_res_def map_res_def split: option.splits sum.splits)
  ultimately show ?thesis using SetOp by simp
next
  case (AdjustOp f key x)
  show ?thesis
  proof (cases "entries t (bucket t key)")
    case None
    then show ?thesis using AdjustOp assms(1) hash_table_adjust_eq [OF assms(1), of f key x]
      by (auto simp: count_after_def fun_upd_idem)
  next
    case (Some cv)
    have ok: "entry_ok cv" by (rule ht_entry_ok [OF assms(1) Some])
    show ?thesis
    proof (cases "cv_type cv = CACHE_VALUE_STRING")
      case True
      then have "adjust_value f cv x = Inr None" by (simp add: adjust_value_def)
      with True show ?thesis using AdjustOp Some assms(1) hash_table_adjust_eq [OF assms(1), of f key x]
        by (auto simp: count_after_def fun_upd_idem)
    next
      case False
      then obtain v where v: "adjusted f x (cv_type cv) (cv_value cv) = Inr v" using AdjustOp Some assms(2) by auto
      then have a: "adjust_value f cv x = Inr (Some (cv\<lparr>cv_value := v\<rparr>))" using adjust_value_adjusted [OF ok False] by simp
      from adjust_value_ok [OF ok a] have ok': "entry_ok (cv\<lparr>cv_value := v\<rparr>)" .
      show ?thesis using AdjustOp Some v a False hash_table_adjust_eq [OF assms(1), of f key x] ht_adjust_state [OF assms(1) Some ok']
        by (simp add: count_after_def)
    qed
  qed
next
  case (DelOp key)
  obtain t' where "hash_table_del t key = Inr (t', entries t (bucket t key) \<noteq> None)" "ht_inv t'"
    "entries t' = (entries t)(bucket t key := None)"
    using hash_table_del_ok [OF assms(1)] by metis
  moreover from this(1) assms(1) have "ht_size t' = ht_size t \<and> ht_count t' = count_after op (entries t (bucket t key)) (ht_count t)"
    using bucket_bound [OF assms(1), of key] DelOp
    by (auto simp: hash_table_del_def hash_index_ok count_after_def entries_def bind_res_def map_res_def split: option.splits sum.splits)
  ultimately show ?thesis using DelOp by simp
next
  case (GetOp key)
  then show ?thesis using assms(1) hash_table_get_eq [OF assms(1), of key] by (simp add: count_after_def)
qed

section \<open>Threads in different buckets\<close>

definition apart :: "memory \<Rightarrow> operation list \<Rightarrow> bool" where
  "apart m ops \<longleftrightarrow> memory_ok m \<and> distinct (map (bucket_in m) ops) \<and>
     (\<forall>op \<in> set ops. may_run op (entries (table_of m) (bucket_in m op)))"

text \<open>Every thread is at a point of its operation, and \<open>n i\<close> counts the steps of thread \<open>i\<close>.\<close>

definition under_way :: "memory \<Rightarrow> operation list \<Rightarrow> (nat \<Rightarrow> nat) \<Rightarrow> threads \<times> memory \<Rightarrow> bool" where
  "under_way m0 ops n s \<longleftrightarrow>
     (case s of (ts, m) \<Rightarrow>
        length ts = length ops \<and> separate m \<and> length (m_table m) = length (m_table m0) \<and> m_size m = m_size m0 \<and>
        (\<forall>i < length ops. fst (ts ! i) = ops ! i \<and> steps_left (snd (ts ! i)) \<le> 12 - n i \<and>
          at_op (ops ! i) (entries (table_of m0) (bucket_in m0 (ops ! i))) (snd (ts ! i)) (view m (bucket_in m0 (ops ! i)))) \<and>
        (\<forall>b. b \<notin> bucket_in m0 ` set ops \<longrightarrow> view m b = view m0 b))"

lemma under_way_start:
  assumes "apart m ops"
  shows "under_way m ops (\<lambda>_. 0) (start ops, m)"
proof -
  have "at_op (ops ! i) (entries (table_of m) (bucket_in m (ops ! i))) Entered (view m (bucket_in m (ops ! i)))" for i
    using assms by (cases "ops ! i") (auto simp: apart_def memory_ok_def)
  with assms show ?thesis by (simp add: under_way_def start_def apart_def memory_ok_def)
qed

lemma under_way_step:
  assumes "apart m0 ops" and "under_way m0 ops n s"
  shows "\<exists>s'. thread_step k s = Inr s' \<and> under_way m0 ops (n(k := n k + 1)) s'"
proof -
  obtain ts m where s: "s = (ts, m)" by (cases s)
  have u: "length ts = length ops" "separate m" "length (m_table m) = length (m_table m0)" "m_size m = m_size m0"
    "\<And>i. i < length ops \<Longrightarrow> fst (ts ! i) = ops ! i \<and> steps_left (snd (ts ! i)) \<le> 12 - n i \<and>
      at_op (ops ! i) (entries (table_of m0) (bucket_in m0 (ops ! i))) (snd (ts ! i)) (view m (bucket_in m0 (ops ! i)))"
    "\<And>b. b \<notin> bucket_in m0 ` set ops \<Longrightarrow> view m b = view m0 b"
    using assms(2) unfolding under_way_def s by auto
  show ?thesis
  proof (cases "k < length ops")
    case False
    then have "thread_step k s = Inr s" using u(1) by (simp add: thread_step_def s)
    moreover have "under_way m0 ops (n(k := n k + 1)) s" using assms(2) False by (auto simp: under_way_def s)
    ultimately show ?thesis by blast
  next
    case True
    let ?op = "ops ! k" and ?b = "bucket_in m0 (ops ! k)"
    have ok: "ht_inv (table_of m0)" using assms(1) by (simp add: apart_def memory_ok_def)
    have b: "?b < length (m_table m)" using bucket_in_bound [OF ok] u(3) by simp
    have "may_run ?op (entries (table_of m0) ?b)" using assms(1) True by (simp add: apart_def)
    then have "advances (at_op ?op) (entries (table_of m0) ?b) ?b (snd (ts ! k)) m (index_step ?op ?b (snd (ts ! k)) m)"
      using op_advances [OF u(2) b] u(5) [OF True] ht_entry_ok [OF ok] by blast
    then obtain pc' m' where step: "index_step ?op ?b (snd (ts ! k)) m = Inr (pc', m')" "keeps_others ?b m m'"
      "at_op ?op (entries (table_of m0) ?b) pc' (view m' ?b)" "steps_left pc' \<le> steps_left (snd (ts ! k)) - 1"
      unfolding advances_def by blast
    have "thread_step k s = Inr (ts[k := (?op, pc')], m')"
      using True u(1) u(5) [OF True] step(1) cell_index_ok [OF ok u(4), of ?op] by (simp add: thread_step_def s op_step_def)
    moreover have "under_way m0 ops (n(k := n k + 1)) (ts[k := (?op, pc')], m')"
    proof -
      have keep: "separate m'" "length (m_table m') = length (m_table m)" "m_size m' = m_size m"
        "\<And>b. b \<noteq> ?b \<Longrightarrow> view m' b = view m b" using step(2) by (simp_all add: keeps_others_def)
      have other: "bucket_in m0 (ops ! i) \<noteq> ?b" if "i < length ops" "i \<noteq> k" for i
        using assms(1) that True by (simp add: apart_def distinct_conv_nth)
      have "fst (ts[k := (?op, pc')] ! i) = ops ! i \<and> steps_left (snd (ts[k := (?op, pc')] ! i)) \<le> 12 - (n(k := n k + 1)) i \<and>
          at_op (ops ! i) (entries (table_of m0) (bucket_in m0 (ops ! i))) (snd (ts[k := (?op, pc')] ! i)) (view m' (bucket_in m0 (ops ! i)))"
        if "i < length ops" for i
        using u(1) u(5) [OF that] u(5) [OF True] step(3,4) keep(4) other [OF that] that by (cases "i = k") auto
      moreover have "view m' b = view m0 b" if "b \<notin> bucket_in m0 ` set ops" for b
        using keep(4) u(6) that True by (metis image_eqI nth_mem)
      ultimately show ?thesis using keep(1-3) u(1,3,4) by (simp add: under_way_def)
    qed
    ultimately show ?thesis by blast
  qed
qed

lemma under_way_schedule:
  assumes "apart m0 ops"
  shows "under_way m0 ops n s \<Longrightarrow> \<exists>s'. schedule is s = Inr s' \<and> under_way m0 ops (\<lambda>i. n i + count_list is i) s'"
proof (induction "is" arbitrary: n s)
  case (Cons k "is")
  obtain s1 where s1: "thread_step k s = Inr s1" "under_way m0 ops (n(k := n k + 1)) s1"
    using under_way_step [OF assms Cons.prems] by blast
  have "(\<lambda>i. (n(k := n k + 1)) i + count_list is i) = (\<lambda>i. n i + count_list (k # is) i)" by (auto simp: fun_eq_iff)
  with Cons.IH [OF s1(2)] s1(1) show ?case by simp
qed simp

lemma steps_left_0: "steps_left pc = 0 \<Longrightarrow> \<exists>r. pc = Returned r"
  by (cases pc) simp_all

lemma under_way_done:
  assumes "apart m0 ops" and "under_way m0 ops n (ts, m)" and "i < length ops" and "12 \<le> n i"
  shows "\<exists>r t. snd (ts ! i) = Returned r \<and> atomic (ops ! i) (table_of m0) = Inr (t, reply_of m r) \<and>
    entries (table_of m) (bucket_in m0 (ops ! i)) = entries t (bucket_in m0 (ops ! i)) \<and>
    holds_entry (entries t (bucket_in m0 (ops ! i))) (view m (bucket_in m0 (ops ! i)))"
proof -
  let ?b = "bucket_in m0 (ops ! i)"
  let ?old = "entries (table_of m0) ?b"
  have u: "steps_left (snd (ts ! i)) \<le> 12 - n i" "at_op (ops ! i) ?old (snd (ts ! i)) (view m ?b)"
    using assms(2,3) unfolding under_way_def by simp_all
  then obtain r where r: "snd (ts ! i) = Returned r" using assms(4) steps_left_0 by (metis diff_is_0_eq le_zero_eq)
  note ret = returned_reply [OF u(2) [unfolded r]]
  have "ht_inv (table_of m0)" "may_run (ops ! i) ?old" using assms(1,3) by (simp_all add: apart_def memory_ok_def)
  from atomic_final [OF this] obtain t where "atomic (ops ! i) (table_of m0) = Inr (t, reply_to (ops ! i) ?old)"
    "entries t = (entries (table_of m0))(?b := final (ops ! i) ?old)" by blast
  with r ret view_entry(1) [OF ret(1)] show ?thesis by auto
qed

section \<open>An operation alone\<close>

text \<open>The count at each point of an operation that runs alone.\<close>

definition count_at :: "operation \<Rightarrow> cache_value option \<Rightarrow> size_t \<Rightarrow> pc \<Rightarrow> size_t \<Rightarrow> bool" where
  "count_at op old n0 pc n \<longleftrightarrow>
     (case pc of
        Set_count_store k \<Rightarrow> k = n0 \<and> n = n0
      | Del_count_store k \<Rightarrow> k = n0 \<and> n = n0
      | Set_key \<Rightarrow> n = count_after op old n0
      | Set_type \<Rightarrow> n = count_after op old n0
      | Set_length \<Rightarrow> n = count_after op old n0
      | Set_test \<Rightarrow> n = count_after op old n0
      | Set_free \<Rightarrow> n = count_after op old n0
      | Set_block \<Rightarrow> n = count_after op old n0
      | Set_copy \<Rightarrow> n = count_after op old n0
      | Returned r \<Rightarrow> n = count_after op old n0
      | _ \<Rightarrow> n = n0)"

lemma same_count:
  "update_cell i f m = Inr m' \<Longrightarrow> m_count m' = m_count m"
  "new_block i b m = Inr m' \<Longrightarrow> m_count m' = m_count m"
  "write_block v x m = Inr m' \<Longrightarrow> m_count m' = m_count m"
  "free_block v m = Inr m' \<Longrightarrow> m_count m' = m_count m"
proof -
  show u: "update_cell i f m = Inr m' \<Longrightarrow> m_count m' = m_count m" for i f m m'
    by (auto simp: update_cell_def map_res_Inr_iff)
  show "new_block i b m = Inr m' \<Longrightarrow> m_count m' = m_count m" unfolding new_block_def by (drule u) simp
  show "write_block v x m = Inr m' \<Longrightarrow> m_count m' = m_count m" by (auto simp: write_block_def split: option.splits if_splits)
  show "free_block v m = Inr m' \<Longrightarrow> m_count m' = m_count m" by (auto simp: free_block_def split: option.splits if_splits)
qed

lemma count_step:
  assumes "index_step op i pc m = Inr (pc', m')" and "at_op op old pc (view m i)" and "i < length (m_table m)"
    and "count_at op old n0 pc (m_count m)"
  shows "count_at op old n0 pc' (m_count m')"
proof (cases op)
  case (SetOp key ty x sz)
  then show ?thesis using assms load_view [OF assms(3)]
    by (cases pc; cases old)
      (auto simp: set_step_def count_at_def count_after_def map_res_Inr_iff bind_res_Inr_iff same_count entry_with_def split: if_splits)
next
  case (AdjustOp f key x)
  then show ?thesis using assms
    by (cases pc)
      (auto simp: adjust_step_def count_at_def count_after_def map_res_Inr_iff bind_res_Inr_iff same_count split: if_splits option.splits)
next
  case (DelOp key)
  then show ?thesis using assms load_view [OF assms(3)]
    by (cases pc; cases old)
      (auto simp: del_step_def count_at_def count_after_def map_res_Inr_iff bind_res_Inr_iff same_count split: if_splits option.splits)
next
  case (GetOp key)
  then show ?thesis using assms
    by (cases pc) (auto simp: get_step_def count_at_def count_after_def map_res_Inr_iff split: if_splits)
qed

lemma alone_count:
  assumes "apart m0 [op]"
  shows "under_way m0 [op] n (ts, m) \<Longrightarrow> count_at op (entries (table_of m0) (bucket_in m0 op)) (m_count m0) (snd (ts ! 0)) (m_count m) \<Longrightarrow>
    schedule (replicate k 0) (ts, m) = Inr (ts', m') \<Longrightarrow>
    count_at op (entries (table_of m0) (bucket_in m0 op)) (m_count m0) (snd (ts' ! 0)) (m_count m')"
proof (induction k arbitrary: n ts m)
  case (Suc k)
  obtain ts1 m1 where s1: "thread_step 0 (ts, m) = Inr (ts1, m1)" "under_way m0 [op] (n(0 := n 0 + 1)) (ts1, m1)"
    using under_way_step [OF assms Suc.prems(1), of 0] by auto
  have ok: "ht_inv (table_of m0)" using assms by (simp add: apart_def memory_ok_def)
  have u: "length ts = 1" "length (m_table m) = length (m_table m0)" "m_size m = m_size m0" "fst (ts ! 0) = op"
    "at_op op (entries (table_of m0) (bucket_in m0 op)) (snd (ts ! 0)) (view m (bucket_in m0 op))"
    using Suc.prems(1) by (simp_all add: under_way_def)
  have "bucket_in m0 op < length (m_table m)" using bucket_in_bound [OF ok] u(2) by simp
  moreover have "ts \<noteq> []" using u(1) by auto
  then obtain pc where "index_step op (bucket_in m0 op) (snd (ts ! 0)) m = Inr (pc, m1)" "ts1 = ts[0 := (op, pc)]"
    using s1(1) u(1,4) cell_index_ok [OF ok u(3), of op] by (auto simp: thread_step_def op_step_def map_res_Inr_iff)
  ultimately have "count_at op (entries (table_of m0) (bucket_in m0 op)) (m_count m0) (snd (ts1 ! 0)) (m_count m1)"
    using count_step [OF _ u(5) _ Suc.prems(2)] u(1) by simp
  moreover have "schedule (replicate k 0) (ts1, m1) = Inr (ts', m')" using Suc.prems(3) s1(1) by simp
  ultimately show ?case using Suc.IH [OF s1(2)] by blast
qed simp

lemma hash_table_eqI:
  assumes "ht_size s = ht_size t" and "ht_count s = ht_count t" and "entries s = entries t" and "length (ht_table s) = length (ht_table t)"
  shows "s = t"
proof -
  have "ht_table s ! b = ht_table t ! b" if "b < length (ht_table s)" for b
    using fun_cong [OF assms(3), of b] assms(4) that by (simp add: entries_def)
  then have "ht_table s = ht_table t" using assms(4) by (intro nth_equalityI)
  with assms(1,2) show ?thesis by simp
qed

section \<open>Memories with one entry\<close>

text \<open>A table of ten buckets that holds a decimal under a key.\<close>

definition counter_memory :: "string \<Rightarrow> int64 \<Rightarrow> memory" where
  "counter_memory key d =
     \<lparr>m_table = (replicate 10 None)[unat (fnv1a key mod 10) := Some 0], m_count = 1, m_size = 10,
      m_entry = [0 \<mapsto> full_entry \<lparr>cv_key = key, cv_type = 0, cv_value = VDecimal d, cv_length = 0\<rparr> 0],
      m_value = [0 \<mapsto> (8, Some (VDecimal d))], m_next = 1\<rparr>"

lemma empty_memory_ok:
  assumes "0 < sz" and "unat sz < 2 ^ 63"
  shows "memory_ok (empty_memory sz)"
proof -
  have c: "cell (empty_memory sz) b = None" "ent (empty_memory sz) b = None" "blk (empty_memory sz) b = None" for b
    by (simp_all add: cell_def ent_def blk_def empty_memory_def)
  have "table_of (empty_memory sz) = hash_table_create sz" by (simp add: table_of_def empty_memory_def hash_table_create_def)
  with c assms show ?thesis
    by (simp add: memory_ok_def separate_def view_def ht_inv_def hash_table_create_def entries_def)
qed

lemma counter_memory_ok:
  fixes key :: string and d :: int64
  defines "cv \<equiv> \<lparr>cv_key = key, cv_type = 0, cv_value = VDecimal d, cv_length = 0\<rparr>"
  shows "memory_ok (counter_memory key d)" and "bucket (table_of (counter_memory key d)) = (\<lambda>k. unat (fnv1a k mod 10))"
    and "entries (table_of (counter_memory key d)) (unat (fnv1a key mod 10)) = Some cv"
proof -
  let ?m = "counter_memory key d" and ?i = "unat (fnv1a key mod 10)"
  have i: "?i < 10" using word_mod_less_divisor [of 10 "fnv1a key"] by (simp add: word_less_nat_alt)
  have c: "cell ?m b = (if b = ?i then Some 0 else None)" for b using i by (auto simp: cell_def counter_memory_def nth_list_update)
  have e: "ent ?m b = (if b = ?i then Some (full_entry cv 0) else None)" for b
    by (simp add: ent_def c) (simp add: counter_memory_def cv_def)
  have b: "blk ?m b = (if b = ?i then Some (8, Some (VDecimal d)) else None)" for b
    by (simp add: blk_def e full_entry_def) (simp add: counter_memory_def)
  have v: "holds_entry (if b = ?i then Some cv else None) (view ?m b)" for b
    by (simp add: view_def c e b) (auto simp: cv_def size_of_def)
  then have en: "entries (table_of ?m) b = (if b = ?i then Some cv else None)" for b using view_entry(1) by blast
  have "entry_at ?m 0 = Some cv" using view_entry(2) [OF v [of ?i]] c by simp
  then have t: "table_of ?m = \<lparr>ht_table = (replicate 10 None)[?i := Some cv], ht_count = 1, ht_size = 10\<rparr>"
    by (simp add: table_of_def map_update) (simp add: counter_memory_def map_update)
  have n: "length (filter (\<lambda>c. c \<noteq> None) ((replicate 10 None)[?i := Some cv])) = 1"
    using length_filter_update [of ?i "replicate 10 None" "\<lambda>c. c \<noteq> None" "Some cv"] i by simp
  have "entry_ok x" if "Some x \<in> set ((replicate 10 None)[?i := Some cv])" for x
  proof -
    have "Some x \<in> insert (Some cv) (set (replicate 10 None))" using that set_update_subset_insert by (rule subsetD [rotated])
    then show ?thesis by (auto simp: entry_ok_def cv_def cache_types)
  qed
  then have "ht_inv (table_of ?m)" unfolding t ht_inv_def using n by simp
  moreover have "separate ?m" by (auto simp: separate_def c e full_entry_def split: if_splits) (simp_all add: counter_memory_def)
  ultimately show "memory_ok ?m" using v en by (simp add: memory_ok_def)
  show "bucket (table_of ?m) = (\<lambda>k. unat (fnv1a k mod 10))" by (simp add: bucket_def fun_eq_iff t)
  show "entries (table_of ?m) ?i = Some cv" using en by simp
qed

text \<open>
  The count can be one less than the number of entries: two threads add an entry each, and one
  of them reads the count before the other has written it.
\<close>

lemma index_ab:
  assumes "m_size m = 10"
  shows "cell_index m ''a'' = Inr 6" "cell_index m ''b'' = Inr 9"
proof -
  have h: "fnv1a ''a'' mod 10 = 6" "fnv1a ''b'' mod 10 = 9" by code_simp+
  show "cell_index m ''a'' = Inr 6" "cell_index m ''b'' = Inr 9" by (simp_all add: cell_index_def assms h)
qed

lemma count_loses_update:
  "\<exists>ts m. schedule [0, 0, 0, 0, 1, 1, 1, 1, 1, 1, 1, 1, 1, 1, 1, 0, 0, 0, 0, 0, 0, 0]
      (start [SetOp ''a'' 0 (VDecimal 5) 0, SetOp ''b'' 0 (VDecimal 6) 0], empty_memory 10) = Inr (ts, m) \<and>
    map snd ts = [Returned (Truth True), Returned (Truth True)] \<and> m_count m = 1 \<and>
    m_table m ! 9 \<noteq> None \<and> m_table m ! 6 \<noteq> None"
  by (simp add: start_def empty_memory_def thread_step_def op_step_def index_ab set_step_def load_cell_def deref_cell_def
      load_entry_def update_cell_def field_def new_block_def write_block_def store_value_def blank_entry_def cache_types size_of_def)

section \<open>Properties\<close>

text \<open>
  C9. The statements of an operation, when no other thread comes between them, do what
  Hash_Table says: after twelve steps at most the operation has returned, without undefined
  behaviour, the table in memory is the table that the operation of Hash_Table computes, its
  count included, the result is the same, and the memory is well formed again.
\<close>

theorem operation_alone:
  assumes "memory_ok m" and "may_run op (entries (table_of m) (bucket_in m op))"
  shows "\<exists>r m'. schedule (replicate 12 0) (start [op], m) = Inr ([(op, Returned r)], m') \<and>
    atomic op (table_of m) = Inr (table_of m', reply_of m' r) \<and> memory_ok m'"
proof -
  let ?b = "bucket_in m op"
  have ap: "apart m [op]" using assms by (simp add: apart_def)
  have ht: "ht_inv (table_of m)" using assms(1) by (simp add: memory_ok_def)
  obtain ts m' where s: "schedule (replicate 12 0) (start [op], m) = Inr (ts, m')"
    "under_way m [op] (\<lambda>i. 0 + count_list (replicate 12 0) i) (ts, m')"
    using under_way_schedule [OF ap under_way_start [OF ap], of "replicate 12 0"] by auto
  have u: "length ts = 1" "fst (ts ! 0) = op" "separate m'" "length (m_table m') = length (m_table m)" "m_size m' = m_size m"
    "\<And>b. b \<noteq> ?b \<Longrightarrow> view m' b = view m b" using s(2) by (auto simp: under_way_def)
  have "(12 :: nat) \<le> 0 + count_list (replicate 12 0) (0 :: nat)" by (simp add: eval_nat_numeral)
  from under_way_done [OF ap s(2) _ this] obtain r t where r: "snd (ts ! 0) = Returned r"
    "atomic op (table_of m) = Inr (t, reply_of m' r)" "entries (table_of m') ?b = entries t ?b" "holds_entry (entries t ?b) (view m' ?b)"
    by auto
  obtain t' where t': "atomic op (table_of m) = Inr (t', reply_to op (entries (table_of m) ?b))" "ht_inv t'"
    "entries t' = (entries (table_of m))(?b := final op (entries (table_of m) ?b))" "ht_size t' = m_size m"
    "ht_count t' = count_after op (entries (table_of m) ?b) (m_count m)"
    using atomic_final [OF ht assms(2)] by (auto simp: table_of_def)
  then have t: "t' = t" using r(2) by simp
  have holds: "holds_entry (entries t b) (view m' b)" for b
    using r(4) t'(3) u(6) [of b] assms(1) unfolding t by (cases "b = ?b") (simp_all add: memory_ok_def)
  have "entries (table_of m') = entries t" using view_entry(1) [OF holds] by (simp add: fun_eq_iff)
  moreover have "count_at op (entries (table_of m) ?b) (m_count m) (snd (ts ! 0)) (m_count m')"
    using alone_count [OF ap under_way_start [OF ap] _ s(1)] by (simp add: start_def count_at_def)
  then have "m_count m' = ht_count t" using r(1) t'(5) t by (simp add: count_at_def)
  moreover have "length (ht_table t) = length (m_table m)"
    using ht_invD(2) [OF t'(2)] ht_invD(2) [OF ht] t'(4) unfolding t by (simp add: table_of_def)
  ultimately have "table_of m' = t" using u(4,5) t'(4) unfolding t by (intro hash_table_eqI) (simp_all add: table_of_def)
  moreover from this have "memory_ok m'" using u(3) t'(2) holds unfolding t by (simp add: memory_ok_def)
  moreover have "ts = [(op, Returned r)]" using u(1,2) r(1) by (cases ts) (auto simp: prod_eq_iff)
  ultimately show ?thesis using s(1) r(2) by auto
qed

theorem operation_alone_witness:
  "\<exists>r m'. schedule (replicate 12 0) (start [SetOp ''a'' 2 (VString ''hi'') 2], empty_memory 10) =
      Inr ([(SetOp ''a'' 2 (VString ''hi'') 2, Returned r)], m') \<and>
    hash_table_set (table_of (empty_memory 10)) ''a'' 2 (VString ''hi'') 2 = Inr (table_of m', True)"
proof -
  have m: "memory_ok (empty_memory 10)" by (rule empty_memory_ok) simp_all
  let ?op = "SetOp ''a'' 2 (VString ''hi'') 2"
  have "may_run ?op old" for old by (simp add: CACHE_VALUE_STRING_def)
  from operation_alone [OF m this] obtain r m' where
    "schedule (replicate 12 0) (start [?op], empty_memory 10) = Inr ([(?op, Returned r)], m')"
    "atomic ?op (table_of (empty_memory 10)) = Inr (table_of m', reply_of m' r)" by blast
  moreover obtain b where "hash_table_set (table_of (empty_memory 10)) ''a'' 2 (VString ''hi'') 2 = Inr (table_of m', b)"
    using calculation(2) by (auto simp: map_res_Inr_iff)
  moreover from this have b by (auto simp: hash_table_set_def Let_def map_res_Inr_iff bind_res_Inr_iff split: option.splits)
  ultimately show ?thesis by (intro exI [of _ r] exI [of _ m']) simp
qed

text \<open>
  C8. Operations of any number of threads whose keys lie in different buckets do not disturb
  each other: under every schedule there is no undefined behaviour, an operation that has made
  twelve steps has returned, with the result it has alone, and has left in its bucket what it
  leaves there alone, and every other bucket is as it was. Only the count is not covered: its
  updates can be lost.
\<close>

theorem separate_buckets:
  assumes "apart m ops"
  shows "\<exists>ts m'. schedule is (start ops, m) = Inr (ts, m') \<and>
    (\<forall>i < length ops. 12 \<le> count_list is i \<longrightarrow>
      (\<exists>r t. snd (ts ! i) = Returned r \<and> atomic (ops ! i) (table_of m) = Inr (t, reply_of m' r) \<and>
        entries (table_of m') (bucket_in m (ops ! i)) = entries t (bucket_in m (ops ! i)))) \<and>
    (\<forall>b. b \<notin> bucket_in m ` set ops \<longrightarrow> entries (table_of m') b = entries (table_of m) b)"
proof -
  obtain ts m' where s: "schedule is (start ops, m) = Inr (ts, m')" "under_way m ops (\<lambda>i. 0 + count_list is i) (ts, m')"
    using under_way_schedule [OF assms under_way_start [OF assms], of "is"] by auto
  have "entries (table_of m') b = entries (table_of m) b" if "b \<notin> bucket_in m ` set ops" for b
  proof -
    have "view m' b = view m b" using s(2) that by (simp add: under_way_def)
    moreover have "holds_entry (entries (table_of m) b) (view m b)" using assms by (simp add: apart_def memory_ok_def)
    ultimately show ?thesis using view_entry(1) by metis
  qed
  moreover have "\<exists>r t. snd (ts ! i) = Returned r \<and> atomic (ops ! i) (table_of m) = Inr (t, reply_of m' r) \<and>
      entries (table_of m') (bucket_in m (ops ! i)) = entries t (bucket_in m (ops ! i))"
    if "i < length ops" "12 \<le> count_list is i" for i
    using under_way_done [OF assms s(2) that(1)] that(2) by auto
  ultimately show ?thesis using s(1) by blast
qed

theorem separate_buckets_witness:
  "\<exists>ts m'. schedule (concat (replicate 12 [1, 0])) (start [SetOp ''a'' 0 (VDecimal 5) 0, DelOp ''b''], counter_memory ''b'' 7) = Inr (ts, m') \<and>
    entries (table_of m') (unat (fnv1a ''b'' mod 10)) = None \<and>
    entries (table_of m') (unat (fnv1a ''a'' mod 10)) = Some \<lparr>cv_key = ''a'', cv_type = 0, cv_value = VDecimal 5, cv_length = 0\<rparr>"
proof -
  let ?m = "counter_memory ''b'' 7" and ?a = "unat (fnv1a ''a'' mod 10)" and ?b = "unat (fnv1a ''b'' mod 10)"
  let ?ops = "[SetOp ''a'' 0 (VDecimal 5) 0, DelOp ''b'']"
  note m = counter_memory_ok [of "''b''" 7]
  have ne: "?a \<noteq> ?b" by code_simp
  have ht: "ht_inv (table_of ?m)" using m(1) by (simp add: memory_ok_def)
  have "apart ?m ?ops" using m(1) ne by (simp add: apart_def m(2) CACHE_VALUE_DECIMAL_def)
  moreover have "count_list (concat (replicate 12 [1, 0])) i = 12" if "i < 2" for i :: nat
    using that by (auto simp: eval_nat_numeral less_Suc_eq)
  ultimately obtain ts m' where s: "schedule (concat (replicate 12 [1, 0])) (start ?ops, ?m) = Inr (ts, m')"
    "\<And>i. i < length ?ops \<Longrightarrow> \<exists>r t. atomic (?ops ! i) (table_of ?m) = Inr (t, reply_of m' r) \<and>
      entries (table_of m') (bucket_in ?m (?ops ! i)) = entries t (bucket_in ?m (?ops ! i))"
    using separate_buckets [of ?m ?ops "concat (replicate 12 [1, 0])"] by (fastforce simp: numeral_2_eq_2)
  obtain r t where "atomic (?ops ! 0) (table_of ?m) = Inr (t, reply_of m' r)" "entries (table_of m') ?a = entries t ?a"
    using s(2) [of 0] m(2) by auto
  moreover obtain t0 where "atomic (?ops ! 0) (table_of ?m) = Inr (t0, Done True)"
    "entries t0 = (entries (table_of ?m))(?a \<mapsto> entry_of ''a'' 0 (VDecimal 5) 0)"
    using atomic_final [OF ht, of "SetOp ''a'' 0 (VDecimal 5) 0"] m(2) by (auto simp: CACHE_VALUE_DECIMAL_def)
  moreover obtain r' t' where "atomic (?ops ! 1) (table_of ?m) = Inr (t', reply_of m' r')" "entries (table_of m') ?b = entries t' ?b"
    using s(2) [of 1] m(2) by auto
  moreover obtain t1 where "atomic (?ops ! 1) (table_of ?m) = Inr (t1, Done (entries (table_of ?m) ?b \<noteq> None))"
    "entries t1 = (entries (table_of ?m))(?b := None)"
    using atomic_final [OF ht, of "DelOp ''b''"] m(2) by auto
  ultimately show ?thesis using s(1) by (auto simp: entry_of_def)
qed

end
