(* ===== verification/Table_Races.thy ===== *)
theory Table_Races
  imports Table_Threads
begin

text \<open>
  Operations of two threads on the same bucket of the shared table, where no lock orders their
  statements: what counters can end with, and the second \<open>free\<close> of a value.
\<close>

section \<open>Racing counters\<close>

text \<open>An INC or DEC of the entry at \<open>p\<close>, of type \<open>ty\<close>, that has not yet read the value at \<open>q\<close>.\<close>

definition before_load :: "cache_value_type \<Rightarrow> nat \<Rightarrow> nat \<Rightarrow> pc \<Rightarrow> bool" where
  "before_load ty p q pc \<longleftrightarrow>
     pc \<in> {Entered, Adjust_string p, Adjust_decimal p, Adjust_pointer p ty, Adjust_load p (Some q) ty} \<or>
     pc = Adjust_real p \<and> ty = CACHE_VALUE_REAL"

lemma racer_reads:
  assumes "i < length (m_table m)" and "view m i = (Some p, Some (full_entry cv q), Some (n, Some y))"
    and "cv_type cv = CACHE_VALUE_DECIMAL \<or> cv_type cv = CACHE_VALUE_REAL"
    and "before_load (cv_type cv) p q pc" and "adjusted f x (cv_type cv) y = Inr z"
  shows "\<exists>pc'. adjust_step f x i pc m = Inr (pc', m) \<and> steps_left pc' < steps_left pc \<and>
    (before_load (cv_type cv) p q pc' \<or> pc' = Adjust_store p (Some q) z)"
proof -
  have e: "load_entry m p = Inr (full_entry cv q)" using deref_view [OF assms(1,2)] by (simp add: load_entry_def)
  have b: "read_block (Some q) m = Inr y" using block_view [OF assms(2)] by (simp add: full_entry_def read_block_def field_def)
  have fields: "field (eb_type (full_entry cv q)) = Inr (cv_type cv)" "field (eb_value (full_entry cv q)) = Inr (Some q)"
    by (simp_all add: full_entry_def field_def)
  show ?thesis using assms(3-5) load_view [OF assms(1)] assms(2) e b fields
    by (auto simp: before_load_def adjust_step_def cache_types)
qed

text \<open>
  Two threads at the same entry: \<open>a\<close> and \<open>b\<close> are what each makes of the first value, \<open>ba\<close> and
  \<open>ab\<close> what it makes of the other's result.
\<close>

definition racer :: "cache_value_type \<Rightarrow> nat \<Rightarrow> nat \<Rightarrow> heap_value set \<Rightarrow> pc \<Rightarrow> bool" where
  "racer ty p q zs pc \<longleftrightarrow>
     before_load ty p q pc \<or> (\<exists>z \<in> zs. pc = Adjust_store p (Some q) z) \<or> pc = Returned (Pointer (Some p))"

definition over :: "pc \<Rightarrow> bool" where
  "over pc \<longleftrightarrow> (case pc of Returned _ \<Rightarrow> True | _ \<Rightarrow> False)"

definition race ::
    "memory \<Rightarrow> nat \<Rightarrow> cache_value \<Rightarrow> nat \<Rightarrow> nat \<Rightarrow> heap_value \<Rightarrow> heap_value \<Rightarrow> heap_value \<Rightarrow> heap_value \<Rightarrow>
      pc \<Rightarrow> pc \<Rightarrow> memory \<Rightarrow> bool" where
  "race m0 i cv p q a b ba ab pc0 pc1 m \<longleftrightarrow>
     separate m \<and> length (m_table m) = length (m_table m0) \<and> m_size m = m_size m0 \<and> (\<forall>b. b \<noteq> i \<longrightarrow> view m b = view m0 b) \<and>
     (\<exists>y. view m i = (Some p, Some (full_entry cv q), Some (8, Some y)) \<and>
       y \<in> (if over pc0 then if over pc1 then {a, b, ba, ab} else {a} else if over pc1 then {b} else {cv_value cv})) \<and>
     racer (cv_type cv) p q (if over pc1 then {a, ba} else {a}) pc0 \<and>
     racer (cv_type cv) p q (if over pc0 then {b, ab} else {b}) pc1"

lemma race_swap: "race m0 i cv p q a b ba ab pc0 pc1 m \<longleftrightarrow> race m0 i cv p q b a ab ba pc1 pc0 m"
  unfolding race_def by (auto simp: insert_commute)

lemma over_simps [simp]:
  "over (Returned r)" "\<not> over (Adjust_store p v z)" "before_load ty p q pc \<Longrightarrow> \<not> over pc"
  by (auto simp: over_def before_load_def)

lemma race_step:
  assumes "race m0 i cv p q a b ba ab pc0 pc1 m" and "i < length (m_table m0)"
    and "cv_type cv = CACHE_VALUE_DECIMAL \<or> cv_type cv = CACHE_VALUE_REAL"
    and "adjusted f x (cv_type cv) (cv_value cv) = Inr a" and "adjusted f x (cv_type cv) b = Inr ba"
  shows "\<exists>pc m'. adjust_step f x i pc0 m = Inr (pc, m') \<and> race m0 i cv p q a b ba ab pc pc1 m' \<and>
    steps_left pc \<le> steps_left pc0 - 1"
proof -
  obtain y where y: "view m i = (Some p, Some (full_entry cv q), Some (8, Some y))"
    "y \<in> (if over pc0 then if over pc1 then {a, b, ba, ab} else {a} else if over pc1 then {b} else {cv_value cv})"
    and r: "racer (cv_type cv) p q (if over pc1 then {a, ba} else {a}) pc0" "racer (cv_type cv) p q (if over pc0 then {b, ab} else {b}) pc1"
    and m: "separate m" "length (m_table m) = length (m_table m0)" "m_size m = m_size m0" "\<forall>b. b \<noteq> i \<longrightarrow> view m b = view m0 b"
    using assms(1) unfolding race_def by blast
  have i: "i < length (m_table m)" using assms(2) m(2) by simp
  consider "before_load (cv_type cv) p q pc0" | z where "z \<in> (if over pc1 then {a, ba} else {a})" "pc0 = Adjust_store p (Some q) z"
    | "pc0 = Returned (Pointer (Some p))" using r(1) by (auto simp: racer_def)
  then show ?thesis
  proof cases
    case 1
    let ?z = "if over pc1 then ba else a"
    have "adjusted f x (cv_type cv) y = Inr ?z" using y(2) 1 assms(4,5) by (auto split: if_splits)
    from racer_reads [OF i y(1) assms(3) 1 this] obtain pc where pc: "adjust_step f x i pc0 m = Inr (pc, m)" "steps_left pc < steps_left pc0"
      "before_load (cv_type cv) p q pc \<or> pc = Adjust_store p (Some q) ?z" by blast
    then have "\<not> over pc" by auto
    with pc y r(2) m 1 have "race m0 i cv p q a b ba ab pc pc1 m" by (auto simp: race_def racer_def split: if_splits)
    with pc(1,2) show ?thesis by auto
  next
    case 2
    have sz: "size_of z \<le> 8" using 2(1) assms(4,5)
      by (auto simp: adjusted_def size_of_def map_res_Inr_iff split: if_splits heap_value.splits)
    have vp: "value_pointer (Some (full_entry cv q)) = Some q" by (simp add: full_entry_def)
    obtain m' where m': "write_block (Some q) z m = Inr m'" "keeps_others i m m'"
      "view m' i = (Some p, Some (full_entry cv q), Some (8, Some z))"
      using block_write [OF m(1) y(1) vp sz] by blast
    then have "race m0 i cv p q a b ba ab (Returned (Pointer (Some p))) pc1 m'"
      using 2 r(2) m by (auto simp: race_def racer_def keeps_others_def split: if_splits)
    with m'(1) 2(2) show ?thesis by (simp add: adjust_step_def)
  next
    case 3
    with assms(1) show ?thesis by (simp add: adjust_step_def)
  qed
qed

lemma race_schedule:
  fixes f0 f1 :: "double \<Rightarrow> double \<Rightarrow> double" and k0 k1 :: string and x0 x1 :: double
  defines "o0 \<equiv> AdjustOp f0 k0 x0" and "o1 \<equiv> AdjustOp f1 k1 x1"
  assumes "ht_inv (table_of m0)" and "bucket_in m0 o0 = i" and "bucket_in m0 o1 = i"
    and "cv_type cv = CACHE_VALUE_DECIMAL \<or> cv_type cv = CACHE_VALUE_REAL"
    and "adjusted f0 x0 (cv_type cv) (cv_value cv) = Inr a" and "adjusted f0 x0 (cv_type cv) b = Inr ba"
    and "adjusted f1 x1 (cv_type cv) (cv_value cv) = Inr b" and "adjusted f1 x1 (cv_type cv) a = Inr ab"
  shows "race m0 i cv p q a b ba ab pc0 pc1 m \<Longrightarrow> steps_left pc0 \<le> 12 - n0 \<Longrightarrow> steps_left pc1 \<le> 12 - n1 \<Longrightarrow>
    \<exists>pc0' pc1' m'. schedule is ([(o0, pc0), (o1, pc1)], m) = Inr ([(o0, pc0'), (o1, pc1')], m') \<and>
      race m0 i cv p q a b ba ab pc0' pc1' m' \<and>
      steps_left pc0' \<le> 12 - (n0 + count_list is 0) \<and> steps_left pc1' \<le> 12 - (n1 + count_list is 1)"
proof (induction "is" arbitrary: pc0 pc1 m n0 n1)
  case Nil
  then show ?case by simp
next
  case (Cons k "is")
  have i: "i < length (m_table m0)" using bucket_in_bound [OF assms(3), of o0] assms(4) by simp
  have "m_size m = m_size m0" using Cons.prems(1) by (simp add: race_def)
  then have idx: "cell_index m (op_key o0) = Inr i" "cell_index m (op_key o1) = Inr i"
    using cell_index_ok [OF assms(3), of m o0] cell_index_ok [OF assms(3), of m o1] assms(4,5) by simp_all
  consider "k = 0" | "k = 1" | "1 < k" by linarith
  then show ?case
  proof cases
    case 1
    obtain pc m1 where s: "adjust_step f0 x0 i pc0 m = Inr (pc, m1)" "race m0 i cv p q a b ba ab pc pc1 m1" "steps_left pc \<le> steps_left pc0 - 1"
      using race_step [OF Cons.prems(1) i assms(6-8)] by blast
    have "thread_step k ([(o0, pc0), (o1, pc1)], m) = Inr ([(o0, pc), (o1, pc1)], m1)"
      using 1 s(1) idx(1) by (simp add: thread_step_def op_step_def o0_def)
    moreover have "steps_left pc \<le> 12 - (n0 + 1)" using s(3) Cons.prems(2) by linarith
    ultimately show ?thesis using Cons.IH [OF s(2) _ Cons.prems(3)] 1 by fastforce
  next
    case 2
    obtain pc m1 where s: "adjust_step f1 x1 i pc1 m = Inr (pc, m1)" "race m0 i cv p q b a ab ba pc pc0 m1" "steps_left pc \<le> steps_left pc1 - 1"
      using race_step [OF Cons.prems(1) [unfolded race_swap [of m0 i cv p q a]] i assms(6,9,10)] by blast
    have "thread_step k ([(o0, pc0), (o1, pc1)], m) = Inr ([(o0, pc0), (o1, pc)], m1)"
      using 2 s(1) idx(2) by (simp add: thread_step_def op_step_def o1_def)
    moreover have "race m0 i cv p q a b ba ab pc0 pc m1" using s(2) race_swap by blast
    moreover have "steps_left pc \<le> 12 - (n1 + 1)" using s(3) Cons.prems(3) by linarith
    ultimately show ?thesis using Cons.IH [OF _ Cons.prems(2)] 2 by fastforce
  next
    case 3
    then have "thread_step k ([(o0, pc0), (o1, pc1)], m) = Inr ([(o0, pc0), (o1, pc1)], m)" by (simp add: thread_step_def)
    with Cons.IH [OF Cons.prems] 3 show ?thesis by simp
  qed
qed

lemma race_start:
  assumes "memory_ok m" and "entries (table_of m) i = Some cv" and "cv_type cv \<noteq> CACHE_VALUE_STRING"
  shows "\<exists>p q. race m i cv p q a b ba ab Entered Entered m" and "cv_type cv = CACHE_VALUE_DECIMAL \<or> cv_type cv = CACHE_VALUE_REAL"
proof -
  have "ht_inv (table_of m)" using assms(1) by (simp add: memory_ok_def)
  then have ok: "entry_ok cv" using ht_entry_ok assms(2) by blast
  then show "cv_type cv = CACHE_VALUE_DECIMAL \<or> cv_type cv = CACHE_VALUE_REAL"
    using assms(3) by (cases "cv_value cv") (simp_all add: entry_ok_def)
  have sz: "size_of (cv_value cv) = 8" using ok assms(3) by (cases "cv_value cv") (simp_all add: entry_ok_def size_of_def)
  have "holds_entry (Some cv) (view m i)" "separate m" using assms(1,2) by (auto simp: memory_ok_def dest: spec [of _ i])
  with sz show "\<exists>p q. race m i cv p q a b ba ab Entered Entered m"
    by (auto simp: race_def racer_def before_load_def over_def)
qed

section \<open>Racing stores\<close>

text \<open>Up to the \<open>free\<close> of the old value, SET only writes the other fields of an entry that exists.\<close>

lemma set_reaches_free:
  assumes "separate m" and "i < length (m_table m)" and "view m i = (Some p, Some e, Some b)" and "eb_value e = Some (Some q)"
    and "\<And>m'. m_size m' = m_size m \<Longrightarrow> cell_index m' key = Inr i"
    and "k < length ts" and "ts ! k = (SetOp key ty x sz, Entered)"
  shows "\<exists>m' e'. schedule (replicate 5 k) (ts, m) = Inr (ts[k := (SetOp key ty x sz, Set_free)], m') \<and> separate m' \<and>
    length (m_table m') = length (m_table m) \<and> m_size m' = m_size m \<and>
    view m' i = (Some p, Some e', Some b) \<and> eb_value e' = Some (Some q)"
proof -
  let ?op = "SetOp key ty x sz"
  have upd: "\<exists>m'. update_cell i f m = Inr m' \<and> separate m' \<and> length (m_table m') = length (m_table m) \<and> m_size m' = m_size m \<and>
      view m' i = (Some p, Some (f e), Some b)"
    if "separate m" "i < length (m_table m)" "view m i = (Some p, Some e, Some b)" "eb_value (f e) = eb_value e" "eb_value e = Some (Some q)"
    for m e f
    using entry_update [where f = f, OF that(1-3)] that(4,5) by (auto simp: keeps_others_def)
  have step: "thread_step k (ts[k := (?op, pc)], m') = map_res (\<lambda>(pc, m). (ts[k := (?op, pc)], m)) (set_step key ty x sz i pc m')"
    if "m_size m' = m_size m" for pc m'
    using assms(5) [OF that] assms(6) by (simp add: thread_step_def op_step_def split_beta)
  obtain m1 where m1: "update_cell i (\<lambda>e. e\<lparr>eb_key := Some key\<rparr>) m = Inr m1" "separate m1" "length (m_table m1) = length (m_table m)"
    "m_size m1 = m_size m" "view m1 i = (Some p, Some (e\<lparr>eb_key := Some key\<rparr>), Some b)"
    using upd [OF assms(1-3) _ assms(4), of "\<lambda>e. e\<lparr>eb_key := Some key\<rparr>"] by auto
  let ?e1 = "e\<lparr>eb_key := Some key\<rparr>" and ?e2 = "e\<lparr>eb_key := Some key, eb_type := Some ty\<rparr>"
  let ?e3 = "e\<lparr>eb_key := Some key, eb_type := Some ty, eb_length := Some sz\<rparr>"
  have i1: "i < length (m_table m1)" using m1(3) assms(2) by simp
  obtain m2 where m2: "update_cell i (\<lambda>e. e\<lparr>eb_type := Some ty\<rparr>) m1 = Inr m2" "separate m2" "length (m_table m2) = length (m_table m)"
    "m_size m2 = m_size m" "view m2 i = (Some p, Some ?e2, Some b)"
    using upd [OF m1(2) i1 m1(5), of "\<lambda>e. e\<lparr>eb_type := Some ty\<rparr>"] m1(3,4) assms(4) by auto
  have i2: "i < length (m_table m2)" using m2(3) assms(2) by simp
  obtain m3 where m3: "update_cell i (\<lambda>e. e\<lparr>eb_length := Some sz\<rparr>) m2 = Inr m3" "separate m3" "length (m_table m3) = length (m_table m)"
    "m_size m3 = m_size m" "view m3 i = (Some p, Some ?e3, Some b)"
    using upd [OF m2(2) i2 m2(5), of "\<lambda>e. e\<lparr>eb_length := Some sz\<rparr>"] m2(3,4) assms(4) by auto
  have i3: "i < length (m_table m3)" using m3(3) assms(2) by simp
  have "set_step key ty x sz i Entered m = Inr (Set_key, m)" using load_view [OF assms(2)] assms(3) by (simp add: set_step_def)
  moreover have "set_step key ty x sz i Set_key m = Inr (Set_type, m1)" "set_step key ty x sz i Set_type m1 = Inr (Set_length, m2)"
    "set_step key ty x sz i Set_length m2 = Inr (Set_test, m3)" using m1(1) m2(1) m3(1) by (simp_all add: set_step_def)
  moreover have "set_step key ty x sz i Set_test m3 = Inr (Set_free, m3)"
    using deref_view [OF i3 m3(5)] assms(4) by (simp add: set_step_def field_def)
  ultimately have "schedule (replicate 5 k) (ts[k := (?op, Entered)], m) = Inr (ts[k := (?op, Set_free)], m3)"
    using step [OF refl] step [OF m1(4)] step [OF m2(4)] step [OF m3(4)] by (simp add: eval_nat_numeral)
  moreover have "ts[k := (?op, Entered)] = ts" using list_update_id [of ts k] assms(7) by simp
  ultimately show ?thesis using m3 assms(4) by (intro exI [of _ m3] exI [of _ ?e3]) simp
qed

lemma schedule_append: "schedule (is @ js) s = bind_res (schedule is s) (schedule js)"
proof (induction "is" arbitrary: s)
  case (Cons k "is")
  then show ?case by (cases "thread_step k s") simp_all
qed simp

section \<open>How a race of counters ends\<close>

lemma adjusted_size: "adjusted f x ty v = Inr y \<Longrightarrow> size_of y = 8"
  by (auto simp: adjusted_def size_of_def map_res_Inr_iff split: if_splits heap_value.splits)

lemma race_table:
  assumes "memory_ok m0" and "\<And>c. c \<noteq> i \<Longrightarrow> view m c = view m0 c"
    and "view m i = (Some p, Some (full_entry cv q), Some (8, Some y))" and "size_of y = 8"
  shows "entries (table_of m) = (entries (table_of m0))(i \<mapsto> cv\<lparr>cv_value := y\<rparr>)"
proof
  fix c
  show "entries (table_of m) c = ((entries (table_of m0))(i \<mapsto> cv\<lparr>cv_value := y\<rparr>)) c"
  proof (cases "c = i")
    case True
    have "holds_entry (Some (cv\<lparr>cv_value := y\<rparr>)) (view m i)" using assms(3,4) by (auto simp: full_entry_def)
    with True show ?thesis using view_entry(1) by fastforce
  next
    case False
    then have "holds_entry (entries (table_of m0) c) (view m c)" using assms(1,2) by (simp add: memory_ok_def)
    with False show ?thesis using view_entry(1) by fastforce
  qed
qed

lemma steps_left_done: "steps_left pc = 0 \<Longrightarrow> racer ty p q zs pc \<Longrightarrow> pc = Returned (Pointer (Some p))"
  by (auto simp: racer_def before_load_def)

lemma racing_outcomes:
  fixes f0 f1 :: "double \<Rightarrow> double \<Rightarrow> double" and k0 k1 :: string and x0 x1 :: double
  assumes "memory_ok m" and "bucket_in m (AdjustOp f1 k1 x1) = bucket_in m (AdjustOp f0 k0 x0)"
    and "entries (table_of m) (bucket_in m (AdjustOp f0 k0 x0)) = Some cv" and "cv_type cv \<noteq> CACHE_VALUE_STRING"
    and "adjusted f0 x0 (cv_type cv) (cv_value cv) = Inr a" and "adjusted f0 x0 (cv_type cv) b = Inr ba"
    and "adjusted f1 x1 (cv_type cv) (cv_value cv) = Inr b" and "adjusted f1 x1 (cv_type cv) a = Inr ab"
    and "12 \<le> count_list is 0 \<and> 12 \<le> count_list is 1"
  shows "\<exists>y \<in> {a, b, ab, ba}. \<exists>p m'. schedule is (start [AdjustOp f0 k0 x0, AdjustOp f1 k1 x1], m) =
      Inr ([(AdjustOp f0 k0 x0, Returned (Pointer (Some p))), (AdjustOp f1 k1 x1, Returned (Pointer (Some p)))], m') \<and>
    entries (table_of m') = (entries (table_of m))(bucket_in m (AdjustOp f0 k0 x0) \<mapsto> cv\<lparr>cv_value := y\<rparr>)"
proof -
  let ?o0 = "AdjustOp f0 k0 x0" and ?o1 = "AdjustOp f1 k1 x1"
  let ?b = "bucket_in m ?o0"
  have ht: "ht_inv (table_of m)" using assms(1) by (simp add: memory_ok_def)
  obtain p q where st: "race m ?b cv p q a b ba ab Entered Entered m" and ty: "cv_type cv = CACHE_VALUE_DECIMAL \<or> cv_type cv = CACHE_VALUE_REAL"
    using race_start [OF assms(1,3,4)] by blast
  obtain pc0 pc1 m' where s: "schedule is ([(?o0, Entered), (?o1, Entered)], m) = Inr ([(?o0, pc0), (?o1, pc1)], m')"
    "race m ?b cv p q a b ba ab pc0 pc1 m'" "steps_left pc0 \<le> 12 - (0 + count_list is 0)" "steps_left pc1 \<le> 12 - (0 + count_list is 1)"
    using race_schedule [OF ht refl assms(2) ty assms(5-8) st, of 0 0 "is"] by auto
  then have "steps_left pc0 = 0" "steps_left pc1 = 0" using assms(9) by linarith+
  then have found: "pc0 = Returned (Pointer (Some p))" "pc1 = Returned (Pointer (Some p))"
    using s(2) steps_left_done unfolding race_def by blast+
  obtain y where y: "view m' ?b = (Some p, Some (full_entry cv q), Some (8, Some y))" "y \<in> {a, b, ba, ab}"
    and others: "\<And>c. c \<noteq> ?b \<Longrightarrow> view m' c = view m c"
    using s(2) found by (auto simp: race_def)
  have "size_of y = 8" using y(2) assms(5-8) adjusted_size by auto
  from race_table [OF assms(1) others y(1) this] s(1) found y(2) show ?thesis by (auto simp: start_def)
qed

lemma racer_reaches_store:
  assumes "ht_inv (table_of m0)" and "m_size m = m_size m0" and "i < length (m_table m)"
    and "view m i = (Some p, Some (full_entry cv q), Some (n, Some y))"
    and "cv_type cv = CACHE_VALUE_DECIMAL \<or> cv_type cv = CACHE_VALUE_REAL" and "adjusted f x (cv_type cv) y = Inr z"
    and "bucket_in m0 (AdjustOp f k x) = i"
  shows "before_load (cv_type cv) p q pc \<Longrightarrow>
    \<exists>n. schedule (replicate n 0) ((AdjustOp f k x, pc) # ts, m) = Inr ((AdjustOp f k x, Adjust_store p (Some q) z) # ts, m)"
proof (induction "steps_left pc" arbitrary: pc rule: less_induct)
  case less
  obtain pc' where pc': "adjust_step f x i pc m = Inr (pc', m)" "steps_left pc' < steps_left pc"
    "before_load (cv_type cv) p q pc' \<or> pc' = Adjust_store p (Some q) z"
    using racer_reads [OF assms(3-5) less.prems assms(6)] by blast
  have "cell_index m (op_key (AdjustOp f k x)) = Inr i" using cell_index_ok [OF assms(1,2)] assms(7) by metis
  then have step: "thread_step 0 ((AdjustOp f k x, pc) # ts, m) = Inr ((AdjustOp f k x, pc') # ts, m)"
    using pc'(1) by (simp add: thread_step_def op_step_def)
  from pc'(3) show ?case
  proof
    assume "before_load (cv_type cv) p q pc'"
    from less.hyps [OF pc'(2) this] obtain n where
      "schedule (replicate n 0) ((AdjustOp f k x, pc') # ts, m) = Inr ((AdjustOp f k x, Adjust_store p (Some q) z) # ts, m)" by blast
    with step show ?thesis by (intro exI [of _ "Suc n"]) simp
  next
    assume "pc' = Adjust_store p (Some q) z"
    with step show ?thesis by (intro exI [of _ 1]) simp
  qed
qed

lemma schedule_keeps_first:
  "schedule (replicate n 1) (t # ts, m) = Inr (ts', m') \<Longrightarrow> \<exists>us. ts' = t # us"
proof (induction n arbitrary: ts m)
  case (Suc n)
  then show ?case
    by (cases "thread_step 1 (t # ts, m)") (auto simp: thread_step_def map_res_Inr_iff split: if_splits)
qed auto

lemma lost_update:
  fixes f0 f1 :: "double \<Rightarrow> double \<Rightarrow> double" and k0 k1 :: string and x0 x1 :: double
  assumes "memory_ok m" and "bucket_in m (AdjustOp f1 k1 x1) = bucket_in m (AdjustOp f0 k0 x0)"
    and "entries (table_of m) (bucket_in m (AdjustOp f0 k0 x0)) = Some cv" and "cv_type cv \<noteq> CACHE_VALUE_STRING"
    and "adjusted f0 x0 (cv_type cv) (cv_value cv) = Inr a" and "adjusted f0 x0 (cv_type cv) b = Inr ba"
    and "adjusted f1 x1 (cv_type cv) (cv_value cv) = Inr b" and "adjusted f1 x1 (cv_type cv) a = Inr ab"
  shows "\<exists>is p m'. schedule is (start [AdjustOp f0 k0 x0, AdjustOp f1 k1 x1], m) =
      Inr ([(AdjustOp f0 k0 x0, Returned (Pointer (Some p))), (AdjustOp f1 k1 x1, Returned (Pointer (Some p)))], m') \<and>
    entries (table_of m') = (entries (table_of m))(bucket_in m (AdjustOp f0 k0 x0) \<mapsto> cv\<lparr>cv_value := a\<rparr>)"
proof -
  let ?o0 = "AdjustOp f0 k0 x0" and ?o1 = "AdjustOp f1 k1 x1"
  let ?b = "bucket_in m ?o0"
  have ht: "ht_inv (table_of m)" using assms(1) by (simp add: memory_ok_def)
  have i: "?b < length (m_table m)" by (rule bucket_in_bound [OF ht])
  obtain p q where st: "race m ?b cv p q a b ba ab Entered Entered m" and ty: "cv_type cv = CACHE_VALUE_DECIMAL \<or> cv_type cv = CACHE_VALUE_REAL"
    using race_start [OF assms(1,3,4)] by blast
  have v: "view m ?b = (Some p, Some (full_entry cv q), Some (8, Some (cv_value cv)))"
    using st by (auto simp: race_def over_def)
  let ?store = "Adjust_store p (Some q) a"
  obtain n where first: "schedule (replicate n 0) ([(?o0, Entered), (?o1, Entered)], m) = Inr ([(?o0, ?store), (?o1, Entered)], m)"
    using racer_reaches_store [OF ht refl i v ty assms(5) refl, of Entered "[(?o1, Entered)]"] by (auto simp: before_load_def)
  have "race m ?b cv p q a b ba ab ?store Entered m"
    using st v by (auto simp: race_def racer_def over_def)
  from race_schedule [OF ht refl assms(2) ty assms(5-8) this, of 0 0 "replicate 12 1"] obtain pc0 pc1 m1 where
    s: "schedule (replicate 12 1) ([(?o0, ?store), (?o1, Entered)], m) = Inr ([(?o0, pc0), (?o1, pc1)], m1)"
    "race m ?b cv p q a b ba ab pc0 pc1 m1" "steps_left pc1 \<le> 12 - (0 + count_list (replicate 12 1) (1 :: nat))" by auto
  have pc0: "pc0 = ?store" using schedule_keeps_first [OF s(1)] by simp
  have "steps_left pc1 = 0" using s(3) by (simp add: eval_nat_numeral)
  then have pc1: "pc1 = Returned (Pointer (Some p))" using s(2) steps_left_done unfolding race_def by blast
  obtain y where v1: "view m1 ?b = (Some p, Some (full_entry cv q), Some (8, Some y))" and m1: "separate m1" "m_size m1 = m_size m"
    "\<And>c. c \<noteq> ?b \<Longrightarrow> view m1 c = view m c" using s(2) by (auto simp: race_def)
  have "size_of a = 8" "value_pointer (Some (full_entry cv q)) = Some q"
    using adjusted_size [OF assms(5)] by (simp_all add: full_entry_def)
  then obtain m2 where m2: "write_block (Some q) a m1 = Inr m2" "keeps_others ?b m1 m2"
    "view m2 ?b = (Some p, Some (full_entry cv q), Some (8, Some a))"
    using block_write [OF m1(1) v1, of q a] by auto
  have "schedule [0] ([(?o0, ?store), (?o1, Returned (Pointer (Some p)))], m1) =
      Inr ([(?o0, Returned (Pointer (Some p))), (?o1, Returned (Pointer (Some p)))], m2)"
    using m2(1) cell_index_ok [OF ht m1(2), of ?o0] by (simp add: thread_step_def op_step_def adjust_step_def)
  with first s(1) pc0 pc1 have "schedule (replicate n 0 @ replicate 12 1 @ [0]) (start [?o0, ?o1], m) =
      Inr ([(?o0, Returned (Pointer (Some p))), (?o1, Returned (Pointer (Some p)))], m2)"
    by (simp add: schedule_append start_def del: replicate.simps schedule.simps)
  moreover have "view m2 c = view m c" if "c \<noteq> ?b" for c using m2(2) m1(3) that by (simp add: keeps_others_def)
  from race_table [OF assms(1) this m2(3) \<open>size_of a = 8\<close>]
  have "entries (table_of m2) = (entries (table_of m))(?b \<mapsto> cv\<lparr>cv_value := a\<rparr>)" .
  ultimately show ?thesis by blast
qed

section \<open>Properties\<close>

text \<open>
  C13. Two threads that increment or decrement the same counter: under every schedule there is
  no undefined behaviour and both return the entry, but what is in it in the end is the result
  of both, in either order, or of only one of them; and there is a schedule under which the
  update of the second thread is lost.
\<close>

theorem racing_counters:
  fixes f0 f1 :: "double \<Rightarrow> double \<Rightarrow> double" and k0 k1 :: string and x0 x1 :: double
  defines "o0 \<equiv> AdjustOp f0 k0 x0" and "o1 \<equiv> AdjustOp f1 k1 x1"
  assumes "memory_ok m" and "bucket_in m o1 = bucket_in m o0" and "entries (table_of m) (bucket_in m o0) = Some cv"
    and "cv_type cv \<noteq> CACHE_VALUE_STRING"
    and "adjusted f0 x0 (cv_type cv) (cv_value cv) = Inr a" and "adjusted f0 x0 (cv_type cv) b = Inr ba"
    and "adjusted f1 x1 (cv_type cv) (cv_value cv) = Inr b" and "adjusted f1 x1 (cv_type cv) a = Inr ab"
  defines "ends \<equiv> \<lambda>is y. \<exists>p m'.
    schedule is (start [o0, o1], m) = Inr ([(o0, Returned (Pointer (Some p))), (o1, Returned (Pointer (Some p)))], m') \<and>
    entries (table_of m') = (entries (table_of m))(bucket_in m o0 \<mapsto> cv\<lparr>cv_value := y\<rparr>)"
  shows "(\<forall>is. 12 \<le> count_list is 0 \<and> 12 \<le> count_list is 1 \<longrightarrow> (\<exists>y \<in> {a, b, ab, ba}. ends is y)) \<and> (\<exists>is. ends is a)"
  using racing_outcomes [OF assms(3) assms(4-10) [unfolded o0_def o1_def]]
    lost_update [OF assms(3) assms(4-10) [unfolded o0_def o1_def]]
  unfolding ends_def o0_def o1_def by blast

theorem racing_counters_witness:
  "\<exists>is p m'. schedule is (start [AdjustOp (+) ''n'' (int_to_double 3), AdjustOp (+) ''n'' (int_to_double 4)], counter_memory ''n'' 5) =
      Inr ([(AdjustOp (+) ''n'' (int_to_double 3), Returned (Pointer (Some p))),
        (AdjustOp (+) ''n'' (int_to_double 4), Returned (Pointer (Some p)))], m') \<and>
    entries (table_of m') (unat (fnv1a ''n'' mod 10)) = Some \<lparr>cv_key = ''n'', cv_type = 0, cv_value = VDecimal 8, cv_length = 0\<rparr>"
proof -
  let ?m = "counter_memory ''n'' 5" and ?o0 = "AdjustOp (+) ''n'' (int_to_double 3)" and ?o1 = "AdjustOp (+) ''n'' (int_to_double 4)"
  let ?cv = "\<lparr>cv_key = ''n'', cv_type = 0, cv_value = VDecimal 5, cv_length = 0\<rparr>"
  note m = counter_memory_ok [of "''n''" 5]
  have s: "sint (5 :: int64) = 5" "sint (8 :: int64) = 8" "sint (9 :: int64) = 9" by code_simp+
  have add: "dbl_to_int64 (int_to_double (sint (5 :: int64)) + int_to_double 3) = Inr 8"
    "dbl_to_int64 (int_to_double (sint (5 :: int64)) + int_to_double 4) = Inr 9"
    "dbl_to_int64 (int_to_double (sint (8 :: int64)) + int_to_double 4) = Inr 12"
    "dbl_to_int64 (int_to_double (sint (9 :: int64)) + int_to_double 3) = Inr 12"
    using int64_add_exact [of 5 3] int64_add_exact [of 5 4] int64_add_exact [of 8 4] int64_add_exact [of 9 3] by (simp_all add: s)
  have adj: "adjusted (+) (int_to_double 3) 0 (VDecimal 5) = Inr (VDecimal 8)" "adjusted (+) (int_to_double 3) 0 (VDecimal 9) = Inr (VDecimal 12)"
    "adjusted (+) (int_to_double 4) 0 (VDecimal 5) = Inr (VDecimal 9)" "adjusted (+) (int_to_double 4) 0 (VDecimal 8) = Inr (VDecimal 12)"
    by (simp_all add: adjusted_def CACHE_VALUE_DECIMAL_def add [unfolded s])
  have "bucket_in ?m ?o1 = bucket_in ?m ?o0" "entries (table_of ?m) (bucket_in ?m ?o0) = Some ?cv" "cv_type ?cv \<noteq> CACHE_VALUE_STRING"
    using m(2,3) by (simp_all add: CACHE_VALUE_STRING_def)
  from racing_counters [OF m(1) this, of "VDecimal 8" "VDecimal 9" "VDecimal 12" "VDecimal 12"] adj
  obtain "is" p m' where "schedule is (start [?o0, ?o1], ?m) = Inr ([(?o0, Returned (Pointer (Some p))), (?o1, Returned (Pointer (Some p)))], m')"
    "entries (table_of m') = (entries (table_of ?m))(bucket_in ?m ?o0 \<mapsto> ?cv\<lparr>cv_value := VDecimal 8\<rparr>)" by auto
  then show ?thesis using m(2) by (intro exI [of _ "is"] exI [of _ p] exI [of _ m']) simp
qed

text \<open>
  C31. Two threads that set the same key, which exists: both can come to the \<open>free\<close> of the old
  value, and the second of them frees it again.
\<close>

theorem racing_sets_double_free:
  assumes "memory_ok m" and "entries (table_of m) (bucket_in m (SetOp key ty0 x0 sz0)) \<noteq> None"
  shows "\<exists>is. schedule is (start [SetOp key ty0 x0 sz0, SetOp key ty1 x1 sz1], m) = Inl DanglingAccess"
proof -
  let ?o0 = "SetOp key ty0 x0 sz0" and ?o1 = "SetOp key ty1 x1 sz1"
  let ?i = "bucket_in m ?o0"
  have ht: "ht_inv (table_of m)" "separate m" using assms(1) by (simp_all add: memory_ok_def)
  have idx: "cell_index m' key = Inr ?i" if "m_size m' = m_size m" for m'
    using cell_index_ok [OF ht(1) that, of ?o0] by simp
  have i: "?i < length (m_table m)" by (rule bucket_in_bound [OF ht(1)])
  obtain cv where "entries (table_of m) ?i = Some cv" using assms(2) by auto
  then have "holds_entry (Some cv) (view m ?i)" using assms(1) by (auto simp: memory_ok_def dest: spec [of _ ?i])
  then obtain p q where v: "view m ?i = (Some p, Some (full_entry cv q), Some (size_of (cv_value cv), Some (cv_value cv)))" by auto
  have q: "eb_value (full_entry cv q) = Some (Some q)" by (simp add: full_entry_def)
  obtain m1 e1 where m1: "schedule (replicate 5 0) (start [?o0, ?o1], m) = Inr ([(?o0, Set_free), (?o1, Entered)], m1)"
    "separate m1" "length (m_table m1) = length (m_table m)" "m_size m1 = m_size m"
    "view m1 ?i = (Some p, Some e1, Some (size_of (cv_value cv), Some (cv_value cv)))" "eb_value e1 = Some (Some q)"
    using set_reaches_free [OF ht(2) i v q idx, of 0 "start [?o0, ?o1]" ty0 x0 sz0] by (auto simp: start_def)
  have i1: "?i < length (m_table m1)" using i m1(3) by simp
  obtain m2 e2 where m2: "schedule (replicate 5 1) ([(?o0, Set_free), (?o1, Entered)], m1) = Inr ([(?o0, Set_free), (?o1, Set_free)], m2)"
    "separate m2" "length (m_table m2) = length (m_table m)" "m_size m2 = m_size m"
    "view m2 ?i = (Some p, Some e2, Some (size_of (cv_value cv), Some (cv_value cv)))" "eb_value e2 = Some (Some q)"
    using set_reaches_free [OF m1(2) i1 m1(5,6), of key 1 "[(?o0, Set_free), (?o1, Entered)]" ty1 x1 sz1] idx m1(3,4) by auto
  have i2: "?i < length (m_table m2)" using i m2(3) by simp
  have vp: "value_pointer (Some e2) = Some q" using m2(6) by simp
  obtain m3 where m3: "free_block (Some q) m2 = Inr m3" "keeps_others ?i m2 m3" "view m3 ?i = (Some p, Some e2, None)"
    using block_free [OF m2(2,5) vp] by blast
  then have m3': "m_size m3 = m_size m" "?i < length (m_table m3)" using m2(4) i2 by (simp_all add: keeps_others_def)
  have "m_value m3 q = None" using block_view [OF m3(3) vp] .
  then have "free_block (Some q) m3 = Inl DanglingAccess" by (simp add: free_block_def)
  then have "schedule [0, 1] ([(?o0, Set_free), (?o1, Set_free)], m2) = Inl DanglingAccess"
    using deref_view [OF i2 m2(5)] deref_view [OF m3'(2) m3(3)] m2(6) m3(1) idx [OF m2(4)] idx [OF m3'(1)]
    by (simp add: thread_step_def op_step_def set_step_def field_def)
  with m1(1) m2(1) have "schedule (replicate 5 0 @ replicate 5 1 @ [0, 1]) (start [?o0, ?o1], m) = Inl DanglingAccess"
    by (simp add: schedule_append)
  then show ?thesis by blast
qed

theorem racing_sets_double_free_witness:
  "\<exists>is. schedule is (start [SetOp ''n'' 0 (VDecimal 1) 0, SetOp ''n'' 0 (VDecimal 2) 0], counter_memory ''n'' 5) = Inl DanglingAccess"
  using racing_sets_double_free [OF counter_memory_ok(1) [of "''n''" 5]] counter_memory_ok(2,3) [of "''n''" 5] by simp

end
