(* ===== verification/Vector_Threads.thy ===== *)
theory Vector_Threads
  imports Vector
begin

text \<open>
  The locked operations of vector.c statement by statement, for any number of threads, each with
  a program of operations on one shared vector. Every schedule does what the operations would do
  one after the other, in the order in which they got the lock, and under a schedule that keeps
  giving every thread a turn all programs end. Moving the block and storing its new address are
  one step, as no other thread looks at the vector between them.
\<close>

section \<open>Statements\<close>

datatype 'a vec_call = CallInsert bool "'a option" | CallRemove size_t | CallAt size_t

datatype 'a vec_answer = Inserted bool | Element "'a option"

text \<open>Where a thread is in its operation; \<open>eptr\<close> and the result are its local variables.\<close>

datatype 'a vec_point =
    Calling
  | Inside
  | Full
  | Doubled
  | Room
  | Stored
  | Taken "'a option"
  | Cleared "'a option"
  | Counted "'a option"
  | Moved "'a option"
  | Leaving "'a vec_answer"
  | Left "'a vec_answer"

definition insert_statement :: "bool \<Rightarrow> 'a option \<Rightarrow> 'a vec_point \<Rightarrow> 'a vector \<Rightarrow> ('a vec_point \<times> 'a vector) res" where
  "insert_statement realloc_ok element pc v =
     (case pc of
        Inside \<Rightarrow> Inr (if v_size v = v_count v then Full else Room, v)
      | Full \<Rightarrow> Inr (Doubled, v\<lparr>v_size := v_size v * 2\<rparr>)
      | Doubled \<Rightarrow>
          (let bytes = v_size v * 8
           in if bytes = 0 then Inr (Leaving (Inserted False), v\<lparr>v_array := []\<rparr>)
              else if \<not> realloc_ok then Inr (Leaving (Inserted False), v)
              else Inr (Room, v\<lparr>v_array := realloc_cells (v_array v) (unat bytes div 8)\<rparr>))
      | Room \<Rightarrow> map_res (\<lambda>a. (Stored, v\<lparr>v_array := a\<rparr>)) (wr_cell (v_array v) (unat (v_count v)) element)
      | Stored \<Rightarrow> Inr (Leaving (Inserted True), v\<lparr>v_count := v_count v + 1\<rparr>)
      | _ \<Rightarrow> Inr (pc, v))"

definition remove_statement :: "size_t \<Rightarrow> 'a vec_point \<Rightarrow> 'a vector \<Rightarrow> ('a vec_point \<times> 'a vector) res" where
  "remove_statement index pc v =
     (case pc of
        Inside \<Rightarrow>
          (if index \<ge> v_size v then Inr (Leaving (Element None), v)
           else map_res (\<lambda>eptr. (if eptr = None then Leaving (Element None) else Taken eptr, v))
             (rd_cell (v_array v) (unat index)))
      | Taken eptr \<Rightarrow> map_res (\<lambda>a. (Cleared eptr, v\<lparr>v_array := a\<rparr>)) (wr_cell (v_array v) (unat index) None)
      | Cleared eptr \<Rightarrow> Inr (Counted eptr, v\<lparr>v_count := v_count v - 1\<rparr>)
      | Counted eptr \<Rightarrow>
          (if v_count v > 0 then
             bind_res (rd_cell (v_array v) (unat (v_count v))) (\<lambda>last.
               map_res (\<lambda>a. (Moved eptr, v\<lparr>v_array := a\<rparr>)) (wr_cell (v_array v) (unat index) last))
           else Inr (Leaving (Element eptr), v))
      | Moved eptr \<Rightarrow>
          map_res (\<lambda>a. (Leaving (Element eptr), v\<lparr>v_array := a\<rparr>)) (wr_cell (v_array v) (unat (v_count v)) None)
      | _ \<Rightarrow> Inr (pc, v))"

definition at_statement :: "size_t \<Rightarrow> 'a vec_point \<Rightarrow> 'a vector \<Rightarrow> ('a vec_point \<times> 'a vector) res" where
  "at_statement index pc v =
     (case pc of
        Inside \<Rightarrow>
          (if index < v_size v then map_res (\<lambda>result. (Leaving (Element result), v)) (rd_cell (v_array v) (unat index))
           else Inr (Leaving (Element None), v))
      | _ \<Rightarrow> Inr (pc, v))"

text \<open>A thread that does not get the lock stays where it is.\<close>

definition vec_statement :: "'a vec_call \<Rightarrow> 'a vec_point \<Rightarrow> 'a vector \<Rightarrow> ('a vec_point \<times> 'a vector) res" where
  "vec_statement call pc v =
     (case pc of
        Calling \<Rightarrow> Inr (case vector_lock v of None \<Rightarrow> (Calling, v) | Some v \<Rightarrow> (Inside, v))
      | Leaving answer \<Rightarrow> Inr (Left answer, vector_unlock v)
      | _ \<Rightarrow>
          (case call of
             CallInsert realloc_ok element \<Rightarrow> insert_statement realloc_ok element pc v
           | CallRemove index \<Rightarrow> remove_statement index pc v
           | CallAt index \<Rightarrow> at_statement index pc v))"

lemmas statement_defs = vec_statement_def insert_statement_def remove_statement_def at_statement_def

text \<open>The operation as a whole, as Vector has it; \<open>None\<close> is a caller that blocks.\<close>

fun vec_atomic :: "'a vec_call \<Rightarrow> 'a vector \<Rightarrow> ('a vector \<times> 'a vec_answer) res option" where
  "vec_atomic (CallInsert ok element) v = map_option (map_res (\<lambda>(v, r). (v, Inserted r))) (vector_insert ok v element)"
| "vec_atomic (CallRemove index) v = map_option (map_res (\<lambda>(v, r). (v, Element r))) (vector_remove v index)"
| "vec_atomic (CallAt index) v = map_option (map_res (\<lambda>(v, r). (v, Element r))) (vector_at v index)"

section \<open>An operation alone\<close>

primrec vec_statements :: "nat \<Rightarrow> 'a vec_call \<Rightarrow> 'a vec_point \<Rightarrow> 'a vector \<Rightarrow> ('a vec_point \<times> 'a vector) res" where
  "vec_statements 0 call pc v = Inr (pc, v)"
| "vec_statements (Suc n) call pc v = bind_res (vec_statement call pc v) (\<lambda>(pc, v). vec_statements n call pc v)"

text \<open>An operation makes at most seven steps.\<close>

fun steps_to_leave :: "'a vec_point \<Rightarrow> nat" where
  "steps_to_leave Calling = 7"
| "steps_to_leave Inside = 6"
| "steps_to_leave Full = 5"
| "steps_to_leave Doubled = 4"
| "steps_to_leave Room = 3"
| "steps_to_leave Stored = 2"
| "steps_to_leave (Taken _) = 5"
| "steps_to_leave (Cleared _) = 4"
| "steps_to_leave (Counted _) = 3"
| "steps_to_leave (Moved _) = 2"
| "steps_to_leave (Leaving _) = 1"
| "steps_to_leave (Left _) = 0"

text \<open>The points an operation can be at.\<close>

fun point_of :: "'a vec_call \<Rightarrow> 'a vec_point \<Rightarrow> bool" where
  "point_of (CallInsert _ _) pc \<longleftrightarrow> pc \<in> {Calling, Inside, Full, Doubled, Room, Stored} \<or> (\<exists>r. pc = Leaving r \<or> pc = Left r)"
| "point_of (CallRemove _) pc \<longleftrightarrow> pc \<notin> {Full, Doubled, Room, Stored}"
| "point_of (CallAt _) pc \<longleftrightarrow> pc \<in> {Calling, Inside} \<or> (\<exists>r. pc = Leaving r \<or> pc = Left r)"

lemma statement_inside:
  assumes "vec_statement call pc v = Inr (pc', v')" and "point_of call pc" and "pc \<noteq> Calling"
  shows "point_of call pc' \<and> pc' \<noteq> Calling \<and> steps_to_leave pc' \<le> steps_to_leave pc - 1 \<and>
    v_lock v' = (if \<exists>r. pc = Leaving r then False else v_lock v) \<and> (steps_to_leave pc = 1 \<or> steps_to_leave pc' \<noteq> 0 \<or> steps_to_leave pc = 0)"
  using assms by (cases call; cases pc)
    (auto simp: statement_defs Let_def map_res_def bind_res_def vector_unlock_def split: if_splits sum.splits)

lemma left_statements: "vec_statements n call (Left r) v = Inr (Left r, v)"
  by (induction n) (cases call; simp add: statement_defs)+

lemma statements_enough:
  "point_of call pc \<Longrightarrow> pc \<noteq> Calling \<Longrightarrow> steps_to_leave pc \<le> n \<Longrightarrow> steps_to_leave pc \<le> m \<Longrightarrow>
     vec_statements n call pc v = vec_statements m call pc v"
proof (induction n arbitrary: m pc v)
  case 0
  then obtain r where "pc = Left r" by (cases pc) simp_all
  then show ?case by (simp only: left_statements)
next
  case (Suc n)
  show ?case
  proof (cases m)
    case 0
    with Suc.prems obtain r where "pc = Left r" by (cases pc) simp_all
    then show ?thesis by (simp only: left_statements)
  next
    case (Suc k)
    show ?thesis
    proof (cases "vec_statement call pc v")
      case (Inr s)
      obtain pc' v' where s: "s = (pc', v')" by fastforce
      from statement_inside [OF Inr [unfolded s] Suc.prems(1,2)] have
        "point_of call pc'" "pc' \<noteq> Calling" "steps_to_leave pc' \<le> n" "steps_to_leave pc' \<le> k"
        using Suc.prems(3,4) \<open>m = Suc k\<close> by linarith+
      from Suc.IH [OF this] show ?thesis using Inr s \<open>m = Suc k\<close> by simp
    qed (use \<open>m = Suc k\<close> in simp)
  qed
qed

text \<open>What is left of an operation, when nothing else runs.\<close>

definition finish_call :: "'a vec_call \<Rightarrow> 'a vec_point \<Rightarrow> 'a vector \<Rightarrow> ('a vec_point \<times> 'a vector) res" where
  "finish_call = vec_statements 7"

lemma steps_bound: "pc \<noteq> Calling \<Longrightarrow> steps_to_leave pc \<le> 6"
  by (cases pc) simp_all

lemma finish_step:
  assumes "point_of call pc" and "pc \<noteq> Calling"
  shows "finish_call call pc v = bind_res (vec_statement call pc v) (\<lambda>(pc, v). finish_call call pc v)"
proof -
  have seven: "7 = Suc 6" by simp
  have n: "vec_statements 7 call pc v = bind_res (vec_statement call pc v) (\<lambda>(pc, v). vec_statements 6 call pc v)"
    unfolding seven by (rule vec_statements.simps(2))
  show ?thesis
  proof (cases "vec_statement call pc v")
    case (Inr s)
    obtain pc' v' where s: "s = (pc', v')" by fastforce
    have in': "point_of call pc'" "pc' \<noteq> Calling" using statement_inside [OF Inr [unfolded s] assms] by blast+
    have "vec_statements 6 call pc' v' = vec_statements 7 call pc' v'"
      using steps_bound [OF in'(2)] by (intro statements_enough [OF in']) linarith+
    then show ?thesis using Inr s n by (simp add: finish_call_def)
  qed (use n in \<open>simp add: finish_call_def\<close>)
qed

lemma statements_7: "vec_statements 7 call pc v = vec_statements (Suc (Suc (Suc (Suc (Suc (Suc (Suc 0))))))) call pc v"
  by (simp add: eval_nat_numeral)

lemma finish_insert:
  "\<not> v_lock v \<Longrightarrow> vec_atomic (CallInsert ok x) v = Some (map_res (\<lambda>(pc, v). case pc of Left r \<Rightarrow> (v, r)) (finish_call (CallInsert ok x) Calling v))"
  by (auto simp: finish_call_def statements_7 statement_defs vector_insert_def vector_insert_unsafe_def vector_lock_def Let_def
      map_res_def bind_res_def wr_cell_def vector_unlock_def)

lemma finish_at:
  "\<not> v_lock v \<Longrightarrow> vec_atomic (CallAt i) v = Some (map_res (\<lambda>(pc, v). case pc of Left r \<Rightarrow> (v, r)) (finish_call (CallAt i) Calling v))"
  by (auto simp: finish_call_def statements_7 statement_defs vector_at_def vector_at_unsafe_def vector_lock_def
      map_res_def bind_res_def rd_cell_def vector_unlock_def split: cell.splits)

lemma finish_remove:
  "\<not> v_lock v \<Longrightarrow> vec_atomic (CallRemove i) v = Some (map_res (\<lambda>(pc, v). case pc of Left r \<Rightarrow> (v, r)) (finish_call (CallRemove i) Calling v))"
proof (cases "v_size v \<le> i")
  case True
  then show "\<not> v_lock v \<Longrightarrow> ?thesis"
    by (simp add: finish_call_def statements_7 vec_statement_def remove_statement_def vector_remove_def
        vector_remove_unsafe_def vector_lock_def vector_unlock_def)
next
  case False
  then show "\<not> v_lock v \<Longrightarrow> ?thesis"
    by (simp add: finish_call_def statements_7 vec_statement_def remove_statement_def vector_remove_def vector_lock_def
        vector_remove_unsafe_def Let_def bind_res_def map_res_def vector_unlock_def split: sum.split)
qed

lemma finish_atomic:
  "\<not> v_lock v \<Longrightarrow> vec_atomic call v = Some (map_res (\<lambda>(pc, v). case pc of Left r \<Rightarrow> (v, r)) (finish_call call Calling v))"
  using finish_insert finish_at finish_remove by (cases call) simp_all

section \<open>Threads\<close>

text \<open>A thread: the operations it has still to do, where it is in the first, and those done with their results.\<close>

record 'a vec_thread =
  vt_todo :: "'a vec_call list"
  vt_point :: "'a vec_point"
  vt_done :: "('a vec_call \<times> 'a vec_answer) list"

definition thread_turn :: "'a vec_thread \<Rightarrow> 'a vector \<Rightarrow> ('a vec_thread \<times> 'a vector) res" where
  "thread_turn th v =
     (case vt_todo th of
        [] \<Rightarrow> Inr (th, v)
      | call # rest \<Rightarrow>
          map_res (\<lambda>(pc, v).
              (case pc of
                 Left r \<Rightarrow> \<lparr>vt_todo = rest, vt_point = Calling, vt_done = vt_done th @ [(call, r)]\<rparr>
               | _ \<Rightarrow> th\<lparr>vt_point := pc\<rparr>, v))
            (vec_statement call (vt_point th) v))"

definition vec_turn :: "nat \<Rightarrow> 'a vec_thread list \<times> 'a vector \<Rightarrow> ('a vec_thread list \<times> 'a vector) res" where
  "vec_turn k s =
     (case s of (ts, v) \<Rightarrow>
        if length ts \<le> k then Inr (ts, v)
        else map_res (\<lambda>(th, v). (ts[k := th], v)) (thread_turn (ts ! k) v))"

fun vec_turns :: "nat list \<Rightarrow> 'a vec_thread list \<times> 'a vector \<Rightarrow> ('a vec_thread list \<times> 'a vector) res" where
  "vec_turns [] s = Inr s"
| "vec_turns (k # ks) s = bind_res (vec_turn k s) (vec_turns ks)"

definition threads_start :: "'a vec_call list list \<Rightarrow> 'a vec_thread list" where
  "threads_start programs = map (\<lambda>calls. \<lparr>vt_todo = calls, vt_point = Calling, vt_done = []\<rparr>) programs"

text \<open>Operations one after the other, each with its thread and its result.\<close>

type_synonym 'a vec_order = "(nat \<times> 'a vec_call \<times> 'a vec_answer) list"

fun serial :: "'a vector \<Rightarrow> 'a vec_order \<Rightarrow> 'a vector \<Rightarrow> bool" where
  "serial v [] w \<longleftrightarrow> v = w"
| "serial v ((i, call, r) # order) w \<longleftrightarrow>
     (case vec_atomic call v of
        Some (Inr (v', r')) \<Rightarrow> r' = r \<and> serial v' order w
      | _ \<Rightarrow> False)"

definition of_thread :: "nat \<Rightarrow> 'a vec_order \<Rightarrow> ('a vec_call \<times> 'a vec_answer) list" where
  "of_thread i order = map snd (filter (\<lambda>e. fst e = i) order)"

lemma serial_snoc:
  "serial v order w \<Longrightarrow> vec_atomic call w = Some (Inr (w', r)) \<Longrightarrow> serial v (order @ [(i, call, r)]) w'"
proof (induction order arbitrary: v)
  case (Cons e order)
  then show ?case by (cases e) (auto split: option.splits sum.splits)
qed simp

lemma of_thread_snoc: "of_thread i (order @ [(k, x)]) = of_thread i order @ (if k = i then [x] else [])"
  by (simp add: of_thread_def)

section \<open>Every schedule is a sequence\<close>

text \<open>An order of operations, each thread's in the order of its program, that some have begun.\<close>

definition in_order :: "'a vec_call list list \<Rightarrow> 'a vec_order \<Rightarrow> bool" where
  "in_order programs order \<longleftrightarrow> (\<forall>e \<in> set order. fst e < length programs) \<and>
     (\<forall>i < length programs. \<exists>rest. programs ! i = map fst (of_thread i order) @ rest)"

text \<open>The threads have done the operations of the order, with its results.\<close>

definition kept_order :: "'a vec_call list list \<Rightarrow> 'a vec_thread list \<Rightarrow> 'a vec_order \<Rightarrow> bool" where
  "kept_order programs ts order \<longleftrightarrow> length ts = length programs \<and> (\<forall>e \<in> set order. fst e < length programs) \<and>
     (\<forall>i < length ts. of_thread i order = vt_done (ts ! i) \<and> programs ! i = map fst (vt_done (ts ! i)) @ vt_todo (ts ! i))"

definition holds_lock :: "'a vec_thread list \<Rightarrow> nat \<Rightarrow> 'a vector \<Rightarrow> 'a vector \<Rightarrow> bool" where
  "holds_lock ts k v w \<longleftrightarrow> v_lock v \<and> k < length ts \<and> vt_point (ts ! k) \<noteq> Calling \<and> steps_to_leave (vt_point (ts ! k)) \<noteq> 0 \<and>
     (\<exists>call rest. vt_todo (ts ! k) = call # rest \<and> point_of call (vt_point (ts ! k)) \<and>
        finish_call call (vt_point (ts ! k)) v = finish_call call Calling w) \<and>
     (\<forall>i < length ts. i \<noteq> k \<longrightarrow> vt_point (ts ! i) = Calling)"

definition so_far :: "'a vec_call list list \<Rightarrow> 'a vector \<Rightarrow> 'a vec_thread list \<times> 'a vector \<Rightarrow> bool" where
  "so_far programs v0 s \<longleftrightarrow>
     (case s of (ts, v) \<Rightarrow>
        \<exists>order w. serial v0 order w \<and> \<not> v_lock w \<and> kept_order programs ts order \<and>
          (v = w \<and> (\<forall>i < length ts. vt_point (ts ! i) = Calling) \<or> (\<exists>k. holds_lock ts k v w)))"

text \<open>A sequence of operations that the programs can make ends in a fault.\<close>

definition fault_in_turn :: "'a vec_call list list \<Rightarrow> 'a vector \<Rightarrow> fault \<Rightarrow> bool" where
  "fault_in_turn programs v0 e \<longleftrightarrow>
     (\<exists>order w i call rest. serial v0 order w \<and> in_order programs order \<and> i < length programs \<and>
        programs ! i = map fst (of_thread i order) @ call # rest \<and> vec_atomic call w = Some (Inl e))"

lemma nth_updated: "j < length xs \<Longrightarrow> xs[i := x] ! j = (if i = j then x else xs ! j)"
  by (cases "i = j") simp_all

lemma kept_order_same: "kept_order programs ts order \<Longrightarrow> kept_order programs (ts[k := (ts ! k)\<lparr>vt_point := pc\<rparr>]) order"
  by (auto simp: kept_order_def nth_updated)

lemma kept_in_order: "kept_order programs ts order \<Longrightarrow> in_order programs order"
  by (auto simp: kept_order_def in_order_def)

lemma enter_turn:
  assumes "\<not> v_lock v" and "vt_todo th = call # rest" and "vt_point th = Calling"
  shows "thread_turn th v = Inr (th\<lparr>vt_point := Inside\<rparr>, v\<lparr>v_lock := True\<rparr>)"
    and "finish_call call Inside (v\<lparr>v_lock := True\<rparr>) = finish_call call Calling v"
proof -
  show "thread_turn th v = Inr (th\<lparr>vt_point := Inside\<rparr>, v\<lparr>v_lock := True\<rparr>)"
    using assms by (simp add: thread_turn_def vec_statement_def vector_lock_def)
  have seven: "7 = Suc 6" by simp
  have "finish_call call Calling v = vec_statements 6 call Inside (v\<lparr>v_lock := True\<rparr>)"
    unfolding finish_call_def seven vec_statements.simps(2) using assms(1) by (simp add: vec_statement_def vector_lock_def)
  also have "\<dots> = finish_call call Inside (v\<lparr>v_lock := True\<rparr>)"
    unfolding finish_call_def by (rule statements_enough) (cases call; simp)+
  finally show "finish_call call Inside (v\<lparr>v_lock := True\<rparr>) = finish_call call Calling v" by simp
qed

lemma blocked_turn: "v_lock v \<Longrightarrow> vt_point th = Calling \<Longrightarrow> thread_turn th v = Inr (th, v)"
  by (cases "vt_todo th") (simp_all add: thread_turn_def vec_statement_def vector_lock_def)

lemma finish_left:
  assumes "finish_call call pc v = finish_call call Calling w" and "\<not> v_lock w" and "point_of call pc" and "pc \<noteq> Calling"
  shows "vec_statement call pc v = Inl e \<Longrightarrow> vec_atomic call w = Some (Inl e)"
    and "vec_statement call pc v = Inr (Left r, v') \<Longrightarrow> vec_atomic call w = Some (Inr (v', r))"
    and "vec_statement call pc v = Inr (pc', v') \<Longrightarrow> finish_call call pc' v' = finish_call call Calling w"
  using assms(1) finish_step [OF assms(3,4), of v] finish_atomic [OF assms(2), of call] left_statements [of 7 call r]
  by (simp_all add: finish_call_def)

lemma free_turn:
  assumes "serial v0 order w" and "\<not> v_lock w" and "kept_order programs ts order"
    and "\<forall>i < length ts. vt_point (ts ! i) = Calling" and "k < length ts" and "vt_todo (ts ! k) = call # rest"
  shows "\<exists>s'. vec_turn k (ts, w) = Inr s' \<and> so_far programs v0 s'"
proof -
  let ?ts = "ts[k := (ts ! k)\<lparr>vt_point := Inside\<rparr>]" and ?v = "w\<lparr>v_lock := True\<rparr>"
  have pc: "vt_point (ts ! k) = Calling" using assms(4,5) by blast
  note enter = enter_turn [OF assms(2) assms(6) pc]
  have "holds_lock ?ts k ?v w"
    using assms(4-6) enter(2) by (cases call) (auto simp: holds_lock_def)
  then have "so_far programs v0 (?ts, ?v)"
    using assms(1,2) kept_order_same [OF assms(3)] unfolding so_far_def by blast
  then show ?thesis using enter(1) assms(5) by (simp add: vec_turn_def)
qed

lemma kept_order_done:
  assumes "kept_order programs ts order" and "k < length ts" and "vt_todo (ts ! k) = call # rest"
  shows "kept_order programs (ts[k := \<lparr>vt_todo = rest, vt_point = Calling, vt_done = vt_done (ts ! k) @ [(call, r)]\<rparr>])
    (order @ [(k, call, r)])"
  using assms by (auto simp: kept_order_def nth_updated of_thread_snoc)

lemma holder_turn:
  assumes "serial v0 order w" and "\<not> v_lock w" and "kept_order programs ts order" and "holds_lock ts k v w"
  shows "case vec_turn k (ts, v) of Inl e \<Rightarrow> fault_in_turn programs v0 e | Inr s' \<Rightarrow> so_far programs v0 s'"
proof -
  let ?th = "ts ! k" and ?pc = "vt_point (ts ! k)"
  from assms(4) obtain call rest where h: "v_lock v" "k < length ts" "?pc \<noteq> Calling" "steps_to_leave ?pc \<noteq> 0"
    "vt_todo ?th = call # rest" "point_of call ?pc" "finish_call call ?pc v = finish_call call Calling w"
    "\<forall>i < length ts. i \<noteq> k \<longrightarrow> vt_point (ts ! i) = Calling" unfolding holds_lock_def by blast
  note left = finish_left [OF h(7) assms(2) h(6,3)]
  show ?thesis
  proof (cases "vec_statement call ?pc v")
    case (Inl e)
    have "programs ! k = map fst (of_thread k order) @ call # rest" "k < length programs"
      using assms(3) h(2,5) by (simp_all add: kept_order_def)
    then have "fault_in_turn programs v0 e" using assms(1) kept_in_order [OF assms(3)] left(1) [OF Inl] unfolding fault_in_turn_def by blast
    then show ?thesis using Inl h(2,5) by (simp add: vec_turn_def thread_turn_def)
  next
    case (Inr s)
    obtain pc' v' where s: "s = (pc', v')" by fastforce
    note st = Inr [unfolded s]
    have in': "point_of call pc'" "pc' \<noteq> Calling" "v_lock v' = (if \<exists>r. ?pc = Leaving r then False else v_lock v)"
      "steps_to_leave ?pc = 1 \<or> steps_to_leave pc' \<noteq> 0"
      using statement_inside [OF st h(6,3)] h(4) by auto
    show ?thesis
    proof (cases "\<exists>r. pc' = Left r")
      case True
      then obtain r where r: "pc' = Left r" by blast
      have "\<exists>r. ?pc = Leaving r" using in'(4) r by (cases ?pc) auto
      then have free: "\<not> v_lock v'" using in'(3) by simp
      let ?ts = "ts[k := \<lparr>vt_todo = rest, vt_point = Calling, vt_done = vt_done ?th @ [(call, r)]\<rparr>]"
      have "serial v0 (order @ [(k, call, r)]) v'" using serial_snoc [OF assms(1) left(2)] st r by simp
      moreover have "kept_order programs ?ts (order @ [(k, call, r)])" by (rule kept_order_done [OF assms(3) h(2,5)])
      moreover have "\<forall>i < length ?ts. vt_point (?ts ! i) = Calling" using h(8) by (simp add: nth_updated)
      ultimately have "so_far programs v0 (?ts, v')" using free unfolding so_far_def by blast
      then show ?thesis using st r h(2,5) by (simp add: vec_turn_def thread_turn_def)
    next
      case False
      let ?ts = "ts[k := ?th\<lparr>vt_point := pc'\<rparr>]"
      have "thread_turn ?th v = Inr (?th\<lparr>vt_point := pc'\<rparr>, v')"
        using st h(5) False by (cases pc') (simp_all add: thread_turn_def)
      moreover have "holds_lock ?ts k v' w"
      proof -
        have "steps_to_leave pc' \<noteq> 0" using False by (cases pc') auto
        moreover have "v_lock v'"
        proof (rule ccontr)
          assume "\<not> v_lock v'"
          then obtain r where "?pc = Leaving r" using in'(3) h(1) by (auto split: if_splits)
          with st have "pc' = Left r" by (cases call) (simp_all add: vec_statement_def)
          with False show False by blast
        qed
        ultimately show ?thesis using in'(1,2) h left(3) [OF st] by (simp add: holds_lock_def nth_updated)
      qed
      ultimately show ?thesis
        using assms(1,2) kept_order_same [OF assms(3)] h(2) unfolding so_far_def by (auto simp: vec_turn_def)
    qed
  qed
qed

lemma idle_turn:
  "length ts \<le> k \<or> vt_todo (ts ! k) = [] \<or> v_lock v \<and> vt_point (ts ! k) = Calling \<Longrightarrow> vec_turn k (ts, v) = Inr (ts, v)"
  by (cases "length ts \<le> k") (auto simp: vec_turn_def blocked_turn, simp add: thread_turn_def)

lemma so_far_turn:
  assumes "so_far programs v0 s"
  shows "case vec_turn k s of Inl e \<Rightarrow> fault_in_turn programs v0 e | Inr s' \<Rightarrow> so_far programs v0 s'"
proof -
  obtain ts v where s: "s = (ts, v)" by fastforce
  with assms obtain order w where o: "serial v0 order w" "\<not> v_lock w" "kept_order programs ts order"
    "v = w \<and> (\<forall>i < length ts. vt_point (ts ! i) = Calling) \<or> (\<exists>k. holds_lock ts k v w)" unfolding so_far_def by auto
  show ?thesis
  proof (cases "length ts \<le> k \<or> vt_todo (ts ! k) = [] \<or> v_lock v \<and> vt_point (ts ! k) = Calling")
    case True
    from idle_turn [OF True] show ?thesis using assms s by simp
  next
    case False
    then obtain call rest where k: "k < length ts" "vt_todo (ts ! k) = call # rest" by (auto simp: neq_Nil_conv)
    from o(4) show ?thesis
    proof
      assume free: "v = w \<and> (\<forall>i < length ts. vt_point (ts ! i) = Calling)"
      from free_turn [OF o(1-3) _ k] free show ?thesis using s by fastforce
    next
      assume "\<exists>k. holds_lock ts k v w"
      then obtain j where j: "holds_lock ts j v w" by blast
      with False k have "j = k" by (auto simp: holds_lock_def)
      with holder_turn [OF o(1-3)] j s show ?thesis by simp
    qed
  qed
qed

lemma so_far_turns:
  "so_far programs v0 s \<Longrightarrow> case vec_turns ks s of Inl e \<Rightarrow> fault_in_turn programs v0 e | Inr s' \<Rightarrow> so_far programs v0 s'"
proof (induction ks arbitrary: s)
  case (Cons k ks)
  from so_far_turn [OF Cons.prems, of k] Cons.IH show ?case by (cases "vec_turn k s") auto
qed simp

lemma so_far_start: "\<not> v_lock v \<Longrightarrow> so_far programs v (threads_start programs, v)"
  unfolding so_far_def
  by (auto simp: threads_start_def kept_order_def of_thread_def intro!: exI [of _ "[]"])

section \<open>Every thread ends\<close>

definition thread_work :: "'a vec_thread \<Rightarrow> nat" where
  "thread_work th = (case vt_todo th of [] \<Rightarrow> 0 | _ # rest \<Rightarrow> 7 * length rest + steps_to_leave (vt_point th))"

definition vec_work :: "'a vec_thread list \<Rightarrow> nat" where
  "vec_work ts = sum_list (map thread_work ts)"

definition stuck :: "nat \<Rightarrow> 'a vec_thread list \<times> 'a vector \<Rightarrow> bool" where
  "stuck k s \<longleftrightarrow>
     (case s of (ts, v) \<Rightarrow> length ts \<le> k \<or> vt_todo (ts ! k) = [] \<or> v_lock v \<and> vt_point (ts ! k) = Calling)"

definition all_done :: "'a vec_thread list \<Rightarrow> bool" where
  "all_done ts \<longleftrightarrow> list_all (\<lambda>th. vt_todo th = []) ts"

lemma thread_work_calling: "vt_point th = Calling \<Longrightarrow> thread_work th = 7 * length (vt_todo th)"
  by (simp add: thread_work_def split: list.split)

lemma vec_work_less: "k < length ts \<Longrightarrow> thread_work th < thread_work (ts ! k) \<Longrightarrow> vec_work (ts[k := th]) < vec_work ts"
proof (induction ts arbitrary: k)
  case (Cons t ts)
  then show ?case by (cases k) (simp_all add: vec_work_def)
qed simp

text \<open>A thread that is not stuck makes progress.\<close>

lemma turn_work:
  assumes "so_far programs v0 (ts, v)" and "\<not> stuck k (ts, v)" and "vec_turn k (ts, v) = Inr (ts', v')"
  shows "vec_work ts' < vec_work ts"
proof -
  from assms(1) obtain order w where o: "v = w \<and> \<not> v_lock w \<and> (\<forall>i < length ts. vt_point (ts ! i) = Calling) \<or> (\<exists>j. holds_lock ts j v w)"
    unfolding so_far_def by blast
  from assms(2) obtain call rest where k: "k < length ts" "vt_todo (ts ! k) = call # rest" "\<not> (v_lock v \<and> vt_point (ts ! k) = Calling)"
    by (auto simp: stuck_def neq_Nil_conv)
  from assms(3) k(1) obtain th where th: "thread_turn (ts ! k) v = Inr (th, v')" "ts' = ts[k := th]"
    by (cases "thread_turn (ts ! k) v") (auto simp: vec_turn_def)
  have "thread_work th < thread_work (ts ! k)"
  proof (cases "vt_point (ts ! k) = Calling")
    case True
    then have "\<not> v_lock v" using k(3) by blast
    from enter_turn(1) [OF this k(2) True] th(1) True k(2) show ?thesis by (auto simp: thread_work_def)
  next
    case False
    with o k(1) obtain j where j: "holds_lock ts j v w" by blast
    with False k(1) have "j = k" by (auto simp: holds_lock_def)
    with j k(2) have p: "point_of call (vt_point (ts ! k))" "steps_to_leave (vt_point (ts ! k)) \<noteq> 0"
      by (auto simp: holds_lock_def)
    from th(1) k(2) obtain pc' where st: "vec_statement call (vt_point (ts ! k)) v = Inr (pc', v')"
      and th': "th = (case pc' of Left r \<Rightarrow> \<lparr>vt_todo = rest, vt_point = Calling, vt_done = vt_done (ts ! k) @ [(call, r)]\<rparr>
        | _ \<Rightarrow> (ts ! k)\<lparr>vt_point := pc'\<rparr>)"
      by (cases "vec_statement call (vt_point (ts ! k)) v") (auto simp: thread_turn_def)
    have "steps_to_leave pc' < steps_to_leave (vt_point (ts ! k))"
      using statement_inside [OF st p(1) False] p(2) by linarith
    then show ?thesis
    proof (cases "\<exists>r. pc' = Left r")
      case True
      then show ?thesis using th' k(2) p(2) by (auto simp: thread_work_calling, auto simp: thread_work_def)
    next
      case False
      then have "th = (ts ! k)\<lparr>vt_point := pc'\<rparr>" using th' by (cases pc') auto
      with \<open>steps_to_leave pc' < _\<close> k(2) show ?thesis by (simp add: thread_work_def)
    qed
  qed
  with th(2) k(1) show ?thesis by (simp add: vec_work_less)
qed

text \<open>No deadlock: while an operation is left, some thread can go on.\<close>

lemma some_not_stuck:
  assumes "so_far programs v0 (ts, v)" and "\<not> all_done ts"
  shows "\<exists>k < length ts. \<not> stuck k (ts, v)"
proof -
  from assms(1) obtain order w where "v = w \<and> \<not> v_lock w \<or> (\<exists>j. holds_lock ts j v w)" unfolding so_far_def by blast
  then show ?thesis
  proof
    assume free: "v = w \<and> \<not> v_lock w"
    from assms(2) obtain k where "k < length ts" "vt_todo (ts ! k) \<noteq> []" by (auto simp: all_done_def list_all_length)
    with free show ?thesis by (auto simp: stuck_def)
  next
    assume "\<exists>j. holds_lock ts j v w"
    then obtain j where "holds_lock ts j v w" by blast
    then have "j < length ts" "\<not> stuck j (ts, v)" by (auto simp: holds_lock_def stuck_def)
    then show ?thesis by blast
  qed
qed

lemma turns_work:
  "so_far programs v0 (ts, v) \<Longrightarrow> vec_turns ks (ts, v) = Inr (ts', v') \<Longrightarrow>
    so_far programs v0 (ts', v') \<and> (vec_work ts' < vec_work ts \<or> (ts', v') = (ts, v) \<and> (\<forall>k \<in> set ks. stuck k (ts, v)))"
proof (induction ks arbitrary: ts v)
  case (Cons k ks)
  from Cons.prems(2) obtain ts1 v1 where s1: "vec_turn k (ts, v) = Inr (ts1, v1)" "vec_turns ks (ts1, v1) = Inr (ts', v')"
    by (cases "vec_turn k (ts, v)") auto
  have ok: "so_far programs v0 (ts1, v1)" using so_far_turn [OF Cons.prems(1), of k] s1(1) by simp
  have one: "vec_work ts1 < vec_work ts \<or> (ts1, v1) = (ts, v) \<and> stuck k (ts, v)"
  proof (cases "stuck k (ts, v)")
    case True
    then have "vec_turn k (ts, v) = Inr (ts, v)" unfolding stuck_def by (intro idle_turn) simp
    with True s1(1) show ?thesis by simp
  qed (use turn_work [OF Cons.prems(1) _ s1(1)] in simp)
  from Cons.IH [OF ok s1(2)] one show ?case by auto
qed simp

lemma vec_turns_append: "vec_turns (ks @ ls) s = bind_res (vec_turns ks s) (vec_turns ls)"
proof (induction ks arbitrary: s)
  case (Cons k ks)
  then show ?case by (cases "vec_turn k s") simp_all
qed simp

lemma done_work: "so_far programs v0 (ts, v) \<Longrightarrow> vec_work ts = 0 \<Longrightarrow> all_done ts"
proof (rule ccontr)
  assume a: "so_far programs v0 (ts, v)" "vec_work ts = 0" "\<not> all_done ts"
  obtain k where k: "k < length ts" "\<not> stuck k (ts, v)" using some_not_stuck [OF a(1,3)] by blast
  show False
  proof (cases "vec_turn k (ts, v)")
    case (Inr s)
    then show False using turn_work [OF a(1) k(2)] a(2) by (cases s) simp
  next
    case (Inl e)
    have "thread_work (ts ! k) = 0" using a(2) k(1) by (simp add: vec_work_def sum_list_eq_0_iff)
    with k(2) obtain call rest where "vt_todo (ts ! k) = call # rest" "steps_to_leave (vt_point (ts ! k)) = 0"
      by (auto simp: thread_work_def stuck_def neq_Nil_conv)
    then have "vec_turn k (ts, v) \<noteq> Inl e"
      by (cases "vt_point (ts ! k)"; cases call) (auto simp: vec_turn_def thread_turn_def statement_defs)
    with Inl show False by blast
  qed
qed

lemma rounds_work:
  "so_far programs v0 (ts, v) \<Longrightarrow> \<forall>r \<in> set rounds. {..< length programs} \<subseteq> set r \<Longrightarrow> vec_turns (concat rounds) (ts, v) = Inr (ts', v') \<Longrightarrow>
    so_far programs v0 (ts', v') \<and> (all_done ts' \<or> vec_work ts' + length rounds \<le> vec_work ts)"
proof (induction rounds arbitrary: ts v)
  case (Cons r rounds)
  from Cons.prems(3) obtain ts1 v1 where s1: "vec_turns r (ts, v) = Inr (ts1, v1)" "vec_turns (concat rounds) (ts1, v1) = Inr (ts', v')"
    by (cases "vec_turns r (ts, v)") (auto simp: vec_turns_append)
  note one = turns_work [OF Cons.prems(1) s1(1)]
  have len: "length ts = length programs" using Cons.prems(1) by (auto simp: so_far_def kept_order_def)
  have "all_done ts \<and> (ts1, v1) = (ts, v) \<or> vec_work ts1 < vec_work ts"
    using one some_not_stuck [OF Cons.prems(1)] Cons.prems(2) len by auto
  moreover have "all_done ts'" if "all_done ts" "(ts1, v1) = (ts, v)"
  proof -
    have "\<forall>k. stuck k (ts, v)" using that(1) by (auto simp: stuck_def all_done_def list_all_length)
    then have "vec_turns ks (ts, v) = Inr (ts, v)" for ks
      by (induction ks) (auto simp: stuck_def idle_turn)
    with s1(2) that show ?thesis by simp
  qed
  ultimately show ?case using Cons.IH [OF _ _ s1(2)] one Cons.prems(2) by auto
qed simp

section \<open>Insertions\<close>

lemma insert_atomic:
  assumes "vector_ready n v" and "n < 2 ^ 57"
  shows "\<exists>v' b. vec_atomic (CallInsert True (Some x)) v = Some (Inr (v', Inserted b)) \<and> vector_ready (Suc n) v' \<and> elems v' = elems v @ [x]"
proof -
  obtain v' where v': "vector_exec v (Insert x) = Some (Inr v')" "vector_ready (Suc n) v'" "elems v' = elems v @ [x]"
    using vector_exec_insert [OF assms] by blast
  from v'(1) obtain b where "vector_insert True v (Some x) = Some (Inr (v', b))" by (auto simp: map_res_Inr_iff)
  with v'(2,3) show ?thesis by simp
qed

lemma serial_inserts:
  "serial v order w \<Longrightarrow> vector_ready n v \<Longrightarrow> n + length order < 2 ^ 57 \<Longrightarrow> map (fst \<circ> snd) order = map (CallInsert True \<circ> Some) xs \<Longrightarrow>
    vector_ready (n + length order) w \<and> elems w = elems v @ xs"
proof (induction order arbitrary: n v xs)
  case (Cons e order)
  obtain i call r where e: "e = (i, call, r)" by (cases e)
  with Cons.prems(4) obtain x ys where x: "xs = x # ys" "call = CallInsert True (Some x)" "map (fst \<circ> snd) order = map (CallInsert True \<circ> Some) ys"
    by (cases xs) (auto simp: comp_def)
  obtain v' b where v': "vec_atomic call v = Some (Inr (v', Inserted b))" "vector_ready (Suc n) v'" "elems v' = elems v @ [x]"
    using insert_atomic [OF Cons.prems(2), of x] Cons.prems(3) x(2) by auto
  from Cons.prems(1) v'(1) have "serial v' order w" by (simp add: e)
  from Cons.IH [OF this v'(2) _ x(3)] Cons.prems(3) v'(3) x(1) show ?case by simp
qed simp

lemma order_by_thread:
  assumes "\<forall>e \<in> set order. fst e < n"
  shows "mset (map snd order) = (\<Sum>i < n. mset (of_thread i order))"
  using assms
proof (induction order)
  case (Cons e order)
  have "(\<Sum>i < n. mset (of_thread i (e # order))) = (\<Sum>i < n. (if i = fst e then {#snd e#} else {#}) + mset (of_thread i order))"
    by (intro sum.cong) (auto simp: of_thread_def)
  also have "\<dots> = {#snd e#} + (\<Sum>i < n. mset (of_thread i order))"
    using Cons.prems by (simp add: sum.distrib)
  finally show ?case using Cons by simp
qed (simp add: of_thread_def)

lemma calls_by_thread:
  assumes "\<forall>e \<in> set order. fst e < n"
  shows "mset (map (fst \<circ> snd) order) = (\<Sum>i < n. mset (map fst (of_thread i order)))"
proof -
  have "mset (map (fst \<circ> snd) order) = image_mset fst (mset (map snd order))" by (simp add: multiset.map_comp)
  also have "\<dots> = (\<Sum>i < n. image_mset fst (mset (of_thread i order)))"
    unfolding order_by_thread [OF assms] by (induction n) simp_all
  finally show ?thesis by simp
qed

lemma mset_concat_nth: "mset (concat xss) = (\<Sum>i < length xss. mset (xss ! i))"
  by (induction xss rule: rev_induct) (simp_all add: nth_append)

lemma sum_mset_mono: "(\<And>i. i < n \<Longrightarrow> f i \<subseteq># g i) \<Longrightarrow> (\<Sum>i < n. f i :: 'b multiset) \<subseteq># (\<Sum>i < (n :: nat). g i)"
  by (induction n) (simp_all add: subset_mset.add_mono)

text \<open>The calls of an order are among those of the programs.\<close>

lemma in_order_calls:
  assumes "in_order programs order"
  shows "mset (map (fst \<circ> snd) order) \<subseteq># mset (concat programs)"
proof -
  have "\<forall>e \<in> set order. fst e < length programs" using assms by (simp add: in_order_def)
  from calls_by_thread [OF this] have "mset (map (fst \<circ> snd) order) = (\<Sum>i < length programs. mset (map fst (of_thread i order)))" .
  also have "\<dots> \<subseteq># (\<Sum>i < length programs. mset (programs ! i))"
  proof (rule sum_mset_mono)
    fix i
    assume "i < length programs"
    then obtain rest where "programs ! i = map fst (of_thread i order) @ rest" using assms by (auto simp: in_order_def)
    then show "mset (map fst (of_thread i order)) \<subseteq># mset (programs ! i)" by simp
  qed
  finally show ?thesis by (simp add: mset_concat_nth)
qed

lemma calls_are_inserts:
  assumes "set calls \<subseteq> range (CallInsert True \<circ> Some)"
  obtains xs where "calls = map (CallInsert True \<circ> Some) xs"
  using assms by (metis ex_map_conv subset_image_iff image_comp rangeE subsetD)

abbreviation insert_programs :: "'a list list \<Rightarrow> 'a vec_call list list" where
  "insert_programs xss \<equiv> map (map (CallInsert True \<circ> Some)) xss"

lemma order_inserts:
  assumes "in_order (insert_programs xss) order"
  obtains xs where "map (fst \<circ> snd) order = map (CallInsert True \<circ> Some) xs" "mset xs \<subseteq># mset (concat xss)"
    "length order = length xs"
proof -
  let ?c = "CallInsert True \<circ> Some :: 'a \<Rightarrow> 'a vec_call"
  have conc: "concat (insert_programs xss) = map ?c (concat xss)" by (simp add: map_concat)
  have "set (map (fst \<circ> snd) order) \<subseteq> set (concat (insert_programs xss))"
    using in_order_calls [OF assms] by (metis set_mset_mono set_mset_mset)
  then have "set (map (fst \<circ> snd) order) \<subseteq> range ?c" unfolding conc by auto
  then obtain xs where xs: "map (fst \<circ> snd) order = map ?c xs" by (rule calls_are_inserts)
  have inj: "inj ?c" by (simp add: inj_def)
  have "image_mset ?c (mset xs) \<subseteq># image_mset ?c (mset (concat xss))"
    using in_order_calls [OF assms] unfolding xs conc by simp
  then have "mset xs \<subseteq># mset (concat xss)"
    using image_mset_subseteq_mono [of "image_mset ?c (mset xs)" "image_mset ?c (mset (concat xss))" "inv ?c"] inj
    by (simp add: multiset.map_comp inv_o_cancel)
  moreover have "length order = length xs" using arg_cong [OF xs, of length] by simp
  ultimately show thesis using xs that by blast
qed

text \<open>After an order of such calls the vector holds what they inserted.\<close>

lemma inserted_so_far:
  assumes "vector_ready 0 v" and "length (concat xss) < 2 ^ 57" and "serial v order w" and "in_order (insert_programs xss) order"
  shows "vector_ready (length order) w" and "map (fst \<circ> snd) order = map (CallInsert True \<circ> Some) (elems w)"
    and "length order < 2 ^ 57"
proof -
  obtain xs where xs: "map (fst \<circ> snd) order = map (CallInsert True \<circ> Some) xs" "mset xs \<subseteq># mset (concat xss)"
    "length order = length xs" using assms(4) by (rule order_inserts)
  show len: "length order < 2 ^ 57" using size_mset_mono [OF xs(2)] xs(3) assms(2) by simp
  have "elems v = []" using assms(1) by (simp add: vector_ready_def)
  with serial_inserts [OF assms(3,1) _ xs(1)] len xs(1)
  show "vector_ready (length order) w" "map (fst \<circ> snd) order = map (CallInsert True \<circ> Some) (elems w)" by auto
qed

lemma no_insertion_fault:
  assumes "vector_ready 0 v" and "length (concat xss) < 2 ^ 57"
  shows "\<not> fault_in_turn (insert_programs xss) v e"
proof
  assume "fault_in_turn (insert_programs xss) v e"
  then obtain order w i call rest where f: "serial v order w" "in_order (insert_programs xss) order" "i < length (insert_programs xss)"
    "insert_programs xss ! i = map fst (of_thread i order) @ call # rest" "vec_atomic call w = Some (Inl e)"
    by (auto simp: fault_in_turn_def)
  have "call \<in> set (insert_programs xss ! i)" using f(4) by simp
  then obtain x where "call = CallInsert True (Some x)" using f(3) by auto
  with inserted_so_far [OF assms f(1,2)] f(5) insert_atomic [of "length order" w x] show False by auto
qed

lemma all_inserted:
  assumes "vector_ready 0 v" and "length (concat xss) < 2 ^ 57" and "serial v order w"
    and "kept_order (insert_programs xss) ts order" and "all_done ts"
  shows "mset (elems w) = mset (concat xss)"
proof -
  let ?ps = "insert_programs xss" and ?c = "CallInsert True \<circ> Some :: 'a \<Rightarrow> 'a vec_call"
  have each: "\<forall>i < length ?ps. map fst (of_thread i order) = ?ps ! i"
    using assms(4,5) by (auto simp: kept_order_def all_done_def list_all_length)
  have "mset (map (fst \<circ> snd) order) = (\<Sum>i < length ?ps. mset (map fst (of_thread i order)))"
    using assms(4) by (intro calls_by_thread) (simp add: kept_order_def)
  also have "\<dots> = mset (concat ?ps)" unfolding mset_concat_nth using each by (intro sum.cong) auto
  finally have "image_mset ?c (mset (elems w)) = image_mset ?c (mset (concat xss))"
    using inserted_so_far(2) [OF assms(1-3) kept_in_order [OF assms(4)]] by (metis map_concat mset_map)
  moreover have "inj ?c" by (simp add: inj_def)
  ultimately show ?thesis using multiset.inj_map injD by fastforce
qed

section \<open>Properties\<close>

text \<open>
  C11. The lock makes the operations of vector.c atomic: whatever the schedule of the statements of
  any number of threads, at every point the vector and the results are those of the finished
  operations made one after the other, with each thread's in the order of its program, except
  for the operation of the one thread that is inside; and a fault can only be one that the operations
  have also when they are made one after the other.
\<close>

theorem vector_threads_serialise:
  assumes "\<not> v_lock v"
  shows "case vec_turns ks (threads_start programs, v) of
      Inl e \<Rightarrow> fault_in_turn programs v e
    | Inr (ts, v') \<Rightarrow>
        (\<exists>order w. serial v order w \<and> kept_order programs ts order \<and> (\<not> v_lock v' \<longrightarrow> v' = w)) \<and>
        (\<forall>i < length ts. \<forall>j < length ts. vt_point (ts ! i) \<noteq> Calling \<longrightarrow> vt_point (ts ! j) \<noteq> Calling \<longrightarrow> i = j)"
proof -
  note run = so_far_turns [OF so_far_start [OF assms, of programs], of ks]
  show ?thesis
  proof (cases "vec_turns ks (threads_start programs, v)")
    case (Inr s)
    obtain ts v' where s: "s = (ts, v')" by fastforce
    from run Inr s obtain order w where o: "serial v order w" "kept_order programs ts order"
      "v' = w \<and> (\<forall>i < length ts. vt_point (ts ! i) = Calling) \<or> (\<exists>k. holds_lock ts k v' w)" unfolding so_far_def by auto
    from o(3) have "\<not> v_lock v' \<longrightarrow> v' = w" by (auto simp: holds_lock_def)
    moreover from o(3) have "\<forall>i < length ts. \<forall>j < length ts. vt_point (ts ! i) \<noteq> Calling \<longrightarrow> vt_point (ts ! j) \<noteq> Calling \<longrightarrow> i = j"
      unfolding holds_lock_def by metis
    ultimately show ?thesis using o(1,2) Inr s by auto
  qed (use run in simp)
qed

theorem vector_threads_serialise_witness:
  "\<exists>order w. serial \<lparr>v_array = [Ptr None, Ptr None], v_size = 2, v_count = 0, v_lock = False\<rparr> order w \<and>
    kept_order [[CallInsert True (Some (7 :: nat))], [CallInsert True (Some 8)]]
      [\<lparr>vt_todo = [CallInsert True (Some 7)], vt_point = Stored, vt_done = []\<rparr>,
       \<lparr>vt_todo = [CallInsert True (Some 8)], vt_point = Calling, vt_done = []\<rparr>] order"
  using vector_threads_serialise [where v = "\<lparr>v_array = [Ptr None, Ptr None], v_size = 2, v_count = 0, v_lock = False\<rparr>"
      and ks = "[0, 1, 0, 1, 0]" and programs = "[[CallInsert True (Some (7 :: nat))], [CallInsert True (Some 8)]]"]
  by (simp add: threads_start_def vec_turn_def thread_turn_def statement_defs vector_lock_def wr_cell_def)

text \<open>
  C12. Nothing is lost or blocked for ever: when each of any number of threads inserts its elements
  into one vector, every schedule that gives each thread a turn seven times as often as there
  are elements ends without a fault, with all threads done, the lock free, and the vector
  holding each element as often as it was inserted.
\<close>

theorem no_insertion_lost:
  assumes "vector_ready 0 v" and "length (concat xss) < 2 ^ 57"
    and "\<forall>r \<in> set rounds. {..< length xss} \<subseteq> set r" and "7 * length (concat xss) \<le> length rounds"
  shows "\<exists>ts v'. vec_turns (concat rounds) (threads_start (insert_programs xss), v) = Inr (ts, v') \<and>
    list_all (\<lambda>th. vt_todo th = []) ts \<and> \<not> v_lock v' \<and> vector_inv v' \<and> mset (elems v') = mset (concat xss)"
proof -
  let ?ps = "insert_programs xss"
  have free: "\<not> v_lock v" using assms(1) by (simp add: vector_ready_def)
  note run = so_far_turns [OF so_far_start [OF free, of ?ps], of "concat rounds"]
  obtain ts v' where s: "vec_turns (concat rounds) (threads_start ?ps, v) = Inr (ts, v')"
    using run no_insertion_fault [OF assms(1,2)] by (cases "vec_turns (concat rounds) (threads_start ?ps, v)") auto
  have work: "vec_work (threads_start ?ps) = 7 * length (concat xss)"
    by (induction xss) (simp_all add: vec_work_def threads_start_def thread_work_calling)
  have rounds: "\<forall>r \<in> set rounds. {..< length ?ps} \<subseteq> set r" using assms(3) by simp
  have ok: "so_far ?ps v (ts, v')" and "all_done ts \<or> vec_work ts = 0"
    using rounds_work [OF so_far_start [OF free] rounds s] work assms(4) by auto
  then have ended: "all_done ts" using done_work by blast
  from ok obtain order w where o: "serial v order w" "\<not> v_lock w" "kept_order ?ps ts order"
    "v' = w \<or> (\<exists>k. holds_lock ts k v' w)" unfolding so_far_def by blast
  have "\<not> holds_lock ts k v' w" for k using ended by (auto simp: holds_lock_def all_done_def list_all_length)
  with o(4) have w: "v' = w" by blast
  have "vector_inv w" using inserted_so_far(1) [OF assms(1,2) o(1) kept_in_order [OF o(3)]] by (simp add: vector_ready_def)
  with s w o(2) ended all_inserted [OF assms(1,2) o(1,3) ended] show ?thesis by (auto simp: all_done_def)
qed

theorem no_insertion_lost_witness:
  "\<exists>ts v'. vec_turns (concat (replicate 21 [1, 0]))
      (threads_start [[CallInsert True (Some 7), CallInsert True (Some 8)], [CallInsert True (Some (9 :: nat))]],
       \<lparr>v_array = replicate 10 (Ptr None), v_size = 10, v_count = 0, v_lock = False\<rparr>) = Inr (ts, v') \<and>
    \<not> v_lock v' \<and> mset (elems v') = {#7, 8, 9#}"
proof -
  let ?v = "\<lparr>v_array = replicate 10 (Ptr None), v_size = 10, v_count = 0, v_lock = False\<rparr> :: nat vector"
  have "vector_ready 0 ?v" by (simp add: vector_ready_def vector_inv_def elems_def list_all_iff)
  moreover have "\<forall>r \<in> set (replicate 21 [1, 0 :: nat]). {..< length [[7, 8], [9 :: nat]]} \<subseteq> set r" by auto
  ultimately show ?thesis
    using no_insertion_lost [of ?v "[[7, 8], [9]]" "replicate 21 [1, 0]"] by auto
qed

end
