(* ===== verification/Spec2Isabelle.thy ===== *)
theory Spec2Isabelle
  imports Many_Clients Handlers Demo Table_Races Vector_Threads Logger
begin

text \<open>
  memuncached is an in-memory cache server and its client library, in C. \<open>main\<close> (server.c) creates
  one hash table and one list of clients, accepts connections and starts a thread for each; a
  thread (\<open>handle_connection\<close> in connection.c) reads command lines into a growing buffer, cuts
  them into arguments in place, calls the handler of the command, which works on the shared
  table (hash_table.c, on fnv.c) and writes the reply (macros of connection.h), and at the end
  takes its client from the shared list (vector.c). The client library (libmemuncached.c)
  writes requests and parses replies into the buffer of its client record.

  Theories and code:
  Prelude: results \<open>'a res\<close> (\<open>Inl\<close> an undefined behaviour, \<open>Inr\<close> a value), byte strings, and the
  lemmas on lists and words that the others share.
  Fnv: fnv.c. Vector: vector.c, a dynamic array with its lock, and the locale of a list with
  append and swap-removal, interpreted on it.
  C_Numbers, C_Double: what the code uses of the C library: \<open>atoi\<close>, \<open>atoll\<close>, \<open>atof\<close>, \<open>%d\<close>,
  \<open>%ld\<close>, \<open>%lf\<close>, and binary64 addition, subtraction and conversion with round-half-even. The
  locale of a printer and its parser is interpreted on the decimal ones.
  Hash_Table: hash_table.c, and its refinement of a map from buckets to entries.
  Utils: utils.h. Protocol: defs.h, the replies of connection.h, sockets and the state of a
  handler. Commands: the nine handlers of connection.c (from line 325). Dispatch: the command
  parser of connection.c (lines 135 to 323).
  Connection: \<open>handle_connection\<close> up to its cleanup, as a step function over two program points
  (outer loop, reading a line), with \<open>connection_run\<close> as the whole run. Connection_Loop: its
  invariant and the ways a run goes wrong or does not end. Requests: whole requests, from the
  bytes on the socket to the table and to the reply.
  Server: the cleanup in connection.c (lines 116 to 130) and server.c. Interleaving: main, the
  connection threads and the signal handler as one transition system.
  Client_Recv: \<open>memuncached_recv\<close> of libmemuncached.c. Client: its other functions and the macros
  of libmemuncached.h. Conversation: client and server together, one call at a time.
  Service: a connection of the server against an abstract cache, a map from buckets to values,
  for every sequence of requests. Dialogue: the same for sequences of client calls that the
  server answers. Demo: lib_demo.c, and what it prints.
  Many_Clients: the server of Interleaving with any number of clients, each with one request
  under way at a time, against the abstract cache of Service: replies and contents are those of
  the requests carried out one after the other, in the order of their answers.
  Logger: logger.h, and the log lines of command lines and replies.
  Table_Steps: the operations of hash_table.c again, statement by statement, on a memory with
  addresses and for several threads. Table_Threads: an operation that runs alone does what
  Hash_Table says, and operations on different buckets do not disturb each other. Table_Races:
  what happens when two threads work on the same bucket. Handlers: the handlers of connection.c
  as sequences of operations on the table, for several threads. Vector_Threads: the locked
  operations of vector.c statement by statement, for several threads.

  State: \<open>hash_table_t\<close>, \<open>vector_t\<close>, \<open>client_connection_t\<close>, \<open>memuncached_client_t\<close> and the result
  types are records with the fields of the code. Integers are words of their width where
  they can wrap (\<open>size_t\<close>, \<open>int64\<close>, \<open>int32\<close>, \<open>char\<close> as the type of a value); the \<open>int\<close> locals of
  loops are integers with the overflow test written out. Heap blocks are lists of bytes, so
  that reads and writes outside are errors or, where the code goes on after a short overrun,
  recorded in \<open>w_overruns\<close>. Client blocks live in a map from addresses, so that dangling
  pointers show. Sockets are the list of segments that will arrive and the bytes sent: \<open>recv\<close>
  returns part of one segment, so a statement over all segment lists with the same bytes is
  one over all divisions of the stream.

  The lemmas: functional behaviour of every operation on its branches; invariants (\<open>ht_inv\<close>,
  \<open>vector_inv\<close>, \<open>lb_inv\<close>, \<open>buffer_ok\<close>, \<open>sys_inv\<close>, \<open>memory_ok\<close>) and their preservation; refinement
  of the table to a map and of the vector to a list, of the server to the abstract cache and of
  client and server together to the same cache; of the server with any number of clients to that
  cache; the operations of several threads on the table, on the vector and in the handlers,
  under every schedule: without a lock they are safe in different buckets and race in one, with
  the lock they are atomic; equivalence of the in-place parser with words, and of the
  syntax checks, the hash and the order of log stamps with references; round trips of printing and parsing, of SET and
  GET at the server and between client and server; and the conditions under which the code
  fails, each with a concrete case.

  Termination: loops over data are total functions. A loop that waits for the peer may not
  end: receiving a payload is an option that is \<open>None\<close> when the code spins, and the loops of a
  connection are \<open>connection_steps\<close>, which counts rounds, and \<open>connection_run\<close>, a partial
  function; every statement that a request is served says that some number of rounds ends in
  the result. The recursion of the client's loop is bounded by the pending events. An operation
  of Table_Steps has returned after at most 12 steps of its own, so a schedule with 12 steps of
  each thread runs all of them to their ends; a handler of Handlers is done after 4 steps, an
  operation of Vector_Threads after 7, where a thread that waits for the lock is given turns in
  vain: there a schedule is a list of rounds, each with a turn of every thread. In Many_Clients
  a request of \<open>n\<close> bytes is answered in at most \<open>n + 1\<close> rounds of its thread, as every round
  but the last reads at least a byte or enters the inner loop.

  Parameters: the outcomes of \<open>realloc\<close>, \<open>calloc\<close>, \<open>malloc\<close>, \<open>accept\<close>, \<open>pthread_create\<close> and of the
  initialisation of the lock, and the bytes found in fresh memory.

  Not modelled: the log lines other than those of Logger, whose time is a parameter; allocations
  whose result the code does not check, which succeed here; partial writes to a
  socket, and the signal that a write to a closed socket raises; a peer that stays silent for
  ever, which is a run cut off at a \<open>recv\<close>. In Interleaving and Many_Clients a step is one
  operation of a thread, such as a whole command, and is not interrupted. What interrupting it
  adds is in Handlers, where operations on the table are not interrupted but commands are, and in
  the three Table theories, where a step is one statement: loading a
  pointer and writing through it is one step, and so is storing a pointer just allocated. Every
  thread sees the memory in one order; what a compiler or weakly ordered memory adds is not
  modelled.
\<close>

end
